(* ===== verification/Go_Prelude.thy ===== *)
theory Go_Prelude
  imports Main "HOL-Library.Word"
begin

text \<open>
  Shared vocabulary of the development: bytes, the error values of the program, the results of
  Go code (a value, a panic, or no result at all because a loop does not end), and Go's slice
  operations with their bounds checks.

  A value of type \<open>'a go\<close> is what running a piece of Go code gives: \<open>ret x\<close> is a normal return,
  \<open>throw p\<close> a panic and \<open>None\<close> a run that never returns.  Loops without a termination argument are
  \<^theory_text>\<open>partial_function (option)\<close>s over this type.
\<close>

unbundle bit_operations_syntax

named_theorems go_simps \<open>evaluation of the result type and of slices inside their bounds\<close>
named_theorems wf_intros \<open>preservation of well-formedness by the operations of a component\<close>

subsection \<open>Bytes and errors\<close>

type_synonym byte = "8 word"
type_synonym bytes = "byte list"

text \<open>
  Every error value the modelled code returns or compares.  \<open>NetErr k t\<close> stands for an error of the
  network layer (an opaque identity \<open>k\<close>, and whether its \<open>Timeout()\<close> holds); the \<open>AEAD\<close> and key-schedule
  errors come from the cryptographic packages.
\<close>

datatype goerr =
    EOF | ErrUnexpectedEOF | ErrShortWrite | ErrShortBuffer | ErrInvalidWrite
  | ErrInvalidUnreadByte | ErrInvalidUnreadRune | ErrBufferFull | ErrNegativeCount
  | SocksError byte
  | ErrRepeatedSalt | ErrShortPacket | AeadOpenError
  | KeySizeError int | AesKeySizeError int | ErrCipherNotSupported
  | NetErr nat bool

datatype panic =
    SliceBounds | IndexBounds | NegativeRead | RewindPastStart | DivideByZero | NegativeMake
  | PanicMsg string | InvalidEnv string | NilDeref

subsection \<open>Results of Go code\<close>

datatype 'a run = Val 'a | Panic panic

type_synonym 'a go = "'a run option"

definition ret :: "'a \<Rightarrow> 'a go" where
  "ret x = Some (Val x)"

definition throw :: "panic \<Rightarrow> 'a go" where
  "throw p = Some (Panic p)"

definition gobind :: "'a go \<Rightarrow> ('a \<Rightarrow> 'b go) \<Rightarrow> 'b go" where
  "gobind m f = Option.bind m (\<lambda>r. case r of Val x \<Rightarrow> f x | Panic p \<Rightarrow> Some (Panic p))"

lemma gobind_simps [simp, go_simps]:
  "gobind (ret x) f = f x"
  "gobind (throw p) f = throw p"
  "gobind None f = None"
  by (simp_all add: gobind_def ret_def throw_def)

lemma ret_inject [simp]: "ret x = ret y \<longleftrightarrow> x = y"
  by (simp add: ret_def)

lemma throw_inject [simp]: "throw p = throw q \<longleftrightarrow> p = q"
  by (simp add: throw_def)

lemma go_distinct [simp]:
  "ret x \<noteq> throw p" "throw p \<noteq> ret x" "ret x \<noteq> None" "None \<noteq> ret x"
  "throw p \<noteq> None" "None \<noteq> throw p"
  by (simp_all add: ret_def throw_def)

lemma go_cases [case_names ret throw diverge]:
  fixes m :: "'a go"
  obtains (ret) x where "m = ret x" | (throw) p where "m = throw p" | (diverge) "m = None"
  by (cases m; simp add: ret_def throw_def) (metis run.exhaust)

lemma gobind_assoc: "gobind (gobind m f) g = gobind m (\<lambda>x. gobind (f x) g)"
  by (cases m rule: go_cases) simp_all

lemma gobind_ret_right [simp]: "gobind m ret = m"
  by (cases m rule: go_cases) simp_all

lemma gobind_eq_ret: "gobind m f = ret y \<longleftrightarrow> (\<exists>x. m = ret x \<and> f x = ret y)"
  by (cases m rule: go_cases) auto

lemma gobind_cong [fundef_cong]:
  "m = m' \<Longrightarrow> (\<And>x. m' = ret x \<Longrightarrow> f x = f' x) \<Longrightarrow> gobind m f = gobind m' f'"
  by (cases m rule: go_cases) auto

lemma gobind_mono [partial_function_mono]:
  assumes "mono_option B" and "\<And>y. mono_option (\<lambda>f. C y f)"
  shows "mono_option (\<lambda>f. gobind (B f) (\<lambda>y. C y f))"
proof -
  have "mono_option (\<lambda>f. case r of Val x \<Rightarrow> C x f | Panic p \<Rightarrow> Some (Panic p))" for r
    using assms(2) by (cases r) (auto intro: option.const_mono)
  then show ?thesis
    unfolding gobind_def by (intro bind_mono assms(1))
qed

subsection \<open>Partial correctness\<close>

text \<open>\<open>go_post P m\<close>: if \<open>m\<close> returns, the result satisfies \<open>P\<close>.  Used for frame conditions only.\<close>

definition go_post :: "('a \<Rightarrow> bool) \<Rightarrow> 'a go \<Rightarrow> bool" where
  "go_post P m \<longleftrightarrow> (\<forall>x. m = ret x \<longrightarrow> P x)"

lemma go_post_ret: "P x \<Longrightarrow> go_post P (ret x)"
  by (simp add: go_post_def)

lemma go_post_bind: "(\<And>x. go_post P (f x)) \<Longrightarrow> go_post P (gobind m f)"
  by (auto simp: go_post_def gobind_eq_ret)

subsection \<open>Slices\<close>

abbreviation ilen :: "'a list \<Rightarrow> int" where
  "ilen xs \<equiv> int (length xs)"

text \<open>
  \<open>seg xs lo hi\<close> is the part of \<open>xs\<close> that the slice expression \<^verbatim>\<open>xs[lo:hi]\<close> denotes;
  \<open>go_slice\<close> is the expression itself, which panics outside \<open>0 \<le> lo \<le> hi \<le> len xs\<close> (the slices of the
  program are made with their capacity equal to their length; of a slice that a caller hands in and that is resliced beyond its length,
  the array up to its capacity is taken instead).
\<close>

definition seg :: "'a list \<Rightarrow> int \<Rightarrow> int \<Rightarrow> 'a list" where
  "seg xs lo hi = take (nat (hi - lo)) (drop (nat lo) xs)"

definition go_slice :: "'a list \<Rightarrow> int \<Rightarrow> int \<Rightarrow> 'a list go" where
  "go_slice xs lo hi =
     (if 0 \<le> lo \<and> lo \<le> hi \<and> hi \<le> ilen xs then ret (seg xs lo hi) else throw SliceBounds)"

definition go_index :: "'a list \<Rightarrow> int \<Rightarrow> 'a go" where
  "go_index xs i = (if 0 \<le> i \<and> i < ilen xs then ret (xs ! nat i) else throw IndexBounds)"

definition go_store :: "'a list \<Rightarrow> int \<Rightarrow> 'a \<Rightarrow> 'a list go" where
  "go_store xs i v = (if 0 \<le> i \<and> i < ilen xs then ret (xs[nat i := v]) else throw IndexBounds)"

text \<open>
  \<open>overwrite xs lo ys\<close> is \<open>xs\<close> after \<^verbatim>\<open>copy(xs[lo:], ys)\<close>: as much of \<open>ys\<close> as fits replaces the
  elements from \<open>lo\<close> on.  The number of elements copied is \<open>copy_len\<close>.
\<close>

definition overwrite :: "'a list \<Rightarrow> int \<Rightarrow> 'a list \<Rightarrow> 'a list" where
  "overwrite xs lo ys =
     take (nat lo) xs @ take (length xs - nat lo) ys @ drop (nat lo + length ys) xs"

definition copy_len :: "'a list \<Rightarrow> int \<Rightarrow> 'a list \<Rightarrow> int" where
  "copy_len xs lo ys = min (ilen xs - lo) (ilen ys)"

lemma copy_len_0 [simp]: "copy_len xs 0 ys = int (min (length xs) (length ys))"
  by (simp add: copy_len_def)

lemma go_slice_in [simp, go_simps]:
  "0 \<le> lo \<Longrightarrow> lo \<le> hi \<Longrightarrow> hi \<le> ilen xs \<Longrightarrow> go_slice xs lo hi = ret (seg xs lo hi)"
  by (simp add: go_slice_def)

lemma go_index_in [simp, go_simps]:
  "0 \<le> i \<Longrightarrow> i < ilen xs \<Longrightarrow> go_index xs i = ret (xs ! nat i)"
  by (simp add: go_index_def)

lemma go_store_in [simp, go_simps]:
  "0 \<le> i \<Longrightarrow> i < ilen xs \<Longrightarrow> go_store xs i v = ret (xs[nat i := v])"
  by (simp add: go_store_def)

lemma length_seg: "0 \<le> lo \<Longrightarrow> hi \<le> ilen xs \<Longrightarrow> length (seg xs lo hi) = nat (hi - lo)"
  by (auto simp: seg_def)

lemma seg_full [simp]: "seg xs 0 (ilen xs) = xs"
  by (simp add: seg_def)

lemma seg_empty [simp]: "hi \<le> lo \<Longrightarrow> seg xs lo hi = []"
  by (simp add: seg_def)

lemma seg_0: "seg xs 0 hi = take (nat hi) xs"
  by (simp add: seg_def)

lemma seg_to_end: "seg xs lo (ilen xs) = drop (nat lo) xs" if "0 \<le> lo"
  using that by (simp add: seg_def nat_diff_distrib')

lemma seg_nat: "seg xs (int m) (int n) = drop m (take n xs)"
  by (simp add: seg_def drop_take nat_minus_as_int)

lemma seg_append_seg:
  assumes "0 \<le> lo" "lo \<le> mid" "mid \<le> hi"
  shows "seg xs lo mid @ seg xs mid hi = seg xs lo hi"
proof -
  have "nat (hi - lo) = nat (mid - lo) + nat (hi - mid)"
    using assms by simp
  moreover have "nat mid = nat (mid - lo) + nat lo"
    using assms by simp
  ultimately show ?thesis
    unfolding seg_def by (simp add: take_add)
qed

lemma length_overwrite [simp]: "0 \<le> lo \<Longrightarrow> lo \<le> ilen xs \<Longrightarrow> length (overwrite xs lo ys) = length xs"
  by (auto simp: overwrite_def)

lemma overwrite_0_full: "length ys = length xs \<Longrightarrow> overwrite xs 0 ys = ys"
  by (simp add: overwrite_def)

lemma take_overwrite [simp]:
  "0 \<le> lo \<Longrightarrow> lo \<le> ilen xs \<Longrightarrow> take (nat lo) (overwrite xs lo ys) = take (nat lo) xs"
  by (simp add: overwrite_def)

lemma seg_overwrite_same:
  "0 \<le> lo \<Longrightarrow> lo + ilen ys \<le> ilen xs \<Longrightarrow> seg (overwrite xs lo ys) lo (lo + ilen ys) = ys"
  by (simp add: overwrite_def seg_def)

lemma seg_overwrite_prefix:
  assumes "0 \<le> lo" "lo + ilen ys \<le> ilen xs" "k \<le> length ys"
  shows "seg (overwrite xs lo ys) lo (lo + int k) = take k ys"
proof -
  have "nat lo \<le> length xs" "length ys \<le> length xs - nat lo" using assms by linarith+
  with assms(3) show ?thesis by (simp add: overwrite_def seg_def)
qed

lemma seg_overwrite_before:
  "0 \<le> a \<Longrightarrow> b \<le> lo \<Longrightarrow> 0 \<le> lo \<Longrightarrow> lo \<le> ilen xs \<Longrightarrow> seg (overwrite xs lo ys) a b = seg xs a b"
proof -
  assume "0 \<le> a" "b \<le> lo" "0 \<le> lo" "lo \<le> ilen xs"
  then have "seg zs a b = drop (nat a) (take (nat b) zs)" for zs :: "'a list"
    by (cases "a \<le> b") (simp_all add: seg_def drop_take nat_diff_distrib)
  moreover have "take (nat b) (overwrite xs lo ys) = take (nat b) (take (nat lo) xs)"
    using \<open>b \<le> lo\<close> \<open>lo \<le> ilen xs\<close> by (simp add: overwrite_def min_absorb1)
  ultimately show ?thesis
    using \<open>b \<le> lo\<close> by (simp add: min_absorb1)
qed

lemma take_overwrite_0:
  "k \<le> length ys \<Longrightarrow> k \<le> length xs \<Longrightarrow> take k (overwrite xs 0 ys) = take k ys"
  by (simp add: overwrite_def)

subsection \<open>Lists\<close>

lemma list_all2_snoc: "list_all2 P (xs @ [x]) (ys @ [y]) \<longleftrightarrow> list_all2 P xs ys \<and> P x y"
  by (auto simp: list_all2_conv_all_nth nth_append less_Suc_eq)

lemma list_all2_tl: "list_all2 P xs ys \<Longrightarrow> list_all2 P (tl xs) (tl ys)"
  by (cases xs; cases ys) auto

lemma rotate_Suc_nth: "p < length xs \<Longrightarrow> rotate (Suc p) xs = drop (Suc p) xs @ take p xs @ [xs ! p]"
proof -
  assume p: "p < length xs"
  then have "take (Suc p) xs = take p xs @ [xs ! p]" by (rule take_Suc_conv_app_nth)
  with p show ?thesis by (cases "Suc p = length xs") (simp_all add: rotate_drop_take)
qed

lemma length_concat_const: "\<forall>xs \<in> set xss. ilen xs = k \<Longrightarrow> ilen (concat xss) = ilen xss * k"
  by (induction xss) (simp_all add: algebra_simps)

subsection \<open>Strings\<close>

text \<open>A Go string is a sequence of bytes: \<^verbatim>\<open>[]byte(s)\<close> and \<^verbatim>\<open>string(b)\<close>.\<close>

definition str_bytes :: "string \<Rightarrow> bytes" where
  "str_bytes s = map (\<lambda>c. of_nat (of_char c)) s"

definition bytes_str :: "bytes \<Rightarrow> string" where
  "bytes_str b = map (\<lambda>x. char_of (unat x)) b"

lemma length_str_bytes [simp]: "length (str_bytes s) = length s" "length (bytes_str b) = length b"
  by (simp_all add: str_bytes_def bytes_str_def)

lemma str_bytes_str [simp]: "str_bytes (bytes_str b) = b"
proof -
  have "of_nat (of_char (char_of (unat x) :: char)) = x" for x :: byte
  proof -
    have "unat x < 256" using unsigned_less [of x, where ?'a = nat] by simp
    then have "(of_char (char_of (unat x) :: char) :: nat) = unat x" by simp
    then show ?thesis by simp
  qed
  then show ?thesis by (simp add: str_bytes_def bytes_str_def comp_def)
qed

subsection \<open>Step relations\<close>

text \<open>Every run of the step relation \<open>T\<close> from \<open>x\<close> comes to an end, and only in states with \<open>Q\<close>.\<close>

definition ends_in :: "('s \<Rightarrow> 's \<Rightarrow> bool) \<Rightarrow> 's \<Rightarrow> ('s \<Rightarrow> bool) \<Rightarrow> bool" where
  "ends_in T x Q \<longleftrightarrow> (\<nexists>f. f 0 = x \<and> (\<forall>i. T (f i) (f (Suc i)))) \<and> (\<forall>y. T\<^sup>*\<^sup>* x y \<longrightarrow> (\<exists>z. T y z) \<or> Q y)"

lemma ends_inI:
  assumes "wf R" "I x" "\<And>y z. I y \<Longrightarrow> T y z \<Longrightarrow> I z \<and> (z, y) \<in> R" "\<And>y. I y \<Longrightarrow> (\<exists>z. T y z) \<or> Q y"
  shows "ends_in T x Q"
proof -
  have run: "I (f i)" if "f 0 = x" "\<forall>i. T (f i) (f (Suc i))" for f and i :: nat
    by (induction i) (use that assms(2,3) in auto)
  have "\<nexists>f. f 0 = x \<and> (\<forall>i. T (f i) (f (Suc i)))"
  proof
    assume "\<exists>f. f 0 = x \<and> (\<forall>i. T (f i) (f (Suc i)))"
    then obtain f :: "nat \<Rightarrow> 'a" where "f 0 = x" "\<forall>i. T (f i) (f (Suc i))" by blast
    with run assms(3) have "(f (Suc i), f i) \<in> R" for i by blast
    with assms(1) show False unfolding wf_iff_no_infinite_down_chain by blast
  qed
  moreover have "I y" if "T\<^sup>*\<^sup>* x y" for y
    using that by (induction rule: rtranclp_induct) (use assms(2,3) in auto)
  ultimately show ?thesis using assms(4) unfolding ends_in_def by blast
qed

lemma ends_in_mono: "ends_in T x Q \<Longrightarrow> (\<And>y. Q y \<Longrightarrow> Q' y) \<Longrightarrow> ends_in T x Q'"
  unfolding ends_in_def by blast

end
