(* ===== verification/Go_IO.thy ===== *)
theory Go_IO
  imports Go_Prelude
begin

text \<open>
  The input/output interfaces the program is written against, and the parts of Go's standard library
  behind them that it uses: \<^verbatim>\<open>io.Reader\<close>, \<^verbatim>\<open>io.Writer\<close>, \<^verbatim>\<open>io.ReadFull\<close>, \<^verbatim>\<open>bytes.Buffer\<close> and a TCP
  \<^verbatim>\<open>net.Conn\<close>.

  A reader is a function over its own state: \<open>rd s p\<close> runs \<^verbatim>\<open>Read(p)\<close> with the current contents \<open>p\<close>
  of the destination slice and returns the count, the new contents of the slice (the bytes past the
  count are scratch space, as the interface allows), the error and the new state.

  Two contracts are locales.  \<open>stream_reader\<close> is a reader of a finite byte stream: \<open>content\<close> is what is
  still to come, \<open>fin\<close> the error reported at its end, and \<open>left\<close> bounds the number of reads that return
  without an error.  \<open>byte_sink\<close> is the \<^verbatim>\<open>io.Writer\<close> contract: what was reported written was appended
  to the output, and a short count comes with an error.
\<close>

type_synonym 's reader_fn = "'s \<Rightarrow> bytes \<Rightarrow> (int \<times> bytes \<times> goerr option \<times> 's) go"
type_synonym 'w writer_fn = "'w \<Rightarrow> bytes \<Rightarrow> (int \<times> goerr option \<times> 'w) go"

subsection \<open>\<open>io.ReadFull\<close>\<close>

text \<open>
  The loop of \<^verbatim>\<open>io.ReadAtLeast\<close>:
  \<^verbatim>\<open>for n < min && err == nil { nn, err = r.Read(buf[n:]); n += nn }\<close>.
\<close>

partial_function (option) ReadAtLeast_loop ::
  "'s reader_fn \<Rightarrow> 's \<Rightarrow> bytes \<Rightarrow> int \<Rightarrow> int \<Rightarrow> goerr option \<Rightarrow> (int \<times> bytes \<times> goerr option \<times> 's) go"
where
  "ReadAtLeast_loop rd s p mn n err =
     (if n < mn \<and> err = None then
        gobind (go_slice p n (ilen p)) (\<lambda>q.
        gobind (rd s q) (\<lambda>(nn, q', e, s').
        ReadAtLeast_loop rd s' (overwrite p n q') mn (n + nn) e))
      else ret (n, p, err, s))"

definition ReadFull :: "'s reader_fn \<Rightarrow> 's reader_fn" where
  "ReadFull rd s p =
     gobind (ReadAtLeast_loop rd s p (ilen p) 0 None) (\<lambda>(n, p', e, s').
       ret (n, p',
            (if ilen p \<le> n then None
             else if 0 < n \<and> e = Some EOF then Some ErrUnexpectedEOF else e), s'))"

text \<open>The error \<^verbatim>\<open>ReadFull\<close> gives when the stream ends with \<open>e\<close> after \<open>got\<close> bytes, too few of them.\<close>

definition short_read_err :: "nat \<Rightarrow> goerr \<Rightarrow> goerr" where
  "short_read_err got e = (if 0 < got \<and> e = EOF then ErrUnexpectedEOF else e)"

subsection \<open>\<open>bytes.Buffer\<close>, as \<open>bytes.NewBuffer(b)\<close> makes it\<close>

definition buffer_Read :: "bytes reader_fn" where
  "buffer_Read bs p =
     (if bs = [] then ret (0, p, (if p = [] then None else Some EOF), [])
      else let k = min (length p) (length bs)
           in ret (int k, overwrite p 0 (take k bs), None, drop k bs))"

subsection \<open>A TCP connection\<close>

text \<open>
  The peer and the network decide how the incoming bytes are cut into segments (\<open>c_in\<close>), what ends
  the incoming direction (\<open>c_fin\<close>), and how many bytes the outgoing direction still takes before it
  fails (\<open>c_room\<close>, no limit when it is \<open>None\<close>) with which error (\<open>c_werr\<close>).  \<open>c_out\<close> is what went out.
\<close>

record conn =
  c_in :: "bytes list"
  c_fin :: goerr
  c_out :: bytes
  c_room :: "nat option"
  c_werr :: goerr

definition conn_Read :: "conn reader_fn" where
  "conn_Read c p =
     (if p = [] then ret (0, p, None, c)
      else case c_in c of
        [] \<Rightarrow> ret (0, p, Some (c_fin c), c)
      | seg1 # segs \<Rightarrow>
          let k = min (length p) (length seg1)
          in ret (int k, overwrite p 0 (take k seg1), None,
                  c\<lparr>c_in := (if k < length seg1 then drop k seg1 # segs else segs)\<rparr>))"

definition conn_Write :: "conn writer_fn" where
  "conn_Write c b =
     (case c_room c of
        None \<Rightarrow> ret (ilen b, None, c\<lparr>c_out := c_out c @ b\<rparr>)
      | Some k \<Rightarrow>
          if length b \<le> k
          then ret (ilen b, None, c\<lparr>c_out := c_out c @ b, c_room := Some (k - length b)\<rparr>)
          else ret (int k, Some (c_werr c), c\<lparr>c_out := c_out c @ take k b, c_room := Some 0\<rparr>))"

definition conn_content :: "conn \<Rightarrow> bytes" where
  "conn_content c = concat (c_in c)"

definition conn_left :: "conn \<Rightarrow> nat" where
  "conn_left c = sum_list (map (\<lambda>s. Suc (length s)) (c_in c))"

subsection \<open>The reader contract\<close>

text \<open>
  One read of a byte stream: no more than asked for, the bytes are the next ones of the stream, an
  error is the final one and comes when nothing is left, and reads without an error make progress.
\<close>

definition read_step ::
  "('s \<Rightarrow> bytes) \<Rightarrow> ('s \<Rightarrow> goerr) \<Rightarrow> ('s \<Rightarrow> nat) \<Rightarrow> 's \<Rightarrow> bytes \<Rightarrow> nat \<Rightarrow> bytes \<Rightarrow> goerr option \<Rightarrow> 's \<Rightarrow> bool"
where
  "read_step content fin left s p k p' e s' \<longleftrightarrow>
     k \<le> length p \<and> length p' = length p \<and> content s = take k p' @ content s' \<and> fin s' = fin s \<and>
     left s' \<le> left s \<and> (e = None \<longrightarrow> left s' < left s) \<and>
     (\<forall>x. e = Some x \<longrightarrow> x = fin s \<and> content s' = [])"

text \<open>The state of the \<^verbatim>\<open>io.ReadFull\<close> loop after it moved from \<open>n\<close> to \<open>m\<close> bytes of the slice \<open>p\<close>.\<close>

definition filled ::
  "('s \<Rightarrow> bytes) \<Rightarrow> ('s \<Rightarrow> goerr) \<Rightarrow> ('s \<Rightarrow> nat) \<Rightarrow> 's \<Rightarrow> bytes \<Rightarrow> nat \<Rightarrow> nat \<Rightarrow> bytes \<Rightarrow> goerr option \<Rightarrow> 's \<Rightarrow> bool"
where
  "filled content fin left s p n m p' e s' \<longleftrightarrow>
     n \<le> m \<and> m \<le> length p \<and> length p' = length p \<and> take m p' = take n p @ take (m - n) (content s) \<and>
     content s' = drop (m - n) (content s) \<and> m - n \<le> length (content s) \<and> fin s' = fin s \<and>
     left s' \<le> left s \<and> (m < length p \<longrightarrow> e = Some (fin s) \<and> content s' = [])"

locale stream_reader =
  fixes rd :: "'s reader_fn"
    and content :: "'s \<Rightarrow> bytes"
    and fin :: "'s \<Rightarrow> goerr"
    and good :: "'s \<Rightarrow> bool"
    and left :: "'s \<Rightarrow> nat"
  assumes read_spec: "good s \<Longrightarrow> p \<noteq> [] \<Longrightarrow>
      \<exists>k p' e s'. rd s p = ret (int k, p', e, s') \<and> good s' \<and> read_step content fin left s p k p' e s'"
begin

lemma readE:
  assumes "good s" "p \<noteq> []"
  obtains k p' e s' where "rd s p = ret (int k, p', e, s')" "good s'"
    "k \<le> length p" "length p' = length p" "content s = take k p' @ content s'" "fin s' = fin s"
    "left s' \<le> left s" "e = None \<longrightarrow> left s' < left s"
    "\<forall>x. e = Some x \<longrightarrow> x = fin s \<and> content s' = []"
  using read_spec [OF assms] unfolding read_step_def by blast

text \<open>
  The loop of \<^verbatim>\<open>io.ReadFull\<close>, with \<open>n\<close> bytes read so far, fills the slice from the stream, or stops at
  the stream's end.
\<close>

lemma filled_step:
  assumes "n < length p" "read_step content fin left s (drop n p) k q' None s'"
    and "filled content fin left s' (overwrite p (int n) q') (n + k) m p' e s''"
  shows "filled content fin left s p n m p' e s''"
proof -
  from assms(2) have k: "k \<le> length p - n" "length q' = length p - n" and c: "content s = take k q' @ content s'"
    and f: "fin s' = fin s" "left s' \<le> left s"
    by (simp_all add: read_step_def)
  have tk: "take (n + k) (overwrite p (int n) q') = take n p @ take k q'"
    using assms(1) k by (simp add: overwrite_def min_def)
  have lc: "length (take k q') = k" using k by simp
  have lp: "length (overwrite p (int n) q') = length p" using assms(1) by simp
  note fl = assms(3) [unfolded filled_def lp tk]
  have mk: "m - n = k + (m - (n + k))" using fl by simp
  have "take (m - n) (content s) = take k q' @ take (m - (n + k)) (content s')"
    and "drop (m - n) (content s) = drop (m - (n + k)) (content s')"
    unfolding c mk using lc by simp_all
  with fl f lc c show ?thesis unfolding filled_def by auto
qed

lemma ReadAtLeast_loop_spec:
  assumes "good s" "n \<le> length p"
  shows "\<exists>m p' e s'. ReadAtLeast_loop rd s p (ilen p) (int n) None = ret (int m, p', e, s') \<and> good s' \<and>
           filled content fin left s p n m p' e s'"
  using assms
proof (induction "left s" arbitrary: s n p rule: less_induct)
  case less
  show ?case
  proof (cases "n < length p")
    case False
    with less.prems have "n = length p" by simp
    with less.prems show ?thesis
      by (intro exI [of _ n] exI [of _ p] exI [of _ None] exI [of _ s])
        (simp add: ReadAtLeast_loop.simps filled_def)
  next
    case True
    then have "drop n p \<noteq> []" by simp
    with less.prems(1) read_spec obtain k q' e s' where rd: "rd s (drop n p) = ret (int k, q', e, s')"
      and g: "good s'" and st: "read_step content fin left s (drop n p) k q' e s'"
      by blast
    let ?p = "overwrite p (int n) q'"
    have lp: "length ?p = length p" using True by simp
    have step: "ReadAtLeast_loop rd s p (ilen p) (int n) None =
        ReadAtLeast_loop rd s' ?p (ilen ?p) (int (n + k)) e"
      using True rd lp by (subst ReadAtLeast_loop.simps) (simp add: seg_to_end)
    show ?thesis
    proof (cases e)
      case None
      with st have dec: "left s' < left s" and nk: "n + k \<le> length ?p"
        using True lp by (auto simp: read_step_def)
      from less.hyps [OF dec g nk] show ?thesis
        unfolding step None using filled_step [OF True st [unfolded None]] by blast
    next
      case (Some x)
      then have "ReadAtLeast_loop rd s p (ilen p) (int n) None = ret (int (n + k), ?p, Some x, s')"
        unfolding step by (subst ReadAtLeast_loop.simps) simp
      moreover have "filled content fin left s p n (n + k) ?p (Some x) s'"
        using st True Some by (auto simp: read_step_def filled_def overwrite_def min_def)
      ultimately show ?thesis using g by blast
    qed
  qed
qed

lemma ReadFull_enough:
  assumes "good s" "length p \<le> length (content s)"
  shows "\<exists>s'. ReadFull rd s p = ret (ilen p, take (length p) (content s), None, s') \<and> good s' \<and>
           content s' = drop (length p) (content s) \<and> fin s' = fin s \<and> left s' \<le> left s"
proof -
  from ReadAtLeast_loop_spec [OF assms(1), of 0 p] obtain m p' e s' where
    l: "ReadAtLeast_loop rd s p (ilen p) 0 None = ret (int m, p', e, s')" and g: "good s'"
    and m: "m \<le> length p" "length p' = length p" "take m p' = take m (content s)"
      "content s' = drop m (content s)" "fin s' = fin s" "left s' \<le> left s"
      "m < length p \<longrightarrow> content s' = []"
    by (auto simp: filled_def)
  have "m = length p" using m(1,4,7) assms(2) by (cases "m < length p") auto
  with l g m show ?thesis by (auto simp: ReadFull_def)
qed

lemma ReadFull_short:
  assumes "good s" "length (content s) < length p"
  shows "\<exists>p' s'. ReadFull rd s p =
           ret (ilen (content s), p', Some (short_read_err (length (content s)) (fin s)), s') \<and>
           length p' = length p \<and> take (length (content s)) p' = content s \<and>
           good s' \<and> content s' = [] \<and> fin s' = fin s"
proof -
  from ReadAtLeast_loop_spec [OF assms(1), of 0 p] obtain m p' e s' where
    l: "ReadAtLeast_loop rd s p (ilen p) 0 None = ret (int m, p', e, s')" and g: "good s'"
    and m: "m \<le> length (content s)" "length p' = length p" "take m p' = take m (content s)"
      "content s' = drop m (content s)" "fin s' = fin s"
      "m < length p \<longrightarrow> e = Some (fin s) \<and> content s' = []"
    by (auto simp: filled_def)
  have "m = length (content s)" using m(1,4,6) assms(2) by auto
  with l g m assms(2) show ?thesis
    by (auto simp: ReadFull_def short_read_err_def)
qed

end

interpretation buffer: stream_reader buffer_Read "\<lambda>bs. bs" "\<lambda>_. EOF" "\<lambda>_. True" length
proof
  fix bs p :: bytes
  assume "p \<noteq> []"
  then show "\<exists>k p' e s'. buffer_Read bs p = ret (int k, p', e, s') \<and> True \<and>
      read_step (\<lambda>bs. bs) (\<lambda>_. EOF) length bs p k p' e s'"
    by (cases "bs = []")
      (auto simp: buffer_Read_def Let_def read_step_def take_overwrite_0)
qed

interpretation tcp: stream_reader conn_Read conn_content c_fin "\<lambda>_. True" conn_left
proof
  fix c and p :: bytes
  assume p: "p \<noteq> []"
  show "\<exists>k p' e s'. conn_Read c p = ret (int k, p', e, s') \<and> True \<and>
      read_step conn_content c_fin conn_left c p k p' e s'"
  proof (cases "c_in c")
    case Nil
    with p show ?thesis
      by (auto simp: conn_Read_def read_step_def conn_content_def)
  next
    case (Cons x xs)
    let ?k = "min (length p) (length x)"
    have "take ?k (overwrite p 0 (take ?k x)) = take ?k x"
      by (simp add: take_overwrite_0)
    moreover from p obtain y ys where "p = y # ys" by (cases p) auto
    ultimately show ?thesis using Cons
      by (auto simp: conn_Read_def Let_def read_step_def conn_content_def conn_left_def min_def)
  qed
qed

subsection \<open>The writer contract\<close>

text \<open>
  One \<^verbatim>\<open>Write\<close>: the reported prefix of \<open>b\<close>, and nothing else, was accepted, in order; a short count
  comes with an error.
\<close>

definition write_step :: "('w \<Rightarrow> bytes) \<Rightarrow> 'w \<Rightarrow> bytes \<Rightarrow> nat \<Rightarrow> goerr option \<Rightarrow> 'w \<Rightarrow> bool" where
  "write_step sent w b k e w' \<longleftrightarrow>
     k \<le> length b \<and> sent w' = sent w @ take k b \<and> (k < length b \<longrightarrow> e \<noteq> None)"

locale byte_sink =
  fixes wr :: "'w writer_fn"
    and sent :: "'w \<Rightarrow> bytes"
    and usable :: "'w \<Rightarrow> bool"
  assumes write_spec: "usable w \<Longrightarrow>
      \<exists>k e w'. wr w b = ret (int k, e, w') \<and> usable w' \<and> write_step sent w b k e w'"
begin

lemma write_without_error:
  assumes "usable w" "wr w b = ret (n, None, w')"
  shows "n = ilen b \<and> usable w' \<and> sent w' = sent w @ b"
  using write_spec [OF assms(1), of b] assms(2) by (auto simp: write_step_def)

end

interpretation tcp_out: byte_sink conn_Write c_out "\<lambda>_. True"
proof
  fix c b
  show "\<exists>k e w'. conn_Write c b = ret (int k, e, w') \<and> True \<and> write_step c_out c b k e w'"
    by (cases "c_room c") (auto simp: conn_Write_def write_step_def)
qed

subsection \<open>What every read keeps, \<^verbatim>\<open>io.ReadFull\<close> keeps\<close>

lemma some_ret: "m = Some (Val x) \<longleftrightarrow> m = ret x"
  by (simp add: ret_def)

lemma ReadAtLeast_inv:
  assumes step: "\<And>s p n p' e s'. I s \<Longrightarrow> rd s p = ret (n, p', e, s') \<Longrightarrow> I s'"
    and "ReadAtLeast_loop rd s p mn n err = ret (m, p', e, s')" "I s"
  shows "I s'"
proof -
  let ?P = "\<lambda>rd1 s p mn n err y. rd1 = rd \<longrightarrow> (\<forall>m p' e s'. y = Val (m, p', e, s') \<longrightarrow> I s \<longrightarrow> I s')"
  have "?P rd s p mn n err (Val (m, p', e, s'))"
  proof (rule ReadAtLeast_loop.raw_induct [where P = ?P])
    fix loop :: "'a reader_fn \<Rightarrow> 'a \<Rightarrow> bytes \<Rightarrow> int \<Rightarrow> int \<Rightarrow> goerr option \<Rightarrow> (int \<times> bytes \<times> goerr option \<times> 'a) go"
      and rd1 s p mn n err y
    assume IH: "\<And>rd1 s p mn n err y. loop rd1 s p mn n err = Some y \<Longrightarrow> ?P rd1 s p mn n err y"
      and body: "(if n < mn \<and> err = None
        then gobind (go_slice p n (ilen p)) (\<lambda>q. gobind (rd1 s q) (\<lambda>(nn, q', e, s'). loop rd1 s' (overwrite p n q') mn (n + nn) e))
        else ret (n, p, err, s)) = Some y"
    show "?P rd1 s p mn n err y"
      using body
      by (auto simp: some_ret gobind_eq_ret split: if_splits) (metis IH step ret_def)
  qed (use assms(2) in \<open>simp add: ret_def\<close>)
  with assms(3) show ?thesis by simp
qed

lemma ReadFull_inv:
  assumes "\<And>s p n p' e s'. I s \<Longrightarrow> rd s p = ret (n, p', e, s') \<Longrightarrow> I s'"
    and "ReadFull rd s p = ret (m, p', e, s')" "I s"
  shows "I s'"
proof -
  from assms(2) obtain n e1 where "ReadAtLeast_loop rd s p (ilen p) 0 None = ret (n, p', e1, s')"
    by (auto simp: ReadFull_def gobind_eq_ret)
  from ReadAtLeast_inv [of I, OF assms(1) this assms(3)] show ?thesis .
qed

end
