(* ===== verification/Net_Text.thy ===== *)
theory Net_Text
  imports Go_IO
begin

text \<open>
  The functions of Go's \<^verbatim>\<open>strconv\<close> and \<^verbatim>\<open>net\<close> packages that turn ports, IP addresses and host-port pairs
  into text and back: \<^verbatim>\<open>strconv.Itoa\<close>, \<^verbatim>\<open>strconv.ParseUint(s, 10, 16)\<close>, \<^verbatim>\<open>net.JoinHostPort\<close>,
  \<^verbatim>\<open>net.SplitHostPort\<close>, \<^verbatim>\<open>net.IP.String\<close>, \<^verbatim>\<open>net.IP.To4\<close> and \<^verbatim>\<open>net.ParseIP\<close> (which rejects leading zeros in
  dotted numbers, as Go does since 1.17).  A string is a list of characters, one per byte.
\<close>

subsection \<open>Decimal numbers\<close>

definition digit_char :: "nat \<Rightarrow> char" where
  "digit_char d = char_of (48 + d)"

definition is_digit :: "char \<Rightarrow> bool" where
  "is_digit c \<longleftrightarrow> 48 \<le> (of_char c :: nat) \<and> (of_char c :: nat) \<le> 57"

definition digit_val :: "char \<Rightarrow> nat" where
  "digit_val c = of_char c - 48"

fun Itoa :: "nat \<Rightarrow> string" where
  "Itoa n = (if n < 10 then [digit_char n] else Itoa (n div 10) @ [digit_char (n mod 10)])"

declare Itoa.simps [simp del]

text \<open>The decimal text of a signed integer.\<close>

definition int_text :: "int \<Rightarrow> string" where
  "int_text n = (if n < 0 then CHR ''-'' # Itoa (nat (- n)) else Itoa (nat n))"

text \<open>\<^verbatim>\<open>strconv.ParseUint(s, 10, 16)\<close>: the value, or \<open>None\<close> for a syntax or a range error.\<close>

fun ParseUint16_loop :: "nat \<Rightarrow> string \<Rightarrow> nat option" where
  "ParseUint16_loop n [] = Some n"
| "ParseUint16_loop n (c # cs) =
     (if \<not> is_digit c then None
      else let n1 = n * 10 + digit_val c in if 65535 < n1 then None else ParseUint16_loop n1 cs)"

definition ParseUint16 :: "string \<Rightarrow> nat option" where
  "ParseUint16 s = (if s = [] then None else ParseUint16_loop 0 s)"

subsection \<open>Host and port\<close>

definition JoinHostPort :: "string \<Rightarrow> string \<Rightarrow> string" where
  "JoinHostPort host port =
     (if CHR '':'' \<in> set host then ''['' @ host @ '']:'' @ port else host @ '':'' @ port)"

fun index_of :: "char \<Rightarrow> string \<Rightarrow> nat option" where
  "index_of c [] = None"
| "index_of c (x # xs) = (if x = c then Some 0 else map_option Suc (index_of c xs))"

fun last_index :: "char \<Rightarrow> string \<Rightarrow> nat option" where
  "last_index c [] = None"
| "last_index c (x # xs) =
     (case last_index c xs of Some i \<Rightarrow> Some (Suc i) | None \<Rightarrow> if x = c then Some 0 else None)"

text \<open>\<open>None\<close> stands for the \<^verbatim>\<open>AddrError\<close> that \<^verbatim>\<open>SplitHostPort\<close> returns.\<close>

definition SplitHostPort :: "string \<Rightarrow> (string \<times> string) option" where
  "SplitHostPort hp =
     (case last_index CHR '':'' hp of
        None \<Rightarrow> None
      | Some i \<Rightarrow>
          Option.bind
            (if hp ! 0 = CHR ''['' then
               (case index_of CHR '']'' hp of
                  None \<Rightarrow> None
                | Some en \<Rightarrow> if en + 1 = i then Some (take (en - 1) (drop 1 hp), 1, en + 1) else None)
             else if CHR '':'' \<in> set (take i hp) then None
             else Some (take i hp, 0, 0))
            (\<lambda>(host, j, k).
               if CHR ''['' \<in> set (drop j hp) then None
               else if CHR '']'' \<in> set (drop k hp) then None
               else Some (host, drop (i + 1) hp)))"

subsection \<open>IP addresses\<close>

definition v4InV6Prefix :: bytes where
  "v4InV6Prefix = replicate 10 0 @ [0xff, 0xff]"

definition IPv4 :: "byte \<Rightarrow> byte \<Rightarrow> byte \<Rightarrow> byte \<Rightarrow> bytes" where
  "IPv4 a b c d = v4InV6Prefix @ [a, b, c, d]"

definition To4 :: "bytes \<Rightarrow> bytes option" where
  "To4 ip =
     (if length ip = 4 then Some ip
      else if length ip = 16 \<and> take 12 ip = v4InV6Prefix then Some (drop 12 ip)
      else None)"

definition dotted :: "bytes \<Rightarrow> string" where
  "dotted p = Itoa (unat (p ! 0)) @ ''.'' @ Itoa (unat (p ! 1)) @ ''.'' @ Itoa (unat (p ! 2)) @ ''.'' @ Itoa (unat (p ! 3))"

text \<open>The sixteen-bit groups of a 16-byte address, and the first longest run of zero groups.\<close>

definition group :: "byte \<Rightarrow> byte \<Rightarrow> nat" where
  "group hi lo = unat hi * 256 + unat lo"

fun groups :: "bytes \<Rightarrow> nat list" where
  "groups (hi # lo # bs) = group hi lo # groups bs"
| "groups _ = []"

text \<open>
  The search \<^verbatim>\<open>for i := 0; i < 16; i += 2\<close> of \<^verbatim>\<open>IP.String\<close>, with positions counted in groups: a run that
  starts at \<open>i\<close> is kept when it is longer than the one found so far, and the search goes on two groups
  after its end.
\<close>

definition zero_run :: "nat list \<Rightarrow> nat" where
  "zero_run gs = length (takeWhile (\<lambda>g. g = 0) gs)"

function longest_run :: "nat list \<Rightarrow> nat \<Rightarrow> nat \<times> nat \<Rightarrow> nat \<times> nat" where
  "longest_run gs i (e0, e1) =
     (if i < length gs then
        let j = i + zero_run (drop i gs) in
        if i < j \<and> e1 - e0 < j - i then longest_run gs (j + 1) (i, j)
        else longest_run gs (i + 1) (e0, e1)
      else (e0, e1))"
  by pat_completeness auto
termination by (relation "measure (\<lambda>(gs, i, _). length gs - i)") auto

declare longest_run.simps [simp del]

definition hex_char :: "nat \<Rightarrow> char" where
  "hex_char d = (if d < 10 then char_of (48 + d) else char_of (87 + d))"

fun hex :: "nat \<Rightarrow> string" where
  "hex n = (if n < 16 then [hex_char n] else hex (n div 16) @ [hex_char (n mod 16)])"

declare hex.simps [simp del]

fun join_groups :: "nat list \<Rightarrow> string" where
  "join_groups [] = []"
| "join_groups [g] = hex g"
| "join_groups (g # gs) = hex g @ '':'' @ join_groups gs"

definition ipv6_text :: "nat list \<Rightarrow> string" where
  "ipv6_text gs =
     (case longest_run gs 0 (0, 0) of (e0, e1) \<Rightarrow>
        if e1 - e0 \<le> 1 then join_groups gs
        else join_groups (take e0 gs) @ ''::'' @ join_groups (drop e1 gs))"

text \<open>For the lengths the program uses, 4 and 16 bytes.  (\<^verbatim>\<open>IP.String\<close> of other lengths does not occur.)\<close>

definition IP_String :: "bytes \<Rightarrow> string" where
  "IP_String ip =
     (case To4 ip of Some p4 \<Rightarrow> dotted p4 | None \<Rightarrow> ipv6_text (groups ip))"

subsection \<open>Parsing IP addresses\<close>

text \<open>
  \<^verbatim>\<open>dtoi\<close> and \<^verbatim>\<open>xtoi\<close>: the number at the front of a string and the rest; no number, or one of \<^verbatim>\<open>0xFFFFFF\<close> and
  more, is a failure.
\<close>

definition big :: nat where
  "big = 0xFFFFFF"

fun dtoi_loop :: "nat \<Rightarrow> string \<Rightarrow> (nat \<times> string) option" where
  "dtoi_loop n [] = Some (n, [])"
| "dtoi_loop n (c # cs) =
     (if is_digit c then
        let n1 = n * 10 + digit_val c in if big \<le> n1 then None else dtoi_loop n1 cs
      else Some (n, c # cs))"

definition dtoi :: "string \<Rightarrow> (nat \<times> string) option" where
  "dtoi s = (case s of [] \<Rightarrow> None | c # _ \<Rightarrow> if is_digit c then dtoi_loop 0 s else None)"

definition hex_val :: "char \<Rightarrow> nat option" where
  "hex_val c =
     (let n = (of_char c :: nat) in
      if 48 \<le> n \<and> n \<le> 57 then Some (n - 48)
      else if 97 \<le> n \<and> n \<le> 102 then Some (n - 97 + 10)
      else if 65 \<le> n \<and> n \<le> 70 then Some (n - 65 + 10)
      else None)"

fun xtoi_loop :: "nat \<Rightarrow> string \<Rightarrow> (nat \<times> string) option" where
  "xtoi_loop n [] = Some (n, [])"
| "xtoi_loop n (c # cs) =
     (case hex_val c of
        Some d \<Rightarrow> let n1 = n * 16 + d in if big \<le> n1 then None else xtoi_loop n1 cs
      | None \<Rightarrow> Some (n, c # cs))"

definition xtoi :: "string \<Rightarrow> (nat \<times> string) option" where
  "xtoi s = (case s of [] \<Rightarrow> None | c # _ \<Rightarrow> if hex_val c = None then None else xtoi_loop 0 s)"

text \<open>One number of a dotted quad: at most 255, and no leading zero.\<close>

definition octet :: "string \<Rightarrow> (byte \<times> string) option" where
  "octet s =
     Option.bind (dtoi s) (\<lambda>(n, rest).
       if 0xFF < n \<or> (1 < length s - length rest \<and> s ! 0 = CHR ''0'') then None else Some (of_nat n, rest))"

definition dot :: "string \<Rightarrow> string option" where
  "dot s = (case s of c # rest \<Rightarrow> if c = CHR ''.'' then Some rest else None | [] \<Rightarrow> None)"

definition parseIPv4 :: "string \<Rightarrow> bytes option" where
  "parseIPv4 s =
     Option.bind (octet s) (\<lambda>(a, s). Option.bind (dot s) (\<lambda>s.
     Option.bind (octet s) (\<lambda>(b, s). Option.bind (dot s) (\<lambda>s.
     Option.bind (octet s) (\<lambda>(c, s). Option.bind (dot s) (\<lambda>s.
     Option.bind (octet s) (\<lambda>(d, s). if s = [] then Some (IPv4 a b c d) else None)))))))"

text \<open>
  The loop of \<^verbatim>\<open>parseIPv6\<close>.  \<open>acc\<close> holds the bytes written so far and \<open>ell\<close> where the ellipsis stood; the
  result is the two of them and the text that was not used.
\<close>

definition word_bytes :: "nat \<Rightarrow> bytes" where
  "word_bytes n = [of_nat (n div 256), of_nat n]"

lemma xtoi_loop_shorter: "xtoi_loop n s = Some (m, rest) \<Longrightarrow> length rest \<le> length s"
  by (induction s arbitrary: n) (auto simp: Let_def le_SucI split: option.splits if_splits)

lemma xtoi_shorter: "xtoi s = Some (m, rest) \<Longrightarrow> length rest < length s"
  by (auto simp: xtoi_def Let_def split: list.splits if_splits option.splits dest!: xtoi_loop_shorter)

function parseIPv6_loop :: "bytes \<Rightarrow> nat option \<Rightarrow> string \<Rightarrow> (bytes \<times> nat option \<times> string) option" where
  "parseIPv6_loop acc ell s =
     (if 16 \<le> length acc then Some (acc, ell, s)
      else
        (case xtoi s of
           None \<Rightarrow> None
         | Some (n, rest) \<Rightarrow>
             if 0xFFFF < n then None
             else if rest \<noteq> [] \<and> rest ! 0 = CHR ''.'' then
               (if ell = None \<and> length acc \<noteq> 12 then None
                else if 16 < length acc + 4 then None
                else case parseIPv4 s of None \<Rightarrow> None | Some ip4 \<Rightarrow> Some (acc @ drop 12 ip4, ell, []))
             else
               let acc = acc @ word_bytes n in
               (case rest of
                  [] \<Rightarrow> Some (acc, ell, [])
                | c # cs \<Rightarrow>
                    if c \<noteq> CHR '':'' \<or> cs = [] then None
                    else if cs ! 0 = CHR '':'' then
                      (if ell \<noteq> None then None
                       else if tl cs = [] then Some (acc, Some (length acc), [])
                       else parseIPv6_loop acc (Some (length acc)) (tl cs))
                    else parseIPv6_loop acc ell cs)))"
  by pat_completeness auto
termination
  by (relation "measure (\<lambda>(_, _, s). length s)") (auto dest!: xtoi_shorter)

declare parseIPv6_loop.simps [simp del]

definition parseIPv6 :: "string \<Rightarrow> bytes option" where
  "parseIPv6 s =
     (let lead = (2 \<le> length s \<and> s ! 0 = CHR '':'' \<and> s ! 1 = CHR '':''); s' = (if lead then drop 2 s else s);
          ell = (if lead then Some 0 else None) in
      if lead \<and> s' = [] then Some (replicate 16 0)
      else
        Option.bind (parseIPv6_loop [] ell s') (\<lambda>(acc, ell, rest).
        if rest \<noteq> [] then None
        else if length acc < 16 then
          (case ell of
             None \<Rightarrow> None
           | Some e \<Rightarrow> Some (take e acc @ replicate (16 - length acc) 0 @ drop e acc))
        else if ell \<noteq> None then None
        else Some acc))"

fun ParseIP_scan :: "string \<Rightarrow> string \<Rightarrow> bytes option" where
  "ParseIP_scan s [] = None"
| "ParseIP_scan s (c # cs) =
     (if c = CHR ''.'' then parseIPv4 s else if c = CHR '':'' then parseIPv6 s else ParseIP_scan s cs)"

definition ParseIP :: "string \<Rightarrow> bytes option" where
  "ParseIP s = ParseIP_scan s s"

subsection \<open>Decimal text and its value\<close>

definition dval :: "nat \<Rightarrow> string \<Rightarrow> nat" where
  "dval m s = foldl (\<lambda>n c. n * 10 + digit_val c) m s"

lemma dval_simps [simp]: "dval m [] = m" "dval m (c # cs) = dval (m * 10 + digit_val c) cs"
  "dval m (s @ t) = dval (dval m s) t"
  by (simp_all add: dval_def)

lemma dval_ge: "m \<le> dval m s"
proof (induction s arbitrary: m)
  case (Cons c s)
  have "m \<le> m * 10 + digit_val c" by simp
  also have "\<dots> \<le> dval m (c # s)" using Cons by simp
  finally show ?case .
qed simp

lemma of_char_digit: "d < 10 \<Longrightarrow> (of_char (digit_char d) :: nat) = 48 + d"
  by (simp add: digit_char_def)

lemma digit_char_simps [simp]: "d < 10 \<Longrightarrow> is_digit (digit_char d)" "d < 10 \<Longrightarrow> digit_val (digit_char d) = d"
  by (simp_all add: is_digit_def digit_val_def of_char_digit)

lemma Itoa_digits: "list_all is_digit (Itoa n)"
  by (induction n rule: Itoa.induct) (subst Itoa.simps, simp)

lemma Itoa_nonempty [simp]: "Itoa n \<noteq> []"
  by (subst Itoa.simps) simp

lemma dval_Itoa: "dval 0 (Itoa n) = n"
  by (induction n rule: Itoa.induct) (subst Itoa.simps, simp)

lemma ParseUint16_loop_digits:
  "list_all is_digit ds \<Longrightarrow> dval m ds \<le> 65535 \<Longrightarrow> ParseUint16_loop m ds = Some (dval m ds)"
proof (induction ds arbitrary: m)
  case (Cons c ds)
  then show ?case using dval_ge [of "m * 10 + digit_val c" ds] by (simp add: Let_def)
qed simp

lemma ParseUint16_Itoa: "n \<le> 65535 \<Longrightarrow> ParseUint16 (Itoa n) = Some n"
  using ParseUint16_loop_digits [of "Itoa n" 0] by (simp add: ParseUint16_def Itoa_digits dval_Itoa)

lemma ParseUint16_bound: "ParseUint16 s = Some n \<Longrightarrow> n \<le> 65535"
proof -
  have "ParseUint16_loop m s = Some n \<Longrightarrow> m \<le> 65535 \<Longrightarrow> n \<le> 65535" for m
    by (induction s arbitrary: m) (auto simp: Let_def split: if_splits)
  then show "ParseUint16 s = Some n \<Longrightarrow> n \<le> 65535" by (auto simp: ParseUint16_def split: if_splits)
qed

lemma dtoi_loop_digits:
  "list_all is_digit ds \<Longrightarrow> dval m ds < big \<Longrightarrow> dtoi_loop m (ds @ rest) = dtoi_loop (dval m ds) rest"
proof (induction ds arbitrary: m)
  case (Cons c ds)
  then show ?case using dval_ge [of "m * 10 + digit_val c" ds] by (simp add: Let_def)
qed simp

definition no_digit_next :: "string \<Rightarrow> bool" where
  "no_digit_next s \<longleftrightarrow> (case s of [] \<Rightarrow> True | c # _ \<Rightarrow> \<not> is_digit c)"

lemma dtoi_Itoa:
  assumes "n < big" "no_digit_next rest"
  shows "dtoi (Itoa n @ rest) = Some (n, rest)"
proof -
  have "dtoi_loop n rest = Some (n, rest)" using assms(2) by (cases rest) (simp_all add: no_digit_next_def)
  then have "dtoi_loop 0 (Itoa n @ rest) = Some (n, rest)"
    using dtoi_loop_digits [OF Itoa_digits, of 0 n rest] assms(1) by (simp add: dval_Itoa)
  moreover obtain c cs where "Itoa n = c # cs" by (cases "Itoa n") auto
  moreover from this have "is_digit c" using Itoa_digits [of n] by simp
  ultimately show ?thesis by (simp add: dtoi_def)
qed

text \<open>The leading digit of a number of more than one digit is not zero.\<close>

lemma Itoa_leading: "10 \<le> n \<Longrightarrow> Itoa n ! 0 \<noteq> CHR ''0''"
proof (induction n rule: Itoa.induct)
  case (1 n)
  have zero: "digit_char d = CHR ''0'' \<Longrightarrow> d < 10 \<Longrightarrow> d = 0" for d
    using of_char_digit [of d] by simp
  show ?case
  proof (cases "n div 10 < 10")
    case True
    then have "Itoa n = [digit_char (n div 10), digit_char (n mod 10)]"
      using "1.prems" by (subst Itoa.simps, subst Itoa.simps) simp
    with zero [of "n div 10"] True "1.prems" show ?thesis by auto
  next
    case False
    then have "Itoa (n div 10) ! 0 \<noteq> CHR ''0''" using "1.prems" by (intro "1.IH") auto
    moreover have "Itoa n = Itoa (n div 10) @ [digit_char (n mod 10)]"
      using "1.prems" by (subst Itoa.simps) simp
    ultimately show ?thesis by (simp add: nth_append)
  qed
qed

lemma octet_Itoa:
  assumes "n \<le> 255" "no_digit_next rest"
  shows "octet (Itoa n @ rest) = Some (of_nat n, rest)"
proof -
  have "dtoi (Itoa n @ rest) = Some (n, rest)" using assms by (intro dtoi_Itoa) (simp_all add: big_def)
  moreover have "length (Itoa n) = 1 \<or> (Itoa n @ rest) ! 0 \<noteq> CHR ''0''"
  proof (cases "n < 10")
    case True
    then show ?thesis by (subst Itoa.simps) simp
  next
    case False
    with Itoa_leading [of n] show ?thesis by (simp add: nth_append)
  qed
  ultimately show ?thesis using assms by (auto simp: octet_def)
qed

lemma not_digit: "\<not> is_digit CHR ''.''" "\<not> is_digit CHR '':''" "\<not> is_digit CHR ''[''" "\<not> is_digit CHR '']''"
  by (simp_all add: is_digit_def)

lemma parseIPv4_dotted: "parseIPv4 (dotted [a, b, c, d]) = Some (IPv4 a b c d)"
proof -
  have le: "unat x \<le> 255" for x :: byte using unsigned_less [of x, where ?'a = nat] by simp
  have oct: "octet (Itoa (unat x) @ CHR ''.'' # rest) = Some (x, CHR ''.'' # rest)" for x :: byte and rest
    using octet_Itoa [OF le [of x], of "CHR ''.'' # rest"] by (simp add: no_digit_next_def not_digit)
  have last: "octet (Itoa (unat x)) = Some (x, [])" for x :: byte
    using octet_Itoa [OF le [of x], of "[]"] by (simp add: no_digit_next_def)
  show ?thesis by (simp add: parseIPv4_def dotted_def dot_def oct last)
qed

subsection \<open>Hexadecimal text and its value\<close>

definition xval :: "nat \<Rightarrow> string \<Rightarrow> nat" where
  "xval m s = foldl (\<lambda>n c. n * 16 + the (hex_val c)) m s"

lemma xval_simps [simp]: "xval m [] = m" "xval m (c # cs) = xval (m * 16 + the (hex_val c)) cs"
  "xval m (s @ t) = xval (xval m s) t"
  by (simp_all add: xval_def)

lemma xval_ge: "m \<le> xval m s"
proof (induction s arbitrary: m)
  case (Cons c s)
  have "m \<le> m * 16 + the (hex_val c)" by simp
  also have "\<dots> \<le> xval m (c # s)" using Cons by simp
  finally show ?case .
qed simp

lemma hex_val_char [simp]: "d < 16 \<Longrightarrow> hex_val (hex_char d) = Some d"
  by (auto simp: hex_val_def hex_char_def Let_def)

lemma hex_digits: "list_all (\<lambda>c. hex_val c \<noteq> None) (hex n)"
  by (induction n rule: hex.induct) (subst hex.simps, simp)

lemma hex_nonempty [simp]: "hex n \<noteq> []"
  by (subst hex.simps) simp

lemma xval_hex: "xval 0 (hex n) = n"
  by (induction n rule: hex.induct) (subst hex.simps, simp)

lemma xtoi_loop_digits:
  "list_all (\<lambda>c. hex_val c \<noteq> None) ds \<Longrightarrow> xval m ds < big \<Longrightarrow> xtoi_loop m (ds @ rest) = xtoi_loop (xval m ds) rest"
proof (induction ds arbitrary: m)
  case (Cons c ds)
  then show ?case using xval_ge [of "m * 16 + the (hex_val c)" ds] by (auto simp: Let_def)
qed simp

definition no_hex_next :: "string \<Rightarrow> bool" where
  "no_hex_next s \<longleftrightarrow> (case s of [] \<Rightarrow> True | c # _ \<Rightarrow> hex_val c = None)"

lemma xtoi_hex:
  assumes "n < big" "no_hex_next rest"
  shows "xtoi (hex n @ rest) = Some (n, rest)"
proof -
  have "xtoi_loop n rest = Some (n, rest)" using assms(2) by (cases rest) (simp_all add: no_hex_next_def)
  then have "xtoi_loop 0 (hex n @ rest) = Some (n, rest)"
    using xtoi_loop_digits [OF hex_digits, of 0 n rest] assms(1) by (simp add: xval_hex)
  moreover obtain c cs where "hex n = c # cs" by (cases "hex n") auto
  moreover from this have "hex_val c \<noteq> None" using hex_digits [of n] by simp
  ultimately show ?thesis by (simp add: xtoi_def)
qed

lemma not_hex [simp]: "hex_val CHR '':'' = None" "hex_val CHR ''.'' = None"
  by (simp_all add: hex_val_def)

subsection \<open>Host and port, there and back\<close>

lemma last_index_append: "c \<notin> set ys \<Longrightarrow> last_index c (xs @ c # ys) = Some (length xs)"
proof (induction xs)
  case Nil
  have "c \<notin> set ys \<Longrightarrow> last_index c ys = None" by (induction ys) auto
  with Nil show ?case by simp
qed simp

lemma index_of_append: "c \<notin> set xs \<Longrightarrow> index_of c (xs @ c # ys) = Some (length xs)"
  by (induction xs) auto

lemma Split_Join:
  assumes "CHR ''['' \<notin> set host" "CHR '']'' \<notin> set host"
    and "CHR '':'' \<notin> set port" "CHR ''['' \<notin> set port" "CHR '']'' \<notin> set port"
  shows "SplitHostPort (JoinHostPort host port) = Some (host, port)"
proof (cases "CHR '':'' \<in> set host")
  case True
  let ?hp = "''['' @ host @ '']:'' @ port"
  have "last_index CHR '':'' ?hp = Some (length host + 2)"
    using last_index_append [OF assms(3), of "''['' @ host @ '']''"] by simp
  moreover have "index_of CHR '']'' ?hp = Some (length host + 1)"
    using index_of_append [of "CHR '']''" "''['' @ host" "'':'' @ port"] assms(2) by simp
  ultimately show ?thesis using True assms by (simp add: JoinHostPort_def SplitHostPort_def)
next
  case False
  have "last_index CHR '':'' (host @ '':'' @ port) = Some (length host)"
    using last_index_append [OF assms(3), of host] by simp
  moreover have "(host @ '':'' @ port) ! 0 \<noteq> CHR ''[''" using assms(1) by (cases host) auto
  ultimately show ?thesis using False assms by (simp add: JoinHostPort_def SplitHostPort_def)
qed

lemma digits_no_sep:
  assumes "list_all is_digit s"
  shows "CHR '':'' \<notin> set s" "CHR ''['' \<notin> set s" "CHR '']'' \<notin> set s"
  using assms not_digit by (auto simp: list_all_iff)

lemmas Itoa_no_sep [simp] = digits_no_sep [OF Itoa_digits]

subsection \<open>IPv6 text, there and back\<close>

abbreviation flat :: "nat list \<Rightarrow> bytes" where
  "flat gs \<equiv> concat (map word_bytes gs)"

lemma length_word_bytes [simp]: "length (word_bytes g) = 2"
  by (simp add: word_bytes_def)

lemma length_flat [simp]: "length (flat gs) = 2 * length gs"
  by (induction gs) simp_all

definition small :: "nat list \<Rightarrow> bool" where
  "small gs \<longleftrightarrow> list_all (\<lambda>g. g \<le> 0xFFFF) gs"

lemma small_simps [simp]: "small []" "small (g # gs) \<longleftrightarrow> g \<le> 0xFFFF \<and> small gs"
  "small (gs @ hs) \<longleftrightarrow> small gs \<and> small hs"
  by (simp_all add: small_def)

lemma hex_first: "\<exists>c cs. hex n = c # cs \<and> c \<noteq> CHR '':''"
proof -
  obtain c cs where h: "hex n = c # cs" by (cases "hex n") auto
  then have "hex_val c \<noteq> None" using hex_digits [of n] by simp
  then have "c \<noteq> CHR '':''" by auto
  with h show ?thesis by blast
qed

lemma join_groups_first: "gs \<noteq> [] \<Longrightarrow> \<exists>c cs. join_groups gs = c # cs \<and> c \<noteq> CHR '':''"
  using hex_first [of "hd gs"] by (cases gs rule: join_groups.cases) auto

lemma loop_last:
  assumes "g \<le> 0xFFFF" "length acc < 16"
  shows "parseIPv6_loop acc ell (hex g) = Some (acc @ word_bytes g, ell, [])"
  using xtoi_hex [of g "[]"] assms
  by (subst parseIPv6_loop.simps) (simp add: no_hex_next_def big_def)

lemma loop_colon:
  assumes "g \<le> 0xFFFF" "length acc < 16" "c \<noteq> CHR '':''"
  shows "parseIPv6_loop acc ell (hex g @ CHR '':'' # c # cs) = parseIPv6_loop (acc @ word_bytes g) ell (c # cs)"
  using xtoi_hex [of g "CHR '':'' # c # cs"] assms
  by (subst parseIPv6_loop.simps) (simp add: no_hex_next_def big_def)

lemma loop_ellipsis:
  assumes "g \<le> 0xFFFF" "length acc < 16"
  shows "parseIPv6_loop acc None (hex g @ CHR '':'' # CHR '':'' # cs) =
    (if cs = [] then Some (acc @ word_bytes g, Some (length acc + 2), [])
     else parseIPv6_loop (acc @ word_bytes g) (Some (length acc + 2)) cs)"
  using xtoi_hex [of g "CHR '':'' # CHR '':'' # cs"] assms
  by (subst parseIPv6_loop.simps) (simp add: no_hex_next_def big_def word_bytes_def)

lemma loop_groups:
  "gs \<noteq> [] \<Longrightarrow> small gs \<Longrightarrow> length acc + 2 * length gs \<le> 16 \<Longrightarrow>
   parseIPv6_loop acc ell (join_groups gs) = Some (acc @ flat gs, ell, [])"
proof (induction gs arbitrary: acc rule: join_groups.induct)
  case (2 g)
  then show ?case by (simp add: loop_last)
next
  case (3 g h gs)
  from join_groups_first [of "h # gs"] obtain c cs where c: "join_groups (h # gs) = c # cs" "c \<noteq> CHR '':''"
    by auto
  with 3 show ?case using loop_colon [of g acc c ell cs] by simp
qed simp

lemma loop_two:
  "gs \<noteq> [] \<Longrightarrow> small gs \<Longrightarrow> small hs \<Longrightarrow> length acc + 2 * length gs + 2 * length hs \<le> 16 \<Longrightarrow>
   parseIPv6_loop acc None (join_groups gs @ ''::'' @ join_groups hs) =
     Some (acc @ flat gs @ flat hs, Some (length acc + 2 * length gs), [])"
proof (induction gs arbitrary: acc rule: join_groups.induct)
  case (2 g)
  show ?case
  proof (cases "hs = []")
    case True
    with 2 show ?thesis using loop_ellipsis [of g acc "[]"] by simp
  next
    case False
    then have "join_groups hs \<noteq> []" using join_groups_first by fastforce
    with 2 False show ?thesis
      using loop_ellipsis [of g acc "join_groups hs"] loop_groups [of hs "acc @ word_bytes g" "Some (length acc + 2)"]
      by simp
  qed
next
  case (3 g h gs)
  from join_groups_first [of "h # gs"] obtain c cs where c: "join_groups (h # gs) = c # cs" "c \<noteq> CHR '':''"
    by auto
  with 3 show ?case
    using loop_colon [of g acc c None "cs @ ''::'' @ join_groups hs"] by simp
qed simp

lemma parseIPv6_no_lead:
  assumes "s = c # cs" "c \<noteq> CHR '':''" "parseIPv6_loop [] None s = Some (acc, ell, [])"
  shows "parseIPv6 s =
    (if length acc < 16 then map_option (\<lambda>e. take e acc @ replicate (16 - length acc) 0 @ drop e acc) ell
     else if ell \<noteq> None then None else Some acc)"
proof -
  have "\<not> (2 \<le> length s \<and> s ! 0 = CHR '':'' \<and> s ! 1 = CHR '':'')" using assms(1,2) by simp
  with assms(3) show ?thesis
    unfolding parseIPv6_def Let_def by (simp only: if_False simp_thms) (simp split: option.split)
qed

lemma parse_groups:
  assumes "small gs" "length gs = 8"
  shows "parseIPv6 (join_groups gs) = Some (flat gs)"
proof -
  have "gs \<noteq> []" using assms(2) by auto
  from join_groups_first [OF this] obtain c cs where "join_groups gs = c # cs" "c \<noteq> CHR '':''" by auto
  from parseIPv6_no_lead [OF this loop_groups [OF \<open>gs \<noteq> []\<close> assms(1), of "[]" None]] assms(2) show ?thesis
    by simp
qed

lemma parse_ellipsis:
  assumes "small gs" "small hs" "length gs + length hs < 8"
  shows "parseIPv6 (join_groups gs @ ''::'' @ join_groups hs) =
    Some (flat gs @ replicate (2 * (8 - length gs - length hs)) 0 @ flat hs)"
proof (cases "gs = []")
  case True
  show ?thesis
  proof (cases "hs = []")
    case True
    with \<open>gs = []\<close> show ?thesis by (simp add: parseIPv6_def)
  next
    case False
    then obtain c cs where "join_groups hs = c # cs" using join_groups_first by blast
    moreover have "16 - 2 * length hs = 2 * (8 - length hs)" by simp
    ultimately show ?thesis using \<open>gs = []\<close> False loop_groups [OF False assms(2), of "[]" "Some 0"] assms(3)
      by (simp add: parseIPv6_def)
  qed
next
  case False
  from join_groups_first [OF False] obtain c cs where "join_groups gs = c # cs" and c: "c \<noteq> CHR '':''" by auto
  then have "join_groups gs @ ''::'' @ join_groups hs = c # cs @ ''::'' @ join_groups hs" by simp
  from parseIPv6_no_lead [OF this c loop_two [OF False assms(1,2), of "[]"]] assms(3)
  have "parseIPv6 (join_groups gs @ ''::'' @ join_groups hs) =
      Some (flat gs @ replicate (16 - (2 * length gs + 2 * length hs)) 0 @ flat hs)"
    by simp
  moreover have "16 - (2 * length gs + 2 * length hs) = 2 * (8 - length gs - length hs)" by simp
  ultimately show ?thesis by (simp only:)
qed

lemma zero_run_zeros: "take (zero_run gs) gs = replicate (zero_run gs) 0"
  by (induction gs) (simp_all add: zero_run_def)

lemma zero_run_le: "zero_run gs \<le> length gs"
  by (simp add: zero_run_def length_takeWhile_le)

definition is_run :: "nat list \<Rightarrow> nat \<times> nat \<Rightarrow> bool" where
  "is_run gs = (\<lambda>(e0, e1). e0 \<le> e1 \<and> e1 \<le> length gs \<and> take (e1 - e0) (drop e0 gs) = replicate (e1 - e0) 0)"

lemma longest_run_is_run: "is_run gs e \<Longrightarrow> is_run gs (longest_run gs i e)"
proof (induction gs i e rule: longest_run.induct)
  case (1 gs i e0 e1)
  let ?j = "i + zero_run (drop i gs)"
  have "i < length gs \<Longrightarrow> is_run gs (i, ?j)"
    using zero_run_zeros [of "drop i gs"] zero_run_le [of "drop i gs"] by (simp add: is_run_def)
  with 1 show ?case by (subst longest_run.simps) (simp add: Let_def)
qed

lemma run_split:
  assumes "is_run gs (e0, e1)"
  shows "gs = take e0 gs @ replicate (e1 - e0) 0 @ drop e1 gs"
proof -
  from assms have le: "e0 \<le> e1" and z: "take (e1 - e0) (drop e0 gs) = replicate (e1 - e0) 0"
    by (simp_all add: is_run_def)
  have "drop (e1 - e0) (drop e0 gs) = drop e1 gs" using le by simp
  with z have "drop e0 gs = replicate (e1 - e0) 0 @ drop e1 gs" by (metis append_take_drop_id)
  then show ?thesis by (metis append_take_drop_id)
qed

lemma flat_zeros: "flat (replicate n 0) = replicate (2 * n) 0"
  by (induction n) (simp_all add: word_bytes_def)

lemma small_take_drop: "small gs \<Longrightarrow> small (take n gs) \<and> small (drop n gs)"
  by (metis append_take_drop_id small_simps(3))

lemma parse_ipv6_text:
  assumes "small gs" "length gs = 8"
  shows "parseIPv6 (ipv6_text gs) = Some (flat gs)"
proof -
  obtain e0 e1 where e: "longest_run gs 0 (0, 0) = (e0, e1)" by force
  have run: "is_run gs (e0, e1)"
    using longest_run_is_run [of gs "(0, 0)" 0] e by (simp add: is_run_def)
  show ?thesis
  proof (cases "e1 - e0 \<le> 1")
    case True
    with e parse_groups [OF assms] show ?thesis by (simp add: ipv6_text_def)
  next
    case False
    let ?a = "take e0 gs" and ?b = "drop e1 gs"
    have le: "e1 \<le> 8" "e0 \<le> e1" using run assms(2) by (simp_all add: is_run_def)
    have "8 - length ?a - length ?b = e1 - e0" "length ?a + length ?b < 8"
      using le False assms(2) by simp_all
    then have "parseIPv6 (ipv6_text gs) = Some (flat ?a @ replicate (2 * (e1 - e0)) 0 @ flat ?b)"
      using e False parse_ellipsis [of ?a ?b] small_take_drop [OF assms(1)] by (simp add: ipv6_text_def)
    also have "flat ?a @ replicate (2 * (e1 - e0)) 0 @ flat ?b = flat (?a @ replicate (e1 - e0) 0 @ ?b)"
      by (simp only: map_append concat_append flat_zeros)
    finally show ?thesis by (simp only: run_split [OF run, symmetric])
  qed
qed

lemma word_bytes_group: "word_bytes (group hi lo) = [hi, lo]"
proof -
  have "unat lo < 256" using unsigned_less [of lo, where ?'a = nat] by simp
  then have "group hi lo div 256 = unat hi" by (simp add: group_def)
  moreover have "(of_nat (group hi lo) :: byte) = lo"
  proof -
    have "(256 :: byte) = 0" by simp
    then have "hi * 256 = 0" by (simp only: mult_zero_right)
    then show ?thesis by (simp add: group_def)
  qed
  ultimately show ?thesis by (simp add: word_bytes_def)
qed

lemma groups_flat: "even (length ip) \<Longrightarrow> flat (groups ip) = ip \<and> small (groups ip) \<and> length (groups ip) = length ip div 2"
proof (induction ip rule: groups.induct)
  case (1 hi lo bs)
  have "unat hi < 256" "unat lo < 256" using unsigned_less [of hi, where ?'a = nat] unsigned_less [of lo, where ?'a = nat] by simp_all
  then have "group hi lo \<le> 0xFFFF" by (simp add: group_def)
  with 1 show ?case by (simp add: word_bytes_group)
qed auto

subsection \<open>\<open>ParseIP\<close> undoes \<open>IP.String\<close>\<close>

lemma ParseIP_scan_v6: "CHR ''.'' \<notin> set t \<Longrightarrow> CHR '':'' \<in> set t \<Longrightarrow> ParseIP_scan s t = parseIPv6 s"
  by (induction t) auto

lemma ParseIP_scan_v4: "CHR '':'' \<notin> set t \<Longrightarrow> CHR ''.'' \<in> set t \<Longrightarrow> ParseIP_scan s t = parseIPv4 s"
  by (induction t) auto

lemma hex_no_dot: "CHR ''.'' \<notin> set (hex n)" "CHR ''['' \<notin> set (hex n)" "CHR '']'' \<notin> set (hex n)"
proof -
  have "\<forall>c \<in> set (hex n). hex_val c \<noteq> None" using hex_digits [of n] by (simp add: list_all_iff)
  moreover have "hex_val CHR ''.'' = None" "hex_val CHR ''['' = None" "hex_val CHR '']'' = None" by (simp_all add: hex_val_def)
  ultimately show "CHR ''.'' \<notin> set (hex n)" "CHR ''['' \<notin> set (hex n)" "CHR '']'' \<notin> set (hex n)" by metis+
qed

lemma join_groups_no_dot:
  "CHR ''.'' \<notin> set (join_groups gs)" "CHR ''['' \<notin> set (join_groups gs)" "CHR '']'' \<notin> set (join_groups gs)"
  by (induction gs rule: join_groups.induct) (auto simp: hex_no_dot)

lemma ipv6_text_chars:
  "CHR ''.'' \<notin> set (ipv6_text gs)" "CHR ''['' \<notin> set (ipv6_text gs)" "CHR '']'' \<notin> set (ipv6_text gs)"
  by (auto simp: ipv6_text_def join_groups_no_dot split: prod.splits)

lemma ipv6_text_colon: "2 \<le> length gs \<Longrightarrow> CHR '':'' \<in> set (ipv6_text gs)"
proof -
  assume "2 \<le> length gs"
  then have "CHR '':'' \<in> set (join_groups gs)" by (cases gs rule: join_groups.cases) auto
  then show ?thesis by (simp add: ipv6_text_def split_beta)
qed

lemma dotted_chars: "CHR '':'' \<notin> set (dotted p)" "CHR ''['' \<notin> set (dotted p)" "CHR '']'' \<notin> set (dotted p)"
  "CHR ''.'' \<in> set (dotted p)"
  by (simp_all add: dotted_def)

lemma list4: "length xs = 4 \<Longrightarrow> \<exists>a b c d. xs = [a, b, c, d]"
  by (auto simp: numeral_eq_Suc length_Suc_conv)

lemma ParseIP_dotted: "length p = 4 \<Longrightarrow> ParseIP (dotted p) = Some (v4InV6Prefix @ p)"
  using ParseIP_scan_v4 [OF dotted_chars(1,4)] list4 [of p]
  by (auto simp: ParseIP_def parseIPv4_dotted IPv4_def)

lemma ParseIP_String:
  assumes "length ip = 16"
  shows "ParseIP (IP_String ip) = Some ip"
proof (cases "take 12 ip = v4InV6Prefix")
  case True
  then have "IP_String ip = dotted (drop 12 ip)" "length (drop 12 ip) = 4" using assms by (simp_all add: IP_String_def To4_def)
  with ParseIP_dotted show ?thesis using True by (metis append_take_drop_id)
next
  case False
  then have s: "IP_String ip = ipv6_text (groups ip)" using assms by (simp add: IP_String_def To4_def)
  have g: "flat (groups ip) = ip" "small (groups ip)" "length (groups ip) = 8"
    using groups_flat [of ip] assms by auto
  have "ParseIP (IP_String ip) = parseIPv6 (ipv6_text (groups ip))"
    unfolding s ParseIP_def using g(3) by (intro ParseIP_scan_v6 ipv6_text_chars ipv6_text_colon) simp
  also have "\<dots> = Some ip" using parse_ipv6_text [OF g(2,3)] g(1) by simp
  finally show ?thesis .
qed

lemma IP_String_chars: "CHR ''['' \<notin> set (IP_String ip)" "CHR '']'' \<notin> set (IP_String ip)"
  by (auto simp: IP_String_def dotted_chars ipv6_text_chars split: option.splits)

end
