(* ===== verification/Shadow_Cipher.thy ===== *)
theory Shadow_Cipher
  imports Net_Text
begin

text \<open>
  \<^verbatim>\<open>m_shadow/cipher.go\<close>, the AEAD interface of \<^verbatim>\<open>crypto/cipher\<close> it is written against, and the counting
  nonce of \<^verbatim>\<open>m_shadow/stream.go\<close>.

  The cryptographic primitives are not part of the repository: they are the fields of a record
  \<open>crypto\<close> that the definitions take as an argument.  What the program relies on is stated by
  \<open>aead_ok\<close> (sealing adds \<open>Overhead\<close> bytes and opening undoes sealing under the same nonce) and
  \<open>crypto_ok\<close> (this for both ciphers under every key they accept, and HKDF output of the length asked for).
\<close>

subsection \<open>AEAD\<close>

text \<open>
  \<^verbatim>\<open>Open\<close> may overwrite its destination even when it fails; \<open>a_Spoil nonce c\<close> is what it leaves there then.
\<close>

record aead =
  a_NonceSize :: nat
  a_Overhead :: nat
  a_Seal :: "bytes \<Rightarrow> bytes \<Rightarrow> bytes"
  a_Open :: "bytes \<Rightarrow> bytes \<Rightarrow> bytes option"
  a_Spoil :: "bytes \<Rightarrow> bytes \<Rightarrow> bytes"

definition aead_ok :: "aead \<Rightarrow> bool" where
  "aead_ok a \<longleftrightarrow>
     (\<forall>nonce p. length nonce = a_NonceSize a \<longrightarrow>
        length (a_Seal a nonce p) = length p + a_Overhead a \<and> a_Open a nonce (a_Seal a nonce p) = Some p) \<and>
     (\<forall>nonce c p. length nonce = a_NonceSize a \<longrightarrow> a_Open a nonce c = Some p \<longrightarrow>
        length c = length p + a_Overhead a)"

lemma aead_okD:
  assumes "aead_ok a" "length nonce = a_NonceSize a"
  shows "length (a_Seal a nonce p) = length p + a_Overhead a" "a_Open a nonce (a_Seal a nonce p) = Some p"
    and "a_Open a nonce c = Some q \<Longrightarrow> length c = length q + a_Overhead a"
  using assms by (simp_all add: aead_ok_def)

subsection \<open>The nonce: a little-endian counter\<close>

text \<open>\<open>increment\<close> of \<^verbatim>\<open>stream.go\<close>: the loop stops at the first byte that does not become zero.\<close>

fun increment :: "bytes \<Rightarrow> bytes" where
  "increment [] = []"
| "increment (b # bs) = (if b + 1 \<noteq> 0 then (b + 1) # bs else (b + 1) # increment bs)"

fun le_value :: "bytes \<Rightarrow> nat" where
  "le_value [] = 0"
| "le_value (b # bs) = unat b + 256 * le_value bs"

lemma length_increment [simp]: "length (increment b) = length b"
  by (induction b) auto

lemma length_increment_funpow [simp]: "length ((increment ^^ k) b) = length b"
  by (induction k) auto

lemma unat_byte_less: "unat (b :: byte) < 256"
  using unsigned_less [of b, where ?'a = nat] by simp

lemma le_value_bound: "le_value b < 256 ^ length b"
proof (induction b)
  case (Cons x xs)
  have "unat x < 256" by (rule unat_byte_less)
  with Cons show ?case by simp
qed simp

lemma unat_inc_byte: "(b :: byte) + 1 \<noteq> 0 \<Longrightarrow> unat (b + 1) = unat b + 1"
  using unatSuc [of b] by (simp add: add.commute)

lemma inc_byte_wrap: "(b :: byte) + 1 = 0 \<Longrightarrow> unat b = 255"
proof -
  assume "b + 1 = 0"
  then have "unat (b + 1) = 0" by simp
  then have "(unat b + 1) mod 256 = 0" by (simp add: unat_word_ariths)
  with unat_byte_less [of b] show ?thesis by presburger
qed

lemma increment_value: "le_value (increment b) = (le_value b + 1) mod 256 ^ length b"
proof (induction b)
  case Nil
  then show ?case by simp
next
  case (Cons x xs)
  show ?case
  proof (cases "x + 1 = 0")
    case False
    then have "le_value (increment (x # xs)) = le_value (x # xs) + 1"
      by (simp add: unat_inc_byte)
    moreover have "le_value (increment (x # xs)) < 256 ^ length (x # xs)"
      using le_value_bound [of "increment (x # xs)"] by (simp only: length_increment)
    ultimately show ?thesis by simp
  next
    case True
    then have "le_value (x # xs) + 1 = 256 * (le_value xs + 1)"
      by (simp add: inc_byte_wrap)
    with True Cons show ?thesis by (simp add: mult_mod_right)
  qed
qed

lemma increment_funpow_value:
  "le_value ((increment ^^ k) b) = (le_value b + k) mod 256 ^ length b"
  by (induction k) (simp_all add: le_value_bound increment_value mod_Suc_eq)

lemma le_value_zero [simp]: "le_value (replicate n 0) = 0"
  by (induction n) auto

subsection \<open>Primitives\<close>

text \<open>
  \<open>cr_hkdf secret salt info n\<close> is the first \<open>n\<close> bytes of the HKDF-SHA1 stream (\<open>None\<close> when reading it
  fails), \<open>cr_md5\<close> the MD5 sum, and the six others seal, open and fail to open under a key with AES-GCM and with
  ChaCha20-Poly1305.
\<close>

record crypto =
  cr_hkdf :: "bytes \<Rightarrow> bytes \<Rightarrow> bytes \<Rightarrow> nat \<Rightarrow> bytes option"
  cr_md5 :: "bytes \<Rightarrow> bytes"
  cr_gcm_seal :: "bytes \<Rightarrow> bytes \<Rightarrow> bytes \<Rightarrow> bytes"
  cr_gcm_open :: "bytes \<Rightarrow> bytes \<Rightarrow> bytes \<Rightarrow> bytes option"
  cr_gcm_spoil :: "bytes \<Rightarrow> bytes \<Rightarrow> bytes \<Rightarrow> bytes"
  cr_chacha_seal :: "bytes \<Rightarrow> bytes \<Rightarrow> bytes \<Rightarrow> bytes"
  cr_chacha_open :: "bytes \<Rightarrow> bytes \<Rightarrow> bytes \<Rightarrow> bytes option"
  cr_chacha_spoil :: "bytes \<Rightarrow> bytes \<Rightarrow> bytes \<Rightarrow> bytes"

text \<open>
  The AEADs of \<^verbatim>\<open>cipher.NewGCM\<close> (12-byte nonce, 16-byte tag) over \<^verbatim>\<open>aes.NewCipher\<close>, which rejects keys of
  other lengths than 16, 24 and 32, and of \<^verbatim>\<open>chacha20poly1305.New\<close> (12-byte nonce, 16-byte tag, 32-byte key).
\<close>

definition gcm :: "crypto \<Rightarrow> bytes \<Rightarrow> aead" where
  "gcm cr key = \<lparr>a_NonceSize = 12, a_Overhead = 16, a_Seal = cr_gcm_seal cr key, a_Open = cr_gcm_open cr key, a_Spoil = cr_gcm_spoil cr key\<rparr>"

definition aesGCM :: "crypto \<Rightarrow> bytes \<Rightarrow> goerr + aead" where
  "aesGCM cr key =
     (if length key \<in> {16, 24, 32} then Inr (gcm cr key) else Inl (AesKeySizeError (ilen key)))"

definition chacha :: "crypto \<Rightarrow> bytes \<Rightarrow> aead" where
  "chacha cr key =
     \<lparr>a_NonceSize = 12, a_Overhead = 16, a_Seal = cr_chacha_seal cr key, a_Open = cr_chacha_open cr key, a_Spoil = cr_chacha_spoil cr key\<rparr>"

definition chacha_New :: "crypto \<Rightarrow> bytes \<Rightarrow> goerr + aead" where
  "chacha_New cr key = (if length key = 32 then Inr (chacha cr key) else Inl (KeySizeError 32))"

definition crypto_ok :: "crypto \<Rightarrow> bool" where
  "crypto_ok cr \<longleftrightarrow>
     (\<forall>key. length key \<in> {16, 24, 32} \<longrightarrow> aead_ok (gcm cr key)) \<and>
     (\<forall>key. length key = 32 \<longrightarrow> aead_ok (chacha cr key)) \<and>
     (\<forall>secret salt info n. n \<le> 255 * 20 \<longrightarrow> (\<exists>k. cr_hkdf cr secret salt info n = Some k \<and> length k = n)) \<and>
     (\<forall>m. length (cr_md5 cr m) = 16)"

subsection \<open>\<open>metaCipher\<close>\<close>

record metaCipher =
  mc_psk :: bytes
  mc_makeAEAD :: "bytes \<Rightarrow> goerr + aead"

text \<open>\<^verbatim>\<open>[]byte("ss-subkey")\<close>\<close>

definition ss_subkey :: bytes where
  "ss_subkey = [115, 115, 45, 115, 117, 98, 107, 101, 121]"

definition hkdfSHA1 :: "crypto \<Rightarrow> bytes \<Rightarrow> bytes \<Rightarrow> bytes \<Rightarrow> nat \<Rightarrow> bytes go" where
  "hkdfSHA1 cr secret salt info n =
     (case cr_hkdf cr secret salt info n of None \<Rightarrow> throw (PanicMsg ''hkdf'') | Some k \<Rightarrow> ret k)"

definition metaCipher_KeySize :: "metaCipher \<Rightarrow> nat" where
  "metaCipher_KeySize a = length (mc_psk a)"

definition metaCipher_SaltSize :: "metaCipher \<Rightarrow> nat" where
  "metaCipher_SaltSize a = (let ks = metaCipher_KeySize a in if ks > 16 then ks else 16)"

definition metaCipher_Encrypter :: "crypto \<Rightarrow> metaCipher \<Rightarrow> bytes \<Rightarrow> (goerr + aead) go" where
  "metaCipher_Encrypter cr a salt =
     gobind (hkdfSHA1 cr (mc_psk a) salt ss_subkey (metaCipher_KeySize a)) (\<lambda>subkey.
     ret (mc_makeAEAD a subkey))"

definition metaCipher_Decrypter :: "crypto \<Rightarrow> metaCipher \<Rightarrow> bytes \<Rightarrow> (goerr + aead) go" where
  "metaCipher_Decrypter cr a salt =
     gobind (hkdfSHA1 cr (mc_psk a) salt ss_subkey (metaCipher_KeySize a)) (\<lambda>subkey.
     ret (mc_makeAEAD a subkey))"

text \<open>The text of a key size error.\<close>

definition KeySizeError_Error :: "int \<Rightarrow> string" where
  "KeySizeError_Error e = ''key size error: need '' @ int_text e @ '' bytes''"

definition AESGCM :: "crypto \<Rightarrow> bytes \<Rightarrow> goerr + metaCipher" where
  "AESGCM cr psk =
     (if length psk \<in> {16, 24, 32} then Inr \<lparr>mc_psk = psk, mc_makeAEAD = aesGCM cr\<rparr>
      else Inl (AesKeySizeError (ilen psk)))"

definition Chacha20Poly1305 :: "crypto \<Rightarrow> bytes \<Rightarrow> goerr + metaCipher" where
  "Chacha20Poly1305 cr psk =
     (if length psk \<noteq> 32 then Inl (KeySizeError 32)
      else Inr \<lparr>mc_psk = psk, mc_makeAEAD = chacha_New cr\<rparr>)"

text \<open>
  A cipher the two constructors return: the same salt gives the encrypting and the decrypting side
  the same working AEAD.
\<close>

definition cipher_made :: "crypto \<Rightarrow> metaCipher \<Rightarrow> bool" where
  "cipher_made cr c \<longleftrightarrow> (\<exists>psk. AESGCM cr psk = Inr c \<or> Chacha20Poly1305 cr psk = Inr c)"

lemma made_aead:
  assumes "crypto_ok cr" "cipher_made cr c"
  shows "\<exists>a. metaCipher_Encrypter cr c salt = ret (Inr a) \<and> metaCipher_Decrypter cr c salt = ret (Inr a) \<and>
           aead_ok a \<and> a_NonceSize a = 12 \<and> a_Overhead a = 16"
proof -
  from assms(2) have ks: "length (mc_psk c) \<le> 255 * 20"
    by (auto simp: cipher_made_def AESGCM_def Chacha20Poly1305_def split: if_splits)
  with assms(1) obtain k where k: "cr_hkdf cr (mc_psk c) salt ss_subkey (length (mc_psk c)) = Some k"
      and lk: "length k = length (mc_psk c)"
    unfolding crypto_ok_def by blast
  from assms lk have "\<exists>a. mc_makeAEAD c k = Inr a \<and> aead_ok a \<and> a_NonceSize a = 12 \<and> a_Overhead a = 16"
    by (auto simp: cipher_made_def AESGCM_def Chacha20Poly1305_def crypto_ok_def aesGCM_def chacha_New_def
        gcm_def chacha_def split: if_splits)
  with k show ?thesis
    by (auto simp: metaCipher_Encrypter_def metaCipher_Decrypter_def hkdfSHA1_def metaCipher_KeySize_def)
qed

lemma made_salt_size:
  "cipher_made cr c \<Longrightarrow> metaCipher_SaltSize c \<in> {16, 24, 32}"
  by (auto simp: cipher_made_def AESGCM_def Chacha20Poly1305_def metaCipher_SaltSize_def
      metaCipher_KeySize_def split: if_splits)

subsection \<open>A concrete instance of the primitives\<close>

text \<open>
  A keyed toy AEAD (a fixed mask and a tag of key and nonce) that satisfies \<open>crypto_ok\<close>, on which the
  properties are evaluated.
\<close>

definition sample_tag :: "bytes \<Rightarrow> bytes \<Rightarrow> bytes" where
  "sample_tag key nonce = take 16 (take 4 key @ take 12 nonce @ replicate 16 0)"

definition sample_seal :: "bytes \<Rightarrow> bytes \<Rightarrow> bytes \<Rightarrow> bytes" where
  "sample_seal key nonce p = map (\<lambda>b. b XOR 0x5A) p @ sample_tag key nonce"

definition sample_open :: "bytes \<Rightarrow> bytes \<Rightarrow> bytes \<Rightarrow> bytes option" where
  "sample_open key nonce c =
     (if 16 \<le> length c \<and> drop (length c - 16) c = sample_tag key nonce
      then Some (map (\<lambda>b. b XOR 0x5A) (take (length c - 16) c)) else None)"

definition sample_spoil :: "bytes \<Rightarrow> bytes \<Rightarrow> bytes \<Rightarrow> bytes" where
  "sample_spoil key nonce c = replicate (length c - 16) 0"

definition sample_crypto :: crypto where
  "sample_crypto =
     \<lparr>cr_hkdf = (\<lambda>secret salt info n. Some (take n (secret @ salt @ info @ replicate n 0))),
      cr_md5 = (\<lambda>m. take 16 (m @ replicate 16 0)),
      cr_gcm_seal = sample_seal, cr_gcm_open = sample_open, cr_gcm_spoil = sample_spoil,
      cr_chacha_seal = sample_seal, cr_chacha_open = sample_open, cr_chacha_spoil = sample_spoil\<rparr>"

lemma length_sample_tag [simp]: "length (sample_tag key nonce) = 16"
  by (simp add: sample_tag_def)

lemma sample_open_seal: "sample_open key nonce (sample_seal key nonce p) = Some p"
  by (simp add: sample_open_def sample_seal_def comp_def xor.assoc)

lemma sample_crypto_ok: "crypto_ok sample_crypto"
  unfolding crypto_ok_def aead_ok_def gcm_def chacha_def sample_crypto_def
  by (simp add: sample_open_seal) (auto simp: sample_seal_def sample_open_def split: if_splits)

definition sample_cipher :: metaCipher where
  "sample_cipher = \<lparr>mc_psk = replicate 16 7, mc_makeAEAD = aesGCM sample_crypto\<rparr>"

lemma sample_cipher_made: "cipher_made sample_crypto sample_cipher"
  unfolding cipher_made_def
  by (intro exI [of _ "replicate 16 7"] disjI1) (simp add: AESGCM_def sample_cipher_def)

lemma sample_salt_size: "metaCipher_SaltSize sample_cipher = 16"
  by (simp add: sample_cipher_def metaCipher_SaltSize_def metaCipher_KeySize_def)

subsection \<open>Properties\<close>

text \<open>
  C25: The nonce of a session never repeats: starting from the zero nonce of \<open>n\<close> bytes, the nonces after
  \<open>i\<close> and after \<open>j\<close> increments are the same only if \<open>i = j\<close>, as long as both counts stay below the
  number of nonces.
\<close>

theorem nonces_distinct:
  assumes "i < 256 ^ n" "j < 256 ^ n"
  shows "(increment ^^ i) (replicate n 0) = (increment ^^ j) (replicate n 0) \<longleftrightarrow> i = j"
proof
  assume "(increment ^^ i) (replicate n 0) = (increment ^^ j) (replicate n 0)"
  then have "le_value ((increment ^^ i) (replicate n 0)) = le_value ((increment ^^ j) (replicate n 0))" by simp
  with assms show "i = j" by (simp add: increment_funpow_value)
qed simp

theorem nonces_distinct_witness:
  "(3 :: nat) < 256 ^ 12 \<and> (260 :: nat) < 256 ^ 12 \<and>
   (increment ^^ 3) (replicate 12 0) \<noteq> (increment ^^ 260) (replicate 12 0)"
  using nonces_distinct [of 3 12 260] by simp

text \<open>
  Both sides of a session agree: for every cipher the constructors make and every salt, the
  encrypting and the decrypting side derive the same AEAD, which opens what it seals and adds sixteen bytes.
\<close>

theorem sides_agree:
  assumes "crypto_ok cr" "AESGCM cr psk = Inr c \<or> Chacha20Poly1305 cr psk = Inr c"
  shows "\<exists>a. metaCipher_Encrypter cr c salt = ret (Inr a) \<and> metaCipher_Decrypter cr c salt = ret (Inr a) \<and>
    (\<forall>nonce p. length nonce = a_NonceSize a \<longrightarrow>
       a_Open a nonce (a_Seal a nonce p) = Some p \<and> length (a_Seal a nonce p) = length p + 16)"
  using made_aead [OF assms(1), of c salt] assms(2) unfolding cipher_made_def by (metis aead_okD(1,2))

theorem sides_agree_witness:
  "\<exists>c a. AESGCM sample_crypto (replicate 16 7) = Inr c \<and>
    metaCipher_Encrypter sample_crypto c (replicate 16 1) = ret (Inr a) \<and>
    metaCipher_Decrypter sample_crypto c (replicate 16 1) = ret (Inr a)"
proof -
  have "AESGCM sample_crypto (replicate 16 7) = Inr sample_cipher" by (simp add: AESGCM_def sample_cipher_def)
  with sides_agree [OF sample_crypto_ok, of "replicate 16 7" sample_cipher "replicate 16 1"] show ?thesis by blast
qed

end
