(* ===== verification/Shadow_Stream.thy ===== *)
theory Shadow_Stream
  imports Shadow_Cipher
begin

text \<open>
  The encrypted record stream of \<^verbatim>\<open>m_shadow/stream.go\<close>: the \<open>writer\<close> that cuts a byte stream into records
  and the \<open>reader\<close> that turns records back into the byte stream.  The buffers are the code's
  buffers: sealing and opening happen in place, in slices of them.

  The reference definitions are \<open>records\<close>, the wire format of a sequence of payloads, and
  \<open>decode\<close>, its decoder.  The \<open>reader\<close> over any \<open>stream_reader\<close> whose bytes decode is again a
  \<open>stream_reader\<close>, of the decoded payloads; what the \<open>writer\<close> puts on the wire is a prefix of a \<open>records\<close>
  stream for the bytes it consumed, and all of it when it reports no error.
\<close>

definition payloadSizeMask :: int where
  "payloadSizeMask = 0x3FFF"

lemmas psm = payloadSizeMask_def

subsection \<open>\<open>writer\<close>\<close>

record 'w swriter =
  w_Writer :: 'w
  w_AEAD :: aead
  w_nonce :: bytes
  w_buf :: bytes

abbreviation w_Overhead :: "'w swriter \<Rightarrow> int" where
  "w_Overhead w \<equiv> int (a_Overhead (w_AEAD w))"

definition newWriter :: "'w \<Rightarrow> aead \<Rightarrow> 'w swriter" where
  "newWriter w a =
     \<lparr>w_Writer = w, w_AEAD = a,
      w_nonce = replicate (a_NonceSize a) 0,
      w_buf = replicate (nat (2 + int (a_Overhead a) + payloadSizeMask + int (a_Overhead a))) 0\<rparr>"

text \<open>
  Sealing one record in place: the size and the payload of \<open>nr\<close> bytes, already in the buffer, become
  the record; the result is the record (the slice handed to \<^verbatim>\<open>Write\<close>) and the writer.
\<close>

definition writer_seal :: "'w swriter \<Rightarrow> int \<Rightarrow> (bytes \<times> 'w swriter) go" where
  "writer_seal w nr =
     (let ov = w_Overhead w; a = w_AEAD w in
      gobind (go_slice (w_buf w) 0 (2 + ov + nr + ov)) (\<lambda>buf.
      gobind (go_store buf 0 (word_of_int (drop_bit 8 nr))) (\<lambda>buf.
      gobind (go_store buf 1 (word_of_int nr)) (\<lambda>buf.
      gobind (go_slice buf 0 2) (\<lambda>size.
      let buf = overwrite buf 0 (a_Seal a (w_nonce w) size); nonce1 = increment (w_nonce w) in
      gobind (go_slice buf (2 + ov) (2 + ov + nr)) (\<lambda>payload.
      let buf = overwrite buf (2 + ov) (a_Seal a nonce1 payload); nonce2 = increment nonce1 in
      ret (buf, w\<lparr>w_buf := overwrite (w_buf w) 0 buf, w_nonce := nonce2\<rparr>)))))))"

partial_function (option) writer_ReadFrom_loop ::
  "'w writer_fn \<Rightarrow> 's reader_fn \<Rightarrow> 'w swriter \<Rightarrow> 's \<Rightarrow> int \<Rightarrow> (int \<times> goerr option \<times> 'w swriter \<times> 's) go"
where
  "writer_ReadFrom_loop wr rd w s n =
     gobind (go_slice (w_buf w) (2 + w_Overhead w) (2 + w_Overhead w + payloadSizeMask)) (\<lambda>payloadBuf.
     gobind (rd s payloadBuf) (\<lambda>(nr, payloadBuf', er, s').
     let w = w\<lparr>w_buf := overwrite (w_buf w) (2 + w_Overhead w) payloadBuf'\<rparr> in
     if 0 < nr then
       gobind (writer_seal w nr) (\<lambda>(buf, w).
       gobind (wr (w_Writer w) buf) (\<lambda>(_, ew, wst).
       let w = w\<lparr>w_Writer := wst\<rparr> in
       (case ew of
          Some e \<Rightarrow> ret (n + nr, Some e, w, s')
        | None \<Rightarrow>
           (case er of
              Some e \<Rightarrow> ret (n + nr, (if e \<noteq> EOF then Some e else None), w, s')
            | None \<Rightarrow> writer_ReadFrom_loop wr rd w s' (n + nr)))))
     else
       (case er of
          Some e \<Rightarrow> ret (n, (if e \<noteq> EOF then Some e else None), w, s')
        | None \<Rightarrow> writer_ReadFrom_loop wr rd w s' n)))"

definition writer_ReadFrom ::
  "'w writer_fn \<Rightarrow> 's reader_fn \<Rightarrow> 'w swriter \<Rightarrow> 's \<Rightarrow> (int \<times> goerr option \<times> 'w swriter \<times> 's) go" where
  "writer_ReadFrom wr rd w s = writer_ReadFrom_loop wr rd w s 0"

definition writer_Write :: "'w writer_fn \<Rightarrow> 'w swriter writer_fn" where
  "writer_Write wr w b =
     gobind (writer_ReadFrom wr buffer_Read w b) (\<lambda>(n, err, w', _). ret (n, err, w'))"

subsection \<open>\<open>reader\<close>\<close>

record 's sreader =
  r_Reader :: 's
  r_AEAD :: aead
  r_nonce :: bytes
  r_buf :: bytes
  r_leftover :: bytes

abbreviation r_Overhead :: "'s sreader \<Rightarrow> int" where
  "r_Overhead r \<equiv> int (a_Overhead (r_AEAD r))"

definition newReader :: "'s \<Rightarrow> aead \<Rightarrow> 's sreader" where
  "newReader s a =
     \<lparr>r_Reader = s, r_AEAD = a,
      r_nonce = replicate (a_NonceSize a) 0,
      r_buf = replicate (nat (payloadSizeMask + int (a_Overhead a))) 0,
      r_leftover = []\<rparr>"

text \<open>
  Half of \<^verbatim>\<open>read()\<close>: fill the first \<open>n\<close> bytes of the buffer, open them in place and step the nonce.
  The nonce is stepped whether or not the opening succeeds, but not when the bytes do not come.
\<close>

definition reader_open :: "'s reader_fn \<Rightarrow> 's sreader \<Rightarrow> int \<Rightarrow> (goerr option \<times> 's sreader) go" where
  "reader_open rd r n =
     gobind (go_slice (r_buf r) 0 n) (\<lambda>buf.
     gobind (ReadFull rd (r_Reader r) buf) (\<lambda>(_, buf, err, s).
     let r = r\<lparr>r_Reader := s, r_buf := overwrite (r_buf r) 0 buf\<rparr> in
     case err of
       Some e \<Rightarrow> ret (Some e, r)
     | None \<Rightarrow>
         let opened = a_Open (r_AEAD r) (r_nonce r) buf; spoilt = a_Spoil (r_AEAD r) (r_nonce r) buf;
             r = r\<lparr>r_nonce := increment (r_nonce r)\<rparr> in
         (case opened of
            None \<Rightarrow> ret (Some AeadOpenError, r\<lparr>r_buf := overwrite (r_buf r) 0 spoilt\<rparr>)
          | Some p \<Rightarrow> ret (None, r\<lparr>r_buf := overwrite (r_buf r) 0 p\<rparr>))))"

definition payload_size :: "byte \<Rightarrow> byte \<Rightarrow> int" where
  "payload_size b0 b1 = (push_bit 8 (uint b0) + uint b1) AND payloadSizeMask"

definition reader_read :: "'s reader_fn \<Rightarrow> 's sreader \<Rightarrow> (int \<times> goerr option \<times> 's sreader) go" where
  "reader_read rd r =
     gobind (reader_open rd r (2 + r_Overhead r)) (\<lambda>(err, r).
     case err of
       Some e \<Rightarrow> ret (0, Some e, r)
     | None \<Rightarrow>
         gobind (go_index (r_buf r) 0) (\<lambda>b0.
         gobind (go_index (r_buf r) 1) (\<lambda>b1.
         let size = payload_size b0 b1 in
         gobind (reader_open rd r (size + r_Overhead r)) (\<lambda>(err, r).
         case err of
           Some e \<Rightarrow> ret (0, Some e, r)
         | None \<Rightarrow> ret (size, None, r)))))"

definition reader_Read :: "'s reader_fn \<Rightarrow> 's sreader reader_fn" where
  "reader_Read rd r b =
     (if r_leftover r \<noteq> [] then
        let n = copy_len b 0 (r_leftover r) in
        ret (n, overwrite b 0 (r_leftover r), None, r\<lparr>r_leftover := drop (nat n) (r_leftover r)\<rparr>)
      else
        gobind (reader_read rd r) (\<lambda>(n, err, r).
        gobind (go_slice (r_buf r) 0 n) (\<lambda>payload.
        let m = copy_len b 0 payload in
        gobind (if m < n then go_slice (r_buf r) m n else ret (r_leftover r)) (\<lambda>leftover.
        ret (m, overwrite b 0 payload, err, r\<lparr>r_leftover := leftover\<rparr>)))))"

text \<open>The two loops of \<^verbatim>\<open>WriteTo\<close>: draining the leftover, then reading records.\<close>

partial_function (option) reader_WriteTo_leftover ::
  "'w writer_fn \<Rightarrow> 's sreader \<Rightarrow> 'w \<Rightarrow> int \<Rightarrow> (int \<times> goerr option \<times> 's sreader \<times> 'w) go"
where
  "reader_WriteTo_leftover wr r w n =
     (if 0 < length (r_leftover r) then
        gobind (wr w (r_leftover r)) (\<lambda>(nw, ew, w).
        gobind (go_slice (r_leftover r) nw (ilen (r_leftover r))) (\<lambda>left.
        let r = r\<lparr>r_leftover := left\<rparr> in
        (case ew of
           Some e \<Rightarrow> ret (n + nw, Some e, r, w)
         | None \<Rightarrow> reader_WriteTo_leftover wr r w (n + nw))))
      else ret (n, None, r, w))"

partial_function (option) reader_WriteTo_loop ::
  "'s reader_fn \<Rightarrow> 'w writer_fn \<Rightarrow> 's sreader \<Rightarrow> 'w \<Rightarrow> int \<Rightarrow> (int \<times> goerr option \<times> 's sreader \<times> 'w) go"
where
  "reader_WriteTo_loop rd wr r w n =
     gobind (reader_read rd r) (\<lambda>(nr, er, r).
     if 0 < nr then
       gobind (go_slice (r_buf r) 0 nr) (\<lambda>payload.
       gobind (wr w payload) (\<lambda>(nw, ew, w).
       (case ew of
          Some e \<Rightarrow> ret (n + nw, Some e, r, w)
        | None \<Rightarrow>
            (case er of
               Some e \<Rightarrow> ret (n + nw, (if e \<noteq> EOF then Some e else None), r, w)
             | None \<Rightarrow> reader_WriteTo_loop rd wr r w (n + nw)))))
     else
       (case er of
          Some e \<Rightarrow> ret (n, (if e \<noteq> EOF then Some e else None), r, w)
        | None \<Rightarrow> reader_WriteTo_loop rd wr r w n))"

definition reader_WriteTo ::
  "'s reader_fn \<Rightarrow> 'w writer_fn \<Rightarrow> 's sreader \<Rightarrow> 'w \<Rightarrow> (int \<times> goerr option \<times> 's sreader \<times> 'w) go" where
  "reader_WriteTo rd wr r w =
     gobind (reader_WriteTo_leftover wr r w 0) (\<lambda>(n, err, r, w).
     case err of
       Some e \<Rightarrow> ret (n, Some e, r, w)
     | None \<Rightarrow> reader_WriteTo_loop rd wr r w n)"

subsection \<open>The wire format\<close>

text \<open>
  \<open>be16\<close> is the size field.  \<open>records\<close> is the wire form of a sequence of payloads under a starting nonce.
  On the receiving side, \<open>open_part\<close> takes one sealed part with a plaintext of \<open>k\<close> bytes off a byte stream
  that ends with the error \<open>fin\<close>, \<open>open_record\<close> the two parts of a record, and \<open>decode\<close> all records up to the
  first error; it also returns the bytes of the stream it could not decode.
\<close>

definition be16 :: "nat \<Rightarrow> bytes" where
  "be16 k = [word_of_int (drop_bit 8 (int k)), word_of_int (int k)]"

fun records :: "aead \<Rightarrow> bytes \<Rightarrow> bytes list \<Rightarrow> bytes" where
  "records a nonce [] = []"
| "records a nonce (p # ps) =
     a_Seal a nonce (be16 (length p)) @ a_Seal a (increment nonce) p @ records a (increment (increment nonce)) ps"

definition open_part :: "aead \<Rightarrow> bytes \<Rightarrow> goerr \<Rightarrow> nat \<Rightarrow> bytes \<Rightarrow> goerr + bytes \<times> bytes" where
  "open_part a nonce fin k bs =
     (let n = k + a_Overhead a in
      if length bs < n then Inl (short_read_err (length bs) fin)
      else case a_Open a nonce (take n bs) of
        None \<Rightarrow> Inl AeadOpenError
      | Some p \<Rightarrow> Inr (p, drop n bs))"

definition open_record :: "aead \<Rightarrow> bytes \<Rightarrow> goerr \<Rightarrow> bytes \<Rightarrow> goerr + bytes \<times> bytes" where
  "open_record a nonce fin bs =
     (case open_part a nonce fin 2 bs of
        Inl e \<Rightarrow> Inl e
      | Inr (sz, bs') \<Rightarrow>
          open_part a (increment nonce) fin (nat (payload_size (sz ! 0) (sz ! 1))) bs')"

lemma open_part_shorter: "open_part a nonce fin k bs = Inr (p, rest) \<Longrightarrow> length rest + k \<le> length bs"
  by (auto simp: open_part_def Let_def split: if_splits option.splits)

lemma open_record_shorter: "open_record a nonce fin bs = Inr (p, rest) \<Longrightarrow> length rest + 2 \<le> length bs"
  by (force simp: open_record_def dest!: open_part_shorter split: sum.splits)

function decode :: "aead \<Rightarrow> bytes \<Rightarrow> goerr \<Rightarrow> bytes \<Rightarrow> bytes list \<times> goerr \<times> bytes" where
  "decode a nonce fin bs =
     (case open_record a nonce fin bs of
        Inl e \<Rightarrow> ([], e, bs)
      | Inr (p, rest) \<Rightarrow>
          (case decode a (increment (increment nonce)) fin rest of (ps, e, u) \<Rightarrow> (p # ps, e, u)))"
  by pat_completeness auto
termination
  by (relation "measure (\<lambda>(_, _, _, bs). length bs)") (auto dest: open_record_shorter)

declare decode.simps [simp del]

definition payloads_ok :: "bytes list \<Rightarrow> bool" where
  "payloads_ok ps \<longleftrightarrow> list_all (\<lambda>p. ilen p \<le> payloadSizeMask) ps"

lemma payloads_ok_simps [simp]:
  "payloads_ok []" "payloads_ok (p # ps) \<longleftrightarrow> ilen p \<le> payloadSizeMask \<and> payloads_ok ps"
  "payloads_ok (ps @ qs) \<longleftrightarrow> payloads_ok ps \<and> payloads_ok qs"
  by (simp_all add: payloads_ok_def)

lemma length_be16 [simp]: "length (be16 k) = 2"
  by (simp add: be16_def)

lemma payload_size_range: "0 \<le> payload_size b0 b1" "payload_size b0 b1 \<le> payloadSizeMask"
proof -
  have "payload_size b0 b1 = take_bit 14 (push_bit 8 (uint b0) + uint b1)"
    by (simp add: payload_size_def psm take_bit_eq_mask mask_eq_exp_minus_1)
  then have "payload_size b0 b1 = (push_bit 8 (uint b0) + uint b1) mod 2 ^ 14"
    by (simp add: take_bit_eq_mod)
  then show "0 \<le> payload_size b0 b1" "payload_size b0 b1 \<le> payloadSizeMask"
    by (simp_all add: psm)
qed

lemma payload_size_be16:
  assumes "int k \<le> payloadSizeMask"
  shows "payload_size (be16 k ! 0) (be16 k ! Suc 0) = int k"
proof -
  have "uint (word_of_int (drop_bit 8 (int k)) :: byte) = int k div 256"
    using assms by (simp add: psm uint_word_of_int drop_bit_eq_div)
  moreover have "uint (word_of_int (int k) :: byte) = int k mod 256"
    by (simp add: unsigned_of_nat take_bit_eq_mod zmod_int)
  ultimately have "push_bit 8 (uint (be16 k ! 0)) + uint (be16 k ! Suc 0) = int k"
    by (simp add: be16_def push_bit_eq_mult)
  moreover have "int k AND payloadSizeMask = int k"
    using assms take_bit_int_eq_self [of "int k" 14]
    by (simp add: psm take_bit_eq_mask mask_eq_exp_minus_1)
  ultimately show ?thesis by (simp add: payload_size_def)
qed

lemma open_part_length:
  assumes "aead_ok a" "length nonce = a_NonceSize a" "open_part a nonce fin k bs = Inr (p, rest)"
  shows "length p = k \<and> length bs = length p + a_Overhead a + length rest"
proof -
  let ?n = "k + a_Overhead a"
  from assms(3) have op: "?n \<le> length bs" "a_Open a nonce (take ?n bs) = Some p" "rest = drop ?n bs"
    by (auto simp: open_part_def Let_def split: if_splits option.splits)
  then show ?thesis using aead_okD(3) [OF assms(1,2) op(2)] by simp
qed

lemma open_record_length:
  assumes "aead_ok a" "length nonce = a_NonceSize a" "open_record a nonce fin bs = Inr (p, rest)"
  shows "length rest + length p < length bs"
proof -
  from assms(3) obtain sz bs' k where op: "open_part a nonce fin 2 bs = Inr (sz, bs')"
      "open_part a (increment nonce) fin k bs' = Inr (p, rest)"
    by (auto simp: open_record_def split: sum.splits)
  have "length (increment nonce) = a_NonceSize a" using assms(2) by simp
  with open_part_length [OF assms(1,2) op(1)] open_part_length [OF assms(1) _ op(2)] show ?thesis by simp
qed

lemma open_part_seal:
  assumes "aead_ok a" "length nonce = a_NonceSize a"
  shows "open_part a nonce fin (length p) (a_Seal a nonce p @ bs) = Inr (p, bs)"
  using aead_okD(1,2) [OF assms, of p] by (simp add: open_part_def)

lemma open_part_cut:
  assumes "aead_ok a" "length nonce = a_NonceSize a" "length bs < length p + a_Overhead a"
  shows "open_part a nonce fin (length p) bs = Inl (short_read_err (length bs) fin)"
  using assms(3) by (simp add: open_part_def)

lemma open_record_size:
  assumes "aead_ok a" "length nonce = a_NonceSize a" "ilen p \<le> payloadSizeMask"
  shows "open_record a nonce fin (a_Seal a nonce (be16 (length p)) @ bs) =
    open_part a (increment nonce) fin (length p) bs"
  using open_part_seal [OF assms(1,2), of fin "be16 (length p)"] assms(3)
  by (simp add: open_record_def payload_size_be16)

lemma open_record_record:
  assumes "aead_ok a" "length nonce = a_NonceSize a" "ilen p \<le> payloadSizeMask"
  shows "open_record a nonce fin (a_Seal a nonce (be16 (length p)) @ a_Seal a (increment nonce) p @ bs) = Inr (p, bs)"
  using assms by (simp add: open_record_size open_part_seal)

lemma decode_Inl: "open_record a nonce fin bs = Inl e \<Longrightarrow> decode a nonce fin bs = ([], e, bs)"
  by (simp add: decode.simps)

lemma decode_Inr:
  "open_record a nonce fin bs = Inr (p, rest) \<Longrightarrow>
   decode a nonce fin bs = (p # fst (decode a (increment (increment nonce)) fin rest),
                            snd (decode a (increment (increment nonce)) fin rest))"
  by (simp add: decode.simps [of a nonce] split_beta)

lemma decode_empty [simp]: "decode a nonce fin [] = ([], fin, [])"
  by (rule decode_Inl) (simp add: open_record_def open_part_def short_read_err_def)

lemma decode_records:
  assumes "aead_ok a" "length nonce = a_NonceSize a" "payloads_ok ps"
  shows "decode a nonce fin (records a nonce ps) = (ps, fin, [])"
  using assms(2,3)
  by (induction ps arbitrary: nonce) (simp_all add: decode_Inr open_record_record [OF assms(1)])

text \<open>A record stream cut anywhere decodes to a prefix of its payloads.\<close>

lemma open_record_cut:
  assumes "aead_ok a" "length nonce = a_NonceSize a" "ilen p \<le> payloadSizeMask"
    and "k < length (a_Seal a nonce (be16 (length p))) + length (a_Seal a (increment nonce) p)"
  shows "\<exists>e. open_record a nonce fin
           (take k (a_Seal a nonce (be16 (length p)) @ a_Seal a (increment nonce) p @ bs)) = Inl e"
proof (cases "k < 2 + a_Overhead a")
  case True
  then have "length (take k zs) < 2 + a_Overhead a" for zs :: bytes by simp
  then show ?thesis by (simp only: open_record_def open_part_def Let_def if_True sum.case) blast
next
  case False
  let ?s1 = "a_Seal a nonce (be16 (length p))" and ?s2 = "a_Seal a (increment nonce) p"
  let ?rest = "take (k - length ?s1) (?s2 @ bs)"
  have l1: "length ?s1 = 2 + a_Overhead a" and l2: "length ?s2 = length p + a_Overhead a"
    using assms(1,2) by (simp_all add: aead_okD)
  have "take k (?s1 @ ?s2 @ bs) = ?s1 @ ?rest"
    using False l1 by simp
  moreover have "length ?rest < length p + a_Overhead a"
    using assms(4) l1 l2 False by simp
  ultimately show ?thesis using assms(1-3)
    by (simp only: open_record_size) (simp only: open_part_cut length_increment, blast)
qed

lemma decode_prefix:
  assumes "aead_ok a" "length nonce = a_NonceSize a" "payloads_ok ps"
  shows "\<exists>j. fst (decode a nonce fin (take k (records a nonce ps))) = take j ps"
  using assms(2,3)
proof (induction ps arbitrary: nonce k)
  case Nil
  then show ?case by simp
next
  case (Cons p ps)
  let ?s1 = "a_Seal a nonce (be16 (length p))" and ?s2 = "a_Seal a (increment nonce) p"
  let ?n2 = "increment (increment nonce)"
  note prems = Cons.prems
  have pok: "ilen p \<le> payloadSizeMask" "payloads_ok ps" using prems by simp_all
  show ?case
  proof (cases "k < length ?s1 + length ?s2")
    case True
    then have "\<exists>e. open_record a nonce fin (take k (?s1 @ ?s2 @ records a ?n2 ps)) = Inl e"
      by (rule open_record_cut [OF assms(1) prems(1) pok(1)])
    then show ?thesis by (auto dest!: decode_Inl intro: exI [of _ 0])
  next
    case False
    then have "take k (records a nonce (p # ps)) = ?s1 @ ?s2 @ take (k - length ?s1 - length ?s2) (records a ?n2 ps)"
      by simp
    then have "open_record a nonce fin (take k (records a nonce (p # ps))) =
        Inr (p, take (k - length ?s1 - length ?s2) (records a ?n2 ps))"
      by (simp only: open_record_record [OF assms(1) prems(1) pok(1)])
    moreover obtain j where "fst (decode a ?n2 fin (take (k - length ?s1 - length ?s2) (records a ?n2 ps))) = take j ps"
      using Cons.IH [of ?n2] prems pok by auto
    ultimately show ?thesis
      by (intro exI [of _ "Suc j"]) (simp only: decode_Inr fst_conv take_Suc_Cons)
  qed
qed

subsection \<open>The reader against the wire format\<close>

definition sr_wf :: "'s sreader \<Rightarrow> bool" where
  "sr_wf r \<longleftrightarrow> aead_ok (r_AEAD r) \<and> length (r_nonce r) = a_NonceSize (r_AEAD r) \<and>
     ilen (r_buf r) = payloadSizeMask + r_Overhead r"

lemma sr_wf_newReader: "aead_ok a \<Longrightarrow> sr_wf (newReader s a)"
  by (simp add: sr_wf_def newReader_def psm)

text \<open>What \<open>reader_open\<close> and \<open>reader_read\<close> keep of the reader whatever they read.\<close>

definition sr_same :: "('s \<Rightarrow> bool) \<Rightarrow> ('s \<Rightarrow> goerr) \<Rightarrow> 's sreader \<Rightarrow> 's sreader \<Rightarrow> bool" where
  "sr_same good fin r r' \<longleftrightarrow> good (r_Reader r') \<and> sr_wf r' \<and> fin (r_Reader r') = fin (r_Reader r) \<and>
     r_AEAD r' = r_AEAD r \<and> r_leftover r' = r_leftover r"

lemma sr_same_trans: "sr_same good fin r r1 \<Longrightarrow> sr_same good fin r1 r2 \<Longrightarrow> sr_same good fin r r2"
  by (simp add: sr_same_def)

context stream_reader
begin

lemma reader_open_ok:
  assumes "good (r_Reader r)" "sr_wf r" "int k \<le> payloadSizeMask"
    and "open_part (r_AEAD r) (r_nonce r) (fin (r_Reader r)) k (content (r_Reader r)) = Inr (p, rest)"
  shows "\<exists>r'. reader_open rd r (int k + r_Overhead r) = ret (None, r') \<and> sr_same good fin r r' \<and>
           length p = k \<and> take k (r_buf r') = p \<and> content (r_Reader r') = rest \<and>
           r_nonce r' = increment (r_nonce r)"
proof -
  let ?n = "k + a_Overhead (r_AEAD r)" and ?c = "content (r_Reader r)"
  let ?p = "seg (r_buf r) 0 (int ?n)"
  have buf: "int ?n \<le> ilen (r_buf r)" using assms(2,3) by (simp add: sr_wf_def)
  then have len: "length ?p = ?n" by (simp add: length_seg)
  from assms(4) have op: "?n \<le> length ?c" "a_Open (r_AEAD r) (r_nonce r) (take ?n ?c) = Some p" "rest = drop ?n ?c"
    by (auto simp: open_part_def Let_def split: if_splits option.splits)
  have lp: "length p = k"
    using aead_okD(3) [OF _ _ op(2)] assms(2) op(1) by (simp add: sr_wf_def)
  from ReadFull_enough [OF assms(1), of ?p] op(1) len obtain s' where
    "ReadFull rd (r_Reader r) ?p = ret (int ?n, take ?n ?c, None, s')" "good s'"
    "content s' = rest" "fin s' = fin (r_Reader r)"
    by (auto simp: op(3))
  then show ?thesis using assms(2) buf op(2) lp
    by (auto simp: reader_open_def Let_def sr_same_def sr_wf_def take_overwrite_0)
qed

lemma reader_open_err:
  assumes "good (r_Reader r)" "sr_wf r" "int k \<le> payloadSizeMask"
    and "open_part (r_AEAD r) (r_nonce r) (fin (r_Reader r)) k (content (r_Reader r)) = Inl e"
  shows "\<exists>r'. reader_open rd r (int k + r_Overhead r) = ret (Some e, r') \<and> sr_same good fin r r' \<and>
           (length (content (r_Reader r)) < k + a_Overhead (r_AEAD r) \<longrightarrow>
              content (r_Reader r') = [] \<and> r_nonce r' = r_nonce r)"
proof -
  let ?n = "k + a_Overhead (r_AEAD r)" and ?c = "content (r_Reader r)"
  let ?p = "seg (r_buf r) 0 (int ?n)"
  have buf: "int ?n \<le> ilen (r_buf r)" using assms(2,3) by (simp add: sr_wf_def)
  then have len: "length ?p = ?n" by (simp add: length_seg)
  show ?thesis
  proof (cases "length ?c < ?n")
    case True
    with ReadFull_short [OF assms(1), of ?p] len assms(2,4) buf show ?thesis
      by (auto simp: reader_open_def open_part_def Let_def sr_same_def sr_wf_def)
  next
    case False
    with ReadFull_enough [OF assms(1), of ?p] len assms(2,4) buf show ?thesis
      by (auto simp: reader_open_def open_part_def Let_def sr_same_def sr_wf_def split: option.splits)
  qed
qed

text \<open>\<^verbatim>\<open>read()\<close> takes one record off the stream, or reports why it cannot, as \<open>open_record\<close> says.\<close>

lemma reader_read_halves:
  assumes "reader_open rd r (2 + r_Overhead r) = ret (None, r1)" "sr_wf r1"
    and "reader_open rd r1 (payload_size (r_buf r1 ! 0) (r_buf r1 ! 1) + r_Overhead r1) = ret (e, r2)"
  shows "reader_read rd r =
    ret (case e of None \<Rightarrow> payload_size (r_buf r1 ! 0) (r_buf r1 ! 1) | Some _ \<Rightarrow> 0, e, r2)"
proof -
  have "0 < ilen (r_buf r1)" "1 < ilen (r_buf r1)" using assms(2) by (simp_all add: sr_wf_def psm)
  with assms show ?thesis by (simp add: reader_read_def split: option.split)
qed

lemma reader_size:
  assumes "good (r_Reader r)" "sr_wf r"
    and "open_part (r_AEAD r) (r_nonce r) (fin (r_Reader r)) 2 (content (r_Reader r)) = Inr (sz, bs)"
  shows "\<exists>r1. reader_open rd r (2 + r_Overhead r) = ret (None, r1) \<and> sr_same good fin r r1 \<and>
           payload_size (r_buf r1 ! 0) (r_buf r1 ! 1) = payload_size (sz ! 0) (sz ! 1) \<and>
           content (r_Reader r1) = bs \<and> r_nonce r1 = increment (r_nonce r)"
proof -
  have "int 2 \<le> payloadSizeMask" by (simp add: psm)
  from reader_open_ok [OF assms(1,2) this assms(3)] obtain r1 where
    r1: "reader_open rd r (2 + r_Overhead r) = ret (None, r1)" "sr_same good fin r r1"
      "take 2 (r_buf r1) = sz" "content (r_Reader r1) = bs" "r_nonce r1 = increment (r_nonce r)"
    by auto
  then have "sz ! 0 = r_buf r1 ! 0" "sz ! 1 = r_buf r1 ! 1" by auto
  with r1 show ?thesis by auto
qed

lemma reader_read_ok:
  assumes "good (r_Reader r)" "sr_wf r"
    and "open_record (r_AEAD r) (r_nonce r) (fin (r_Reader r)) (content (r_Reader r)) = Inr (p, rest)"
  shows "\<exists>r'. reader_read rd r = ret (ilen p, None, r') \<and> sr_same good fin r r' \<and>
           take (length p) (r_buf r') = p \<and> ilen p \<le> payloadSizeMask \<and> content (r_Reader r') = rest \<and>
           r_nonce r' = increment (increment (r_nonce r))"
proof -
  from assms(3) obtain sz bs where
    p1: "open_part (r_AEAD r) (r_nonce r) (fin (r_Reader r)) 2 (content (r_Reader r)) = Inr (sz, bs)"
    and p2: "open_part (r_AEAD r) (increment (r_nonce r)) (fin (r_Reader r))
               (nat (payload_size (sz ! 0) (sz ! 1))) bs = Inr (p, rest)"
    by (auto simp: open_record_def split: sum.splits)
  from reader_size [OF assms(1,2) p1] obtain r1 where
    ro: "reader_open rd r (2 + r_Overhead r) = ret (None, r1)" and same: "sr_same good fin r r1"
    and size: "payload_size (r_buf r1 ! 0) (r_buf r1 ! 1) = payload_size (sz ! 0) (sz ! 1)"
    and r1: "content (r_Reader r1) = bs" "r_nonce r1 = increment (r_nonce r)"
    by blast
  define k where "k = nat (payload_size (sz ! 0) (sz ! 1))"
  have k: "payload_size (sz ! 0) (sz ! 1) = int k" "int k \<le> payloadSizeMask"
    using payload_size_range by (simp_all add: k_def)
  have g1: "good (r_Reader r1)" "sr_wf r1" using same by (simp_all add: sr_same_def)
  have p2': "open_part (r_AEAD r1) (r_nonce r1) (fin (r_Reader r1)) k (content (r_Reader r1)) = Inr (p, rest)"
    using p2 r1 same by (simp add: sr_same_def k_def)
  from reader_open_ok [OF g1 k(2) p2'] obtain r2 where
    ro2: "reader_open rd r1 (int k + r_Overhead r1) = ret (None, r2)" and same2: "sr_same good fin r1 r2"
    and r2: "length p = k" "take k (r_buf r2) = p" "content (r_Reader r2) = rest" "r_nonce r2 = increment (r_nonce r1)"
    by blast
  from reader_read_halves [OF ro g1(2)] ro2 have "reader_read rd r = ret (int k, None, r2)"
    unfolding size k(1) by force
  with r1(2) r2 k(2) sr_same_trans [OF same same2] show ?thesis by auto
qed

lemma reader_read_err:
  assumes "good (r_Reader r)" "sr_wf r"
    and "open_record (r_AEAD r) (r_nonce r) (fin (r_Reader r)) (content (r_Reader r)) = Inl e"
  shows "\<exists>r'. reader_read rd r = ret (0, Some e, r') \<and> sr_same good fin r r' \<and>
           (content (r_Reader r) = [] \<longrightarrow> content (r_Reader r') = [] \<and> r_nonce r' = r_nonce r)"
proof (cases "open_part (r_AEAD r) (r_nonce r) (fin (r_Reader r)) 2 (content (r_Reader r))")
  case (Inl e')
  have two: "int 2 \<le> payloadSizeMask" by (simp add: psm)
  from assms(3) reader_open_err [OF assms(1,2) two Inl] Inl show ?thesis
    by (auto simp: open_record_def reader_read_def)
next
  case (Inr q)
  then obtain sz bs where p1: "open_part (r_AEAD r) (r_nonce r) (fin (r_Reader r)) 2 (content (r_Reader r)) = Inr (sz, bs)"
    by (cases q) auto
  from reader_size [OF assms(1,2) p1] obtain r1 where
    ro: "reader_open rd r (2 + r_Overhead r) = ret (None, r1)" and same: "sr_same good fin r r1"
    and size: "payload_size (r_buf r1 ! 0) (r_buf r1 ! 1) = payload_size (sz ! 0) (sz ! 1)"
    and r1: "content (r_Reader r1) = bs" "r_nonce r1 = increment (r_nonce r)"
    by blast
  define k where "k = nat (payload_size (sz ! 0) (sz ! 1))"
  have k: "payload_size (sz ! 0) (sz ! 1) = int k" "int k \<le> payloadSizeMask"
    using payload_size_range by (simp_all add: k_def)
  have g1: "good (r_Reader r1)" "sr_wf r1" using same by (simp_all add: sr_same_def)
  have p2: "open_part (r_AEAD r1) (r_nonce r1) (fin (r_Reader r1)) k (content (r_Reader r1)) = Inl e"
    using assms(3) p1 r1 same by (simp add: sr_same_def k_def open_record_def)
  from reader_open_err [OF g1 k(2) p2] obtain r2 where
    ro2: "reader_open rd r1 (int k + r_Overhead r1) = ret (Some e, r2)" and same2: "sr_same good fin r1 r2"
    by blast
  from reader_read_halves [OF ro g1(2)] ro2 have "reader_read rd r = ret (0, Some e, r2)"
    unfolding size k(1) by force
  moreover have "content (r_Reader r) \<noteq> []" using open_part_shorter [OF p1] by auto
  ultimately show ?thesis using sr_same_trans [OF same same2] by auto
qed

end

text \<open>
  The reader as a stream of its own: what is to come are the leftover bytes and the payloads of the
  records to come.  It is good when the whole underlying stream decodes.
\<close>

definition sr_decode :: "('s \<Rightarrow> bytes) \<Rightarrow> ('s \<Rightarrow> goerr) \<Rightarrow> 's sreader \<Rightarrow> bytes list \<times> goerr \<times> bytes" where
  "sr_decode content fin r = decode (r_AEAD r) (r_nonce r) (fin (r_Reader r)) (content (r_Reader r))"

definition sr_content :: "('s \<Rightarrow> bytes) \<Rightarrow> ('s \<Rightarrow> goerr) \<Rightarrow> 's sreader \<Rightarrow> bytes" where
  "sr_content content fin r = r_leftover r @ concat (fst (sr_decode content fin r))"

definition sr_good :: "('s \<Rightarrow> bytes) \<Rightarrow> ('s \<Rightarrow> goerr) \<Rightarrow> ('s \<Rightarrow> bool) \<Rightarrow> 's sreader \<Rightarrow> bool" where
  "sr_good content fin good r \<longleftrightarrow>
     good (r_Reader r) \<and> sr_wf r \<and> snd (snd (sr_decode content fin r)) = []"

definition sr_left :: "('s \<Rightarrow> bytes) \<Rightarrow> 's sreader \<Rightarrow> nat" where
  "sr_left content r = length (r_leftover r) + length (content (r_Reader r))"

lemmas sr_defs = sr_decode_def sr_content_def sr_good_def sr_left_def

lemma sr_decode_leftover [simp]: "sr_decode content fin (r\<lparr>r_leftover := x\<rparr>) = sr_decode content fin r"
  by (simp add: sr_decode_def)

lemma sr_wf_leftover [simp]: "sr_wf (r\<lparr>r_leftover := x\<rparr>) = sr_wf r"
  by (simp add: sr_wf_def)

locale record_stream = stream_reader
begin

lemma read_leftover:
  assumes "sr_good content fin good r" "p \<noteq> []" "r_leftover r \<noteq> []"
  shows "\<exists>k p' e r'. reader_Read rd r p = ret (int k, p', e, r') \<and> sr_good content fin good r' \<and>
           read_step (sr_content content fin) (\<lambda>r. fin (r_Reader r)) (sr_left content) r p k p' e r'"
proof -
  let ?k = "min (length p) (length (r_leftover r))"
  have "reader_Read rd r p =
      ret (int ?k, overwrite p 0 (r_leftover r), None, r\<lparr>r_leftover := drop ?k (r_leftover r)\<rparr>)"
    using assms(3) by (simp add: reader_Read_def Let_def)
  moreover from assms(2,3) have "0 < ?k" by simp
  ultimately show ?thesis
    using assms(1,3) by (auto simp: sr_defs read_step_def take_overwrite_0)
qed

lemma read_record:
  assumes "sr_good content fin good r" "p \<noteq> []" "r_leftover r = []"
  shows "\<exists>k p' e r'. reader_Read rd r p = ret (int k, p', e, r') \<and> sr_good content fin good r' \<and>
           read_step (sr_content content fin) (\<lambda>r. fin (r_Reader r)) (sr_left content) r p k p' e r'"
proof (cases "open_record (r_AEAD r) (r_nonce r) (fin (r_Reader r)) (content (r_Reader r))")
  case (Inl e)
  have g: "good (r_Reader r)" "sr_wf r" using assms(1) by (simp_all add: sr_good_def)
  from decode_Inl [OF Inl] assms(1) have c: "content (r_Reader r) = []" by (simp add: sr_defs)
  with Inl have e: "e = fin (r_Reader r)"
    by (simp add: open_record_def open_part_def short_read_err_def)
  from reader_read_err [OF g Inl] c obtain r' where
    "reader_read rd r = ret (0, Some e, r')" "sr_same good fin r r'" "content (r_Reader r') = []"
    by auto
  then show ?thesis using assms(3) c e
    by (auto simp: reader_Read_def sr_defs sr_same_def read_step_def overwrite_def)
next
  case (Inr z)
  then obtain q rest where op: "open_record (r_AEAD r) (r_nonce r) (fin (r_Reader r)) (content (r_Reader r)) = Inr (q, rest)"
    by (cases z) auto
  have g: "good (r_Reader r)" "sr_wf r" using assms(1) by (simp_all add: sr_good_def)
  from reader_read_ok [OF g op] obtain r' where
    rr: "reader_read rd r = ret (ilen q, None, r')" and same: "sr_same good fin r r'"
    and q: "take (length q) (r_buf r') = q" "ilen q \<le> payloadSizeMask"
    and r': "content (r_Reader r') = rest" "r_nonce r' = increment (increment (r_nonce r))"
    by blast
  let ?k = "min (length p) (length q)"
  have lb: "ilen q \<le> ilen (r_buf r')" using same q(2) by (simp add: sr_same_def sr_wf_def)
  have "reader_Read rd r p =
      ret (int ?k, overwrite p 0 q, None, r'\<lparr>r_leftover := drop ?k q\<rparr>)"
    using assms(3) rr lb same q(1)
    by (auto simp: reader_Read_def Let_def seg_0 seg_nat sr_same_def min_def)
  moreover have "sr_decode content fin r = (q # fst (sr_decode content fin r'), snd (sr_decode content fin r'))"
    using decode_Inr [OF op] same r' by (simp add: sr_decode_def sr_same_def)
  moreover have "length rest + length q < length (content (r_Reader r))"
    using open_record_length [OF _ _ op] g(2) by (simp add: sr_wf_def)
  ultimately show ?thesis
    using assms(1,3) same r'
    by (auto simp: sr_content_def sr_good_def sr_left_def read_step_def take_overwrite_0 sr_same_def)
qed

end

sublocale record_stream \<subseteq> plain: stream_reader "reader_Read rd" "sr_content content fin" "\<lambda>r. fin (r_Reader r)"
  "sr_good content fin good" "sr_left content"
  by unfold_locales (use read_leftover read_record in blast)

interpretation wire: record_stream conn_Read conn_content c_fin "\<lambda>_. True" conn_left
  by unfold_locales

end
