(* ===== verification/Shadow_Pump.thy ===== *)
theory Shadow_Pump
  imports Shadow_Stream
begin

text \<open>
  The two copying loops of \<^verbatim>\<open>m_shadow/stream.go\<close>, \<open>writer.ReadFrom\<close> and \<open>reader.WriteTo\<close>, over any source
  that is a \<open>stream_reader\<close> and any destination that is a \<open>byte_sink\<close>.
\<close>

subsection \<open>Sealing a record in the writer's buffer\<close>

definition sw_wf :: "'w swriter \<Rightarrow> bool" where
  "sw_wf w \<longleftrightarrow> aead_ok (w_AEAD w) \<and> length (w_nonce w) = a_NonceSize (w_AEAD w) \<and>
     ilen (w_buf w) = 2 + w_Overhead w + payloadSizeMask + w_Overhead w"

lemma sw_wf_newWriter: "aead_ok a \<Longrightarrow> sw_wf (newWriter v a)"
  by (simp add: sw_wf_def newWriter_def psm)

lemma sw_wf_Writer [simp]: "sw_wf (w\<lparr>w_Writer := v\<rparr>) = sw_wf w"
  by (simp add: sw_wf_def)

lemma writer_seal_parts:
  assumes "aead_ok (w_AEAD w)" "length (w_nonce w) = a_NonceSize (w_AEAD w)"
    and "w_buf w = (x # y # h) @ p @ t" "length h = a_Overhead (w_AEAD w)" "a_Overhead (w_AEAD w) \<le> length t"
  shows "\<exists>b. length b = length (w_buf w) \<and> writer_seal w (ilen p) =
    ret (a_Seal (w_AEAD w) (w_nonce w) (be16 (length p)) @ a_Seal (w_AEAD w) (increment (w_nonce w)) p,
         w\<lparr>w_buf := b, w_nonce := increment (increment (w_nonce w))\<rparr>)"
proof -
  let ?ov = "a_Overhead (w_AEAD w)" and ?a = "w_AEAD w"
  let ?s1 = "a_Seal ?a (w_nonce w) (be16 (length p))" and ?s2 = "a_Seal ?a (increment (w_nonce w)) p"
  let ?e = "take ?ov t" and ?hi = "word_of_int (drop_bit 8 (ilen p)) :: byte" and ?lo = "word_of_int (ilen p) :: byte"
  have l: "length ?s1 = 2 + ?ov" "length ?s2 = length p + ?ov" "length ?e = ?ov"
    using assms by (simp_all add: aead_okD)
  have cut: "seg (w_buf w) 0 (2 + int ?ov + ilen p + int ?ov) = (x # y # h) @ p @ ?e"
  proof -
    have "nat (2 + int ?ov + ilen p + int ?ov) = 2 + ?ov + length p + ?ov" by simp
    then show ?thesis using assms(3,4) by (simp only: seg_0) simp
  qed
  have size: "seg ((?hi # ?lo # h) @ p @ ?e) 0 2 = be16 (length p)"
    by (simp add: seg_0 be16_def)
  have o1: "overwrite ((?hi # ?lo # h) @ p @ ?e) 0 ?s1 = ?s1 @ p @ ?e"
    using l assms(4) by (simp add: overwrite_def)
  have pl: "seg (?s1 @ p @ ?e) (2 + int ?ov) (2 + int ?ov + ilen p) = p"
    using l by (simp add: seg_def nat_add_distrib)
  have o2: "overwrite (?s1 @ p @ ?e) (2 + int ?ov) ?s2 = ?s1 @ ?s2"
    using l by (simp add: overwrite_def nat_add_distrib)
  have "writer_seal w (ilen p) =
    ret (?s1 @ ?s2, w\<lparr>w_buf := overwrite (w_buf w) 0 (?s1 @ ?s2), w_nonce := increment (increment (w_nonce w))\<rparr>)"
    unfolding writer_seal_def Let_def
    using cut size o1 pl o2 l assms(3-5) by simp
  then show ?thesis by (intro exI [of _ "overwrite (w_buf w) 0 (?s1 @ ?s2)"]) simp
qed

lemma writer_seal_spec:
  assumes "sw_wf w" "int k \<le> payloadSizeMask"
  shows "\<exists>w'. writer_seal w (int k) =
      ret (a_Seal (w_AEAD w) (w_nonce w) (be16 k) @
           a_Seal (w_AEAD w) (increment (w_nonce w)) (seg (w_buf w) (2 + w_Overhead w) (2 + w_Overhead w + int k)), w') \<and>
    sw_wf w' \<and> w_Writer w' = w_Writer w \<and> w_AEAD w' = w_AEAD w \<and> w_nonce w' = increment (increment (w_nonce w))"
proof -
  let ?ov = "a_Overhead (w_AEAD w)" and ?B = "w_buf w"
  have len: "length ?B = 2 + ?ov + 16383 + ?ov" "k \<le> 16383"
    using assms by (simp_all add: sw_wf_def psm)
  define p t where "p = take k (drop (2 + ?ov) ?B)" and "t = drop (2 + ?ov + k) ?B"
  obtain x y h where h: "take (2 + ?ov) ?B = x # y # h" "length h = ?ov"
    using len(1) by (cases ?B; cases "tl ?B") auto
  have "?B = take (2 + ?ov) ?B @ p @ t"
    unfolding p_def t_def by (metis append_take_drop_id drop_drop add.commute)
  with h have B: "?B = (x # y # h) @ p @ t" by simp
  have "length p = k" "?ov \<le> length t" using len by (simp_all add: p_def t_def)
  moreover have "seg ?B (2 + int ?ov) (2 + int ?ov + int k) = p"
    by (simp add: seg_def p_def nat_add_distrib)
  ultimately show ?thesis
    using writer_seal_parts [OF _ _ B h(2)] assms(1) by (auto simp: sw_wf_def)
qed

lemma records_append:
  "records a nonce (ps @ qs) = records a nonce ps @ records a ((increment ^^ (2 * length ps)) nonce) qs"
  by (induction ps arbitrary: nonce) (simp_all add: funpow_swap1)

subsection \<open>The copying loops\<close>

text \<open>
  A run of the writer from \<open>w\<close> and source \<open>s\<close> to \<open>w'\<close> and \<open>s'\<close>: it consumed the non-empty payloads \<open>ps\<close>, and
  what is on the wire, followed by \<open>rest\<close>, is their record stream.
\<close>

definition sealed_run ::
  "('s \<Rightarrow> bytes) \<Rightarrow> ('w \<Rightarrow> bytes) \<Rightarrow> 'w swriter \<Rightarrow> 's \<Rightarrow> bytes list \<Rightarrow> bytes \<Rightarrow> 'w swriter \<Rightarrow> 's \<Rightarrow> bool" where
  "sealed_run content sent w s ps rest w' s' \<longleftrightarrow>
     payloads_ok ps \<and> [] \<notin> set ps \<and> content s = concat ps @ content s' \<and>
     sent (w_Writer w') @ rest = sent (w_Writer w) @ records (w_AEAD w) (w_nonce w) ps \<and>
     sw_wf w' \<and> w_AEAD w' = w_AEAD w \<and> w_nonce w' = (increment ^^ (2 * length ps)) (w_nonce w)"

locale pump =
  src: stream_reader rd content fin good left + dst: byte_sink wr sent usable
  for rd :: "'s reader_fn" and content fin good left and wr :: "'w writer_fn" and sent usable
begin

definition sink_fails :: "goerr \<Rightarrow> bool" where
  "sink_fails e \<longleftrightarrow> (\<exists>v b k v'. usable v \<and> wr v b = ret (k, Some e, v'))"

text \<open>
  How a copying loop may end with the error \<open>err\<close> when \<open>rest\<close> was not written and the source is at \<open>s'\<close>:
  either the source is exhausted (its \<open>EOF\<close> is no error), or the sink failed.
\<close>

definition ended :: "'s \<Rightarrow> goerr option \<Rightarrow> bytes \<Rightarrow> 's \<Rightarrow> bool" where
  "ended s err rest s' \<longleftrightarrow>
     (rest = [] \<and> content s' = [] \<and> err = (if fin s = EOF then None else Some (fin s))) \<or>
     (\<exists>e. err = Some e \<and> sink_fails e)"

lemma sealed_run_trans:
  assumes "sealed_run content sent w s ps [] w1 s1" "sealed_run content sent w1 s1 qs rest w2 s2"
  shows "sealed_run content sent w s (ps @ qs) rest w2 s2"
proof -
  have "2 * length (ps @ qs) = 2 * length qs + 2 * length ps" by simp
  then have "(increment ^^ (2 * length (ps @ qs))) nonce =
      (increment ^^ (2 * length qs)) ((increment ^^ (2 * length ps)) nonce)" for nonce
    by (simp only: funpow_add comp_apply)
  then show ?thesis using assms by (auto simp: sealed_run_def records_append)
qed

lemma ended_source: "fin s' = fin s \<Longrightarrow> ended s' = ended s"
  by (simp add: ended_def fun_eq_iff)

lemma writer_step:
  assumes "good s" "sw_wf w"
  obtains k p' e s' w1 where
    "go_slice (w_buf w) (2 + w_Overhead w) (2 + w_Overhead w + payloadSizeMask) =
       ret (seg (w_buf w) (2 + w_Overhead w) (2 + w_Overhead w + payloadSizeMask))"
    "rd s (seg (w_buf w) (2 + w_Overhead w) (2 + w_Overhead w + payloadSizeMask)) = ret (int k, p', e, s')"
    "w1 = w\<lparr>w_buf := overwrite (w_buf w) (2 + w_Overhead w) p'\<rparr>" "sw_wf w1"
    "good s'" "content s = take k p' @ content s'" "fin s' = fin s" "int k \<le> payloadSizeMask" "k \<le> length p'"
    "seg (w_buf w1) (2 + w_Overhead w) (2 + w_Overhead w + int k) = take k p'"
    "e = None \<longrightarrow> left s' < left s" "\<forall>x. e = Some x \<longrightarrow> x = fin s \<and> content s' = []"
proof -
  let ?lo = "2 + w_Overhead w" and ?B = "w_buf w"
  let ?p = "seg ?B ?lo (?lo + payloadSizeMask)"
  have len: "ilen ?B = ?lo + payloadSizeMask + w_Overhead w" using assms(2) by (simp add: sw_wf_def)
  have lp: "ilen ?p = payloadSizeMask" using len by (simp add: length_seg psm)
  then have "?p \<noteq> []" by (auto simp: psm)
  with assms(1) obtain k p' e s' where
    r: "rd s ?p = ret (int k, p', e, s')" "good s'" "k \<le> length ?p" "length p' = length ?p"
    "content s = take k p' @ content s'" "fin s' = fin s" "left s' \<le> left s" "e = None \<longrightarrow> left s' < left s"
    "\<forall>x. e = Some x \<longrightarrow> x = fin s \<and> content s' = []"
    by (rule src.readE)
  have lo: "0 \<le> ?lo" "?lo \<le> ilen ?B" "?lo + ilen p' \<le> ilen ?B" using len r(4) lp by (simp_all add: psm)
  define w1 where "w1 = w\<lparr>w_buf := overwrite ?B ?lo p'\<rparr>"
  have "seg (w_buf w1) ?lo (?lo + int k) = take k p'"
    using lo r(3,4) by (simp add: w1_def seg_overwrite_prefix)
  moreover have "sw_wf w1" using assms(2) lo by (simp add: w1_def sw_wf_def)
  ultimately show thesis
    using that [OF _ r(1) w1_def] r lp len by (simp add: psm)
qed

lemma writer_iter_empty:
  assumes "good s'" "usable (w_Writer w)" "sw_wf w1" "content s' = content s" "fin s' = fin s"
    and "w_Writer w1 = w_Writer w" "w_AEAD w1 = w_AEAD w" "w_nonce w1 = w_nonce w"
    and "e = None \<longrightarrow> left s' < left s" "\<forall>x. e = Some x \<longrightarrow> x = fin s \<and> content s' = []"
    and "L = (case e of Some x \<Rightarrow> ret (n, (if x \<noteq> EOF then Some x else None), w1, s')
              | None \<Rightarrow> writer_ReadFrom_loop wr rd w1 s' n)"
  shows "\<exists>ps rest w' s'. good s' \<and> usable (w_Writer w') \<and> fin s' = fin s \<and> sealed_run content sent w s ps rest w' s' \<and>
    ((\<exists>err. L = ret (n + ilen (concat ps), err, w', s') \<and> ended s err rest s') \<or>
     (L = writer_ReadFrom_loop wr rd w' s' (n + ilen (concat ps)) \<and> rest = [] \<and> left s' < left s))"
proof -
  have "sealed_run content sent w s [] [] w1 s'" using assms(3-8) by (simp add: sealed_run_def)
  with assms show ?thesis
    by (intro exI [of _ "[]"] exI [of _ "[]"] exI [of _ w1] exI [of _ s'])
      (auto simp: ended_def split: option.splits)
qed

lemma writer_iter_record:
  assumes "good s'" "usable v" "sw_wf w2" "content s = p @ content s'" "fin s' = fin s"
    and "w_AEAD w2 = w_AEAD w" "w_nonce w2 = increment (increment (w_nonce w))" "p \<noteq> []" "ilen p \<le> payloadSizeMask"
    and "rec = a_Seal (w_AEAD w) (w_nonce w) (be16 (length p)) @ a_Seal (w_AEAD w) (increment (w_nonce w)) p"
    and "usable (w_Writer w)" "wr (w_Writer w) rec = ret (int j, ew, v)" "write_step sent (w_Writer w) rec j ew v"
    and "e = None \<longrightarrow> left s' < left s" "\<forall>x. e = Some x \<longrightarrow> x = fin s \<and> content s' = []"
    and "L = (case ew of Some x \<Rightarrow> ret (n + ilen p, Some x, w2\<lparr>w_Writer := v\<rparr>, s')
         | None \<Rightarrow> (case e of Some x \<Rightarrow> ret (n + ilen p, (if x \<noteq> EOF then Some x else None), w2\<lparr>w_Writer := v\<rparr>, s')
                    | None \<Rightarrow> writer_ReadFrom_loop wr rd (w2\<lparr>w_Writer := v\<rparr>) s' (n + ilen p)))"
  shows "\<exists>ps rest w' s'. good s' \<and> usable (w_Writer w') \<and> fin s' = fin s \<and> sealed_run content sent w s ps rest w' s' \<and>
    ((\<exists>err. L = ret (n + ilen (concat ps), err, w', s') \<and> ended s err rest s') \<or>
     (L = writer_ReadFrom_loop wr rd w' s' (n + ilen (concat ps)) \<and> rest = [] \<and> left s' < left s))"
proof -
  have "records (w_AEAD w) (w_nonce w) [p] = rec" by (simp add: assms(10))
  moreover have "sent v @ drop j rec = sent (w_Writer w) @ rec"
    using assms(13) by (simp add: write_step_def)
  ultimately have "sealed_run content sent w s [p] (drop j rec) (w2\<lparr>w_Writer := v\<rparr>) s'"
    using assms(3-9) by (simp add: sealed_run_def numeral_2_eq_2)
  moreover have "ew = None \<longrightarrow> drop j rec = []" using assms(13) by (auto simp: write_step_def)
  moreover have "sink_fails x" if "ew = Some x" for x using assms(11,12) that by (auto simp: sink_fails_def)
  ultimately show ?thesis using assms(1,2,5,14-16)
    by (intro exI [of _ "[p]"] exI [of _ "drop j rec"] exI [of _ "w2\<lparr>w_Writer := v\<rparr>"] exI [of _ s'])
      (auto simp: ended_def split: option.splits)
qed

lemma writer_iter:
  fixes n :: int
  assumes "good s" "usable (w_Writer w)" "sw_wf w"
  defines "L \<equiv> writer_ReadFrom_loop wr rd w s n"
  shows "\<exists>ps rest w' s'. good s' \<and> usable (w_Writer w') \<and> fin s' = fin s \<and> sealed_run content sent w s ps rest w' s' \<and>
    ((\<exists>err. L = ret (n + ilen (concat ps), err, w', s') \<and> ended s err rest s') \<or>
     (L = writer_ReadFrom_loop wr rd w' s' (n + ilen (concat ps)) \<and> rest = [] \<and> left s' < left s))"
proof -
  from assms(1,3) obtain k p' e s' w1 where
    sl: "go_slice (w_buf w) (2 + w_Overhead w) (2 + w_Overhead w + payloadSizeMask) =
       ret (seg (w_buf w) (2 + w_Overhead w) (2 + w_Overhead w + payloadSizeMask))"
    and rd: "rd s (seg (w_buf w) (2 + w_Overhead w) (2 + w_Overhead w + payloadSizeMask)) = ret (int k, p', e, s')"
    and w1: "w1 = w\<lparr>w_buf := overwrite (w_buf w) (2 + w_Overhead w) p'\<rparr>" "sw_wf w1"
    and s': "good s'" "content s = take k p' @ content s'" "fin s' = fin s"
    and k: "int k \<le> payloadSizeMask" "k \<le> length p'"
      "seg (w_buf w1) (2 + w_Overhead w) (2 + w_Overhead w + int k) = take k p'"
    and e: "e = None \<longrightarrow> left s' < left s" "\<forall>x. e = Some x \<longrightarrow> x = fin s \<and> content s' = []"
    by (rule writer_step)
  note loop = L_def writer_ReadFrom_loop.simps [of wr rd w s n, unfolded sl gobind_simps rd Let_def]
  have same: "w_Writer w1 = w_Writer w" "w_AEAD w1 = w_AEAD w" "w_nonce w1 = w_nonce w" by (simp_all add: w1(1))
  show ?thesis
  proof (cases "k = 0")
    case True
    with s'(2) have "content s' = content s" by simp
    then show ?thesis
      by (rule writer_iter_empty [OF s'(1) assms(2) w1(2) _ s'(3) same e])
        (use True in \<open>simp add: loop split: option.split flip: w1(1)\<close>)
  next
    case False
    let ?rec = "a_Seal (w_AEAD w) (w_nonce w) (be16 k) @ a_Seal (w_AEAD w) (increment (w_nonce w)) (take k p')"
    from writer_seal_spec [OF w1(2) k(1)] k(3) same obtain w2 where
      seal: "writer_seal w1 (int k) = ret (?rec, w2)" and w2: "sw_wf w2" "w_Writer w2 = w_Writer w"
        "w_AEAD w2 = w_AEAD w" "w_nonce w2 = increment (increment (w_nonce w))"
      by auto
    from dst.write_spec [OF assms(2), of ?rec] obtain j ew v where
      wr: "wr (w_Writer w) ?rec = ret (int j, ew, v)" and v: "usable v" "write_step sent (w_Writer w) ?rec j ew v"
      by blast
    have p: "take k p' \<noteq> []" "ilen (take k p') \<le> payloadSizeMask" "length (take k p') = k" using False k by auto
    show ?thesis
      by (rule writer_iter_record [OF s'(1) v(1) w2(1) s'(2,3) w2(3,4) p(1,2) _ assms(2) wr v(2) e])
        (use False seal wr w2(2) p(3) in \<open>simp_all add: loop split: option.split flip: w1(1)\<close>)
  qed
qed

lemma writer_ReadFrom_loop_spec:
  assumes "good s" "usable (w_Writer w)" "sw_wf w"
  shows "\<exists>ps rest err w' s'. writer_ReadFrom_loop wr rd w s n = ret (n + ilen (concat ps), err, w', s') \<and>
           good s' \<and> usable (w_Writer w') \<and> fin s' = fin s \<and>
           sealed_run content sent w s ps rest w' s' \<and> ended s err rest s'"
  using assms
proof (induction "left s" arbitrary: s w n rule: less_induct)
  case less
  from writer_iter [OF less.prems, of n] obtain ps rest w' s' where
    it: "good s'" "usable (w_Writer w')" "fin s' = fin s" "sealed_run content sent w s ps rest w' s'"
    and alt: "(\<exists>err. writer_ReadFrom_loop wr rd w s n = ret (n + ilen (concat ps), err, w', s') \<and> ended s err rest s') \<or>
     (writer_ReadFrom_loop wr rd w s n = writer_ReadFrom_loop wr rd w' s' (n + ilen (concat ps)) \<and>
      rest = [] \<and> left s' < left s)"
    by blast
  from alt show ?case
  proof
    assume "\<exists>err. writer_ReadFrom_loop wr rd w s n = ret (n + ilen (concat ps), err, w', s') \<and> ended s err rest s'"
    with it show ?thesis by blast
  next
    assume go: "writer_ReadFrom_loop wr rd w s n = writer_ReadFrom_loop wr rd w' s' (n + ilen (concat ps)) \<and>
      rest = [] \<and> left s' < left s"
    have "sw_wf w'" using it(4) by (simp add: sealed_run_def)
    with less.hyps go it(1,2) obtain qs rest2 err w2 s2 where
      r: "writer_ReadFrom_loop wr rd w' s' (n + ilen (concat ps)) = ret (n + ilen (concat ps) + ilen (concat qs), err, w2, s2)"
        "good s2" "usable (w_Writer w2)" "fin s2 = fin s'" "sealed_run content sent w' s' qs rest2 w2 s2" "ended s' err rest2 s2"
      by blast
    have "sealed_run content sent w s (ps @ qs) rest2 w2 s2"
      using it(4) go r(5) sealed_run_trans by blast
    with go r it(3) show ?thesis
      by (intro exI [of _ "ps @ qs"] exI [of _ rest2] exI [of _ err] exI [of _ w2] exI [of _ s2])
        (simp add: ended_source [OF it(3)])
  qed
qed

text \<open>
  \<^verbatim>\<open>WriteTo\<close> after \<open>k\<close> of the bytes \<open>out\<close> were written: it ran to the end of the source, whose error is \<open>e\<close>
  (\<open>EOF\<close> is none), or the sink failed.
\<close>

definition drained :: "'w \<Rightarrow> bytes \<Rightarrow> goerr \<Rightarrow> nat \<Rightarrow> goerr option \<Rightarrow> 'w \<Rightarrow> bool" where
  "drained w out e k err w' \<longleftrightarrow>
     k \<le> length out \<and> sent w' = sent w @ take k out \<and> usable w' \<and>
     ((k = length out \<and> err = (if e = EOF then None else Some e)) \<or> (\<exists>x. err = Some x \<and> sink_fails x))"

lemma drained_after:
  assumes "usable v" "sent v = sent w @ p" "drained v out e k err w'"
  shows "drained w (p @ out) e (length p + k) err w'"
  using assms by (auto simp: drained_def)

lemma sink_write:
  assumes "usable w"
  obtains k ew v where "wr w b = ret (int k, ew, v)" "usable v" "k \<le> length b" "sent v = sent w @ take k b"
    "ew = None \<longrightarrow> k = length b" "\<forall>x. ew = Some x \<longrightarrow> sink_fails x"
  using dst.write_spec [OF assms, of b] assms that unfolding write_step_def sink_fails_def
  by (metis le_neq_implies_less)

lemma WriteTo_leftover_spec:
  assumes "usable w"
  shows "\<exists>k err v. reader_WriteTo_leftover wr r w n = ret (n + int k, err, r\<lparr>r_leftover := drop k (r_leftover r)\<rparr>, v) \<and>
           usable v \<and> k \<le> length (r_leftover r) \<and> sent v = sent w @ take k (r_leftover r) \<and>
           (err = None \<longrightarrow> k = length (r_leftover r)) \<and> (\<forall>x. err = Some x \<longrightarrow> sink_fails x)"
proof (cases "r_leftover r = []")
  case True
  then have "reader_WriteTo_leftover wr r w n = ret (n, None, r, w)"
    by (simp add: reader_WriteTo_leftover.simps)
  with True assms show ?thesis by (intro exI [of _ 0] exI [of _ None] exI [of _ w]) simp
next
  case False
  from assms obtain k ew v where w: "wr w (r_leftover r) = ret (int k, ew, v)" "usable v"
    "k \<le> length (r_leftover r)" "sent v = sent w @ take k (r_leftover r)"
    "ew = None \<longrightarrow> k = length (r_leftover r)" "\<forall>x. ew = Some x \<longrightarrow> sink_fails x"
    by (rule sink_write)
  have "reader_WriteTo_leftover wr r w n = ret (n + int k, ew, r\<lparr>r_leftover := drop k (r_leftover r)\<rparr>, v)"
  proof (cases ew)
    case None
    with w False show ?thesis
      by (subst reader_WriteTo_leftover.simps) (simp add: seg_to_end reader_WriteTo_leftover.simps [of _ _ v])
  next
    case (Some x)
    with w False show ?thesis by (subst reader_WriteTo_leftover.simps) (simp add: seg_to_end)
  qed
  with w show ?thesis by blast
qed

lemma WriteTo_record:
  assumes "reader_read rd r = ret (ilen p, None, r')" "take (length p) (r_buf r') = p" "ilen p \<le> ilen (r_buf r')"
    and "usable w"
  shows "\<exists>k ew v. k \<le> length p \<and> sent v = sent w @ take k p \<and> usable v \<and> (ew = None \<longrightarrow> k = length p) \<and>
           (\<forall>x. ew = Some x \<longrightarrow> sink_fails x) \<and>
           reader_WriteTo_loop rd wr r w n =
             (case ew of Some x \<Rightarrow> ret (n + int k, Some x, r', v)
              | None \<Rightarrow> reader_WriteTo_loop rd wr r' v (n + int k))"
proof (cases "p = []")
  case True
  with assms show ?thesis
    by (intro exI [of _ 0] exI [of _ None] exI [of _ w]) (simp add: reader_WriteTo_loop.simps [of rd wr r])
next
  case False
  from assms(4) obtain k ew v where w: "wr w p = ret (int k, ew, v)" "usable v" "k \<le> length p"
    "sent v = sent w @ take k p" "ew = None \<longrightarrow> k = length p" "\<forall>x. ew = Some x \<longrightarrow> sink_fails x"
    by (rule sink_write)
  have "reader_WriteTo_loop rd wr r w n =
      (case ew of Some x \<Rightarrow> ret (n + int k, Some x, r', v)
       | None \<Rightarrow> reader_WriteTo_loop rd wr r' v (n + int k))"
    using False assms(1-3) w(1) by (subst reader_WriteTo_loop.simps) (simp add: seg_0 split: option.split)
  with w show ?thesis by blast
qed

lemma WriteTo_loop_spec:
  assumes "good (r_Reader r)" "sr_wf r" "usable w"
  shows "\<exists>k err r' w'. reader_WriteTo_loop rd wr r w n = ret (n + int k, err, r', w') \<and> good (r_Reader r') \<and>
    drained w (concat (fst (sr_decode content fin r))) (fst (snd (sr_decode content fin r))) k err w'"
  using assms
proof (induction "length (content (r_Reader r))" arbitrary: r w n rule: less_induct)
  case less
  let ?D = "sr_decode content fin"
  show ?case
  proof (cases "open_record (r_AEAD r) (r_nonce r) (fin (r_Reader r)) (content (r_Reader r))")
    case (Inl e)
    from src.reader_read_err [OF less.prems(1,2) Inl] obtain r' where "reader_read rd r = ret (0, Some e, r')" "good (r_Reader r')"
      by (auto simp: sr_same_def)
    with decode_Inl [OF Inl] less.prems(3) show ?thesis
      by (intro exI [of _ 0]) (simp add: reader_WriteTo_loop.simps [of rd wr r] sr_decode_def drained_def)
  next
    case (Inr z)
    then obtain p rest where
      op: "open_record (r_AEAD r) (r_nonce r) (fin (r_Reader r)) (content (r_Reader r)) = Inr (p, rest)"
      by (cases z) auto
    from src.reader_read_ok [OF less.prems(1,2) op] obtain r' where
      rr: "reader_read rd r = ret (ilen p, None, r')" and same: "sr_same good fin r r'"
      and p: "take (length p) (r_buf r') = p" "ilen p \<le> payloadSizeMask"
      and r': "content (r_Reader r') = rest" "r_nonce r' = increment (increment (r_nonce r))"
      by blast
    have D: "?D r = (p # fst (?D r'), snd (?D r'))"
      using decode_Inr [OF op] same r' by (simp add: sr_decode_def sr_same_def)
    have g': "good (r_Reader r')" "sr_wf r'" using same by (simp_all add: sr_same_def)
    have "ilen p \<le> ilen (r_buf r')" using g'(2) p(2) by (simp add: sr_wf_def)
    from WriteTo_record [OF rr p(1) this less.prems(3), of n] obtain k ew v where
      v: "k \<le> length p" "sent v = sent w @ take k p" "usable v" "ew = None \<longrightarrow> k = length p"
        "\<forall>x. ew = Some x \<longrightarrow> sink_fails x"
      and loop: "reader_WriteTo_loop rd wr r w n =
        (case ew of Some x \<Rightarrow> ret (n + int k, Some x, r', v) | None \<Rightarrow> reader_WriteTo_loop rd wr r' v (n + int k))"
      by blast
    show ?thesis
    proof (cases ew)
      case (Some x)
      with v loop g' show ?thesis by (intro exI [of _ k]) (simp add: D drained_def)
    next
      case None
      with v have all: "k = length p" "sent v = sent w @ p" by simp_all
      have "length (content (r_Reader r')) < length (content (r_Reader r))"
        using open_record_shorter [OF op] r'(1) by simp
      from less.hyps [OF this g' v(3), of "n + int k"] obtain j err r2 w2 where
        "reader_WriteTo_loop rd wr r' v (n + int k) = ret (n + int k + int j, err, r2, w2)" "good (r_Reader r2)"
        and dr: "drained v (concat (fst (?D r'))) (fst (snd (?D r'))) j err w2"
        by blast
      with None loop drained_after [OF v(3) all(2) dr] all(1) show ?thesis
        by (intro exI [of _ "length p + j"] exI [of _ err] exI [of _ r2] exI [of _ w2]) (simp add: D)
    qed
  qed
qed

lemma reader_WriteTo_spec:
  assumes "good (r_Reader r)" "sr_wf r" "usable w"
  shows "\<exists>k err r' w'. reader_WriteTo rd wr r w = ret (int k, err, r', w') \<and> good (r_Reader r') \<and>
    drained w (sr_content content fin r) (fst (snd (sr_decode content fin r))) k err w'"
proof -
  from WriteTo_leftover_spec [OF assms(3), of r 0] obtain k err v where
    l: "reader_WriteTo_leftover wr r w 0 = ret (int k, err, r\<lparr>r_leftover := drop k (r_leftover r)\<rparr>, v)"
    and v: "usable v" "k \<le> length (r_leftover r)" "sent v = sent w @ take k (r_leftover r)"
      "err = None \<longrightarrow> k = length (r_leftover r)" "\<forall>x. err = Some x \<longrightarrow> sink_fails x"
    by auto
  let ?r = "r\<lparr>r_leftover := drop k (r_leftover r)\<rparr>"
  show ?thesis
  proof (cases err)
    case (Some x)
    with l v assms(1) show ?thesis
      by (intro exI [of _ k]) (simp add: reader_WriteTo_def drained_def sr_content_def)
  next
    case None
    with v have all: "k = length (r_leftover r)" "sent v = sent w @ r_leftover r" by simp_all
    from WriteTo_loop_spec [of ?r v "int k"] assms(1,2) v(1) obtain j err r2 w2 where
      "reader_WriteTo_loop rd wr ?r v (int k) = ret (int k + int j, err, r2, w2)" "good (r_Reader r2)"
      and dr: "drained v (concat (fst (sr_decode content fin r))) (fst (snd (sr_decode content fin r))) j err w2"
      by auto
    with None l drained_after [OF v(1) all(2) dr] all(1) show ?thesis
      by (intro exI [of _ "length (r_leftover r) + j"] exI [of _ err] exI [of _ r2] exI [of _ w2])
        (simp add: reader_WriteTo_def sr_content_def)
  qed
qed

end

end
