(* ===== verification/Salt_Filter.thy ===== *)
theory Salt_Filter
  imports Complex_Main Shadow_Cipher "HOL-Library.Signed_Division"
begin

text \<open>
  \<^verbatim>\<open>m_internal/bloomring.go\<close> and \<^verbatim>\<open>m_internal/saltfilter.go\<close>: the ring of Bloom filters that remembers salts,
  and the process-wide singleton around it.

  The Bloom filter itself comes from a package outside the repository: its four operations are the
  fields of a record \<open>bloom\<close>, and \<open>bloom_ok\<close> states what a Bloom filter promises (no false negatives, and
  nothing is found in a new or a reset filter).  A mutex that the running goroutine already holds never
  becomes free: locking it again is a run that does not return.
\<close>

subsection \<open>The hash: FNV-1 and FNV-1a, 64 bits\<close>

type_synonym u64 = "64 word"

definition fnv_offset :: u64 where
  "fnv_offset = 14695981039346656037"

definition fnv_prime :: u64 where
  "fnv_prime = 1099511628211"

definition fnv1_step :: "u64 \<Rightarrow> byte \<Rightarrow> u64" where
  "fnv1_step h b = (h * fnv_prime) XOR ucast b"

definition fnv1a_step :: "u64 \<Rightarrow> byte \<Rightarrow> u64" where
  "fnv1a_step h b = (h XOR ucast b) * fnv_prime"

definition doubleFNV :: "bytes \<Rightarrow> u64 \<times> u64" where
  "doubleFNV b = (foldl fnv1_step fnv_offset b, foldl fnv1a_step fnv_offset b)"

subsection \<open>The Bloom filter interface\<close>

record 'f bloom =
  bl_New :: "int \<Rightarrow> rat \<Rightarrow> (bytes \<Rightarrow> u64 \<times> u64) \<Rightarrow> 'f"
  bl_Add :: "'f \<Rightarrow> bytes \<Rightarrow> 'f"
  bl_Test :: "'f \<Rightarrow> bytes \<Rightarrow> bool"
  bl_Reset :: "'f \<Rightarrow> 'f"

definition bloom_ok :: "'f bloom \<Rightarrow> bool" where
  "bloom_ok bl \<longleftrightarrow>
     (\<forall>f b. bl_Test bl (bl_Add bl f b) b) \<and>
     (\<forall>f b c. bl_Test bl f c \<longrightarrow> bl_Test bl (bl_Add bl f b) c) \<and>
     (\<forall>n p h c. \<not> bl_Test bl (bl_New bl n p h) c) \<and>
     (\<forall>f c. \<not> bl_Test bl (bl_Reset bl f) c)"

subsection \<open>\<open>BloomRing\<close>\<close>

datatype rwmutex = Free | Readers nat | Writer

record 'f BloomRing =
  br_slotCapacity :: int
  br_slotPosition :: int
  br_slotCount :: int
  br_entryCounter :: int
  br_slots :: "'f list"
  br_mutex :: rwmutex

definition mutex_Lock :: "'f BloomRing \<Rightarrow> 'f BloomRing go" where
  "mutex_Lock r = (if br_mutex r = Free then ret (r\<lparr>br_mutex := Writer\<rparr>) else None)"

definition mutex_RLock :: "'f BloomRing \<Rightarrow> 'f BloomRing go" where
  "mutex_RLock r =
     (case br_mutex r of
        Free \<Rightarrow> ret (r\<lparr>br_mutex := Readers 1\<rparr>)
      | Readers n \<Rightarrow> ret (r\<lparr>br_mutex := Readers (n + 1)\<rparr>)
      | Writer \<Rightarrow> None)"

definition mutex_Unlock :: "'f BloomRing \<Rightarrow> 'f BloomRing" where
  "mutex_Unlock r = r\<lparr>br_mutex := Free\<rparr>"

definition mutex_RUnlock :: "'f BloomRing \<Rightarrow> 'f BloomRing" where
  "mutex_RUnlock r =
     r\<lparr>br_mutex := (case br_mutex r of Readers n \<Rightarrow> if n \<le> 1 then Free else Readers (n - 1) | m \<Rightarrow> m)\<rparr>"

definition NewBloomRing :: "'f bloom \<Rightarrow> int \<Rightarrow> int \<Rightarrow> rat \<Rightarrow> 'f BloomRing go" where
  "NewBloomRing bl slot capacity falsePositiveRate =
     (if slot = 0 then throw DivideByZero
      else if slot < 0 then throw NegativeMake
      else let cap = capacity sdiv slot in
        ret \<lparr>br_slotCapacity = cap, br_slotPosition = 0, br_slotCount = slot, br_entryCounter = 0,
             br_slots = replicate (nat slot) (bl_New bl cap falsePositiveRate doubleFNV), br_mutex = Free\<rparr>)"

definition BloomRing_add :: "'f bloom \<Rightarrow> 'f BloomRing \<Rightarrow> bytes \<Rightarrow> 'f BloomRing go" where
  "BloomRing_add bl r b =
     gobind (go_index (br_slots r) (br_slotPosition r)) (\<lambda>slot.
     gobind
       (if br_entryCounter r > br_slotCapacity r then
          let pos = (br_slotPosition r + 1) smod br_slotCount r in
          gobind (go_index (br_slots r) pos) (\<lambda>slot.
          ret (bl_Reset bl slot, r\<lparr>br_slotPosition := pos, br_entryCounter := 0\<rparr>))
        else ret (slot, r)) (\<lambda>(slot, r).
     gobind (go_store (br_slots r) (br_slotPosition r) (bl_Add bl slot b)) (\<lambda>slots.
     ret (r\<lparr>br_entryCounter := br_entryCounter r + 1, br_slots := slots\<rparr>))))"

text \<open>The methods with a pointer receiver take the nil pointer too: \<open>None\<close>.\<close>

definition BloomRing_Add :: "'f bloom \<Rightarrow> 'f BloomRing option \<Rightarrow> bytes \<Rightarrow> 'f BloomRing option go" where
  "BloomRing_Add bl r b =
     (case r of
        None \<Rightarrow> ret None
      | Some r \<Rightarrow>
          gobind (mutex_Lock r) (\<lambda>r.
          gobind (BloomRing_add bl r b) (\<lambda>r.
          ret (Some (mutex_Unlock r)))))"

fun BloomRing_test :: "'f bloom \<Rightarrow> 'f list \<Rightarrow> bytes \<Rightarrow> bool" where
  "BloomRing_test bl [] b = False"
| "BloomRing_test bl (s # ss) b = (if bl_Test bl s b then True else BloomRing_test bl ss b)"

definition BloomRing_Test :: "'f bloom \<Rightarrow> 'f BloomRing option \<Rightarrow> bytes \<Rightarrow> (bool \<times> 'f BloomRing option) go" where
  "BloomRing_Test bl r b =
     (case r of
        None \<Rightarrow> ret (False, None)
      | Some r \<Rightarrow>
          gobind (mutex_RLock r) (\<lambda>r.
          ret (BloomRing_test bl (br_slots r) b, Some (mutex_RUnlock r))))"

definition BloomRing_Check :: "'f bloom \<Rightarrow> 'f BloomRing option \<Rightarrow> bytes \<Rightarrow> (bool \<times> 'f BloomRing option) go" where
  "BloomRing_Check bl r b =
     (case r of
        None \<Rightarrow> throw NilDeref
      | Some r \<Rightarrow>
          gobind (mutex_Lock r) (\<lambda>r.
          gobind (BloomRing_Test bl (Some r) b) (\<lambda>(found, r).
          if found then ret (True, map_option mutex_Unlock r)
          else gobind (BloomRing_Add bl r b) (\<lambda>r. ret (False, map_option mutex_Unlock r)))))"

subsection \<open>The singleton\<close>

text \<open>
  The environment: \<^verbatim>\<open>os.Getenv\<close> and \<^verbatim>\<open>strconv.ParseFloat\<close> (finite values only, as rationals).
\<close>

record env =
  env_get :: "string \<Rightarrow> string"
  env_float :: "string \<Rightarrow> rat option"

record 'f saltfilter =
  sf_done :: bool
  sf_filter :: "'f BloomRing option"

definition sf_unset :: "'f saltfilter" where
  "sf_unset = \<lparr>sf_done = False, sf_filter = None\<rparr>"

definition rat_trunc :: "rat \<Rightarrow> int" where
  "rat_trunc x = (if 0 \<le> x then \<lfloor>x\<rfloor> else \<lceil>x\<rceil>)"

definition sf_option :: "env \<Rightarrow> string \<Rightarrow> rat \<Rightarrow> rat go" where
  "sf_option en name target =
     (let key = ''SHADOWSOCKS_'' @ ''SF_'' @ name; v = env_get en key in
      if v \<noteq> '''' then (case env_float en v of None \<Rightarrow> throw (InvalidEnv key) | Some p \<Rightarrow> ret p)
      else ret target)"

definition getSaltFilterSingleton :: "'f bloom \<Rightarrow> env \<Rightarrow> 'f saltfilter \<Rightarrow> 'f saltfilter go" where
  "getSaltFilterSingleton bl en g =
     (if sf_done g then ret g
      else
        gobind (sf_option en ''CAPACITY'' 1000000) (\<lambda>finalCapacity.
        gobind (sf_option en ''FPR'' (1 / 1000000)) (\<lambda>finalFPR.
        gobind (sf_option en ''SLOT'' 10) (\<lambda>finalSlot.
        if finalCapacity \<le> 0 then ret (g\<lparr>sf_done := True\<rparr>)
        else gobind (NewBloomRing bl (rat_trunc finalSlot) (rat_trunc finalCapacity) finalFPR) (\<lambda>ring.
          ret (g\<lparr>sf_done := True, sf_filter := Some ring\<rparr>))))))"

definition TestSalt :: "'f bloom \<Rightarrow> env \<Rightarrow> 'f saltfilter \<Rightarrow> bytes \<Rightarrow> (bool \<times> 'f saltfilter) go" where
  "TestSalt bl en g b =
     gobind (getSaltFilterSingleton bl en g) (\<lambda>g.
     gobind (BloomRing_Test bl (sf_filter g) b) (\<lambda>(t, r). ret (t, g\<lparr>sf_filter := r\<rparr>)))"

definition AddSalt :: "'f bloom \<Rightarrow> env \<Rightarrow> 'f saltfilter \<Rightarrow> bytes \<Rightarrow> 'f saltfilter go" where
  "AddSalt bl en g b =
     gobind (getSaltFilterSingleton bl en g) (\<lambda>g.
     gobind (BloomRing_Add bl (sf_filter g) b) (\<lambda>r. ret (g\<lparr>sf_filter := r\<rparr>)))"

definition CheckSalt :: "'f bloom \<Rightarrow> env \<Rightarrow> 'f saltfilter \<Rightarrow> bytes \<Rightarrow> (bool \<times> 'f saltfilter) go" where
  "CheckSalt bl en g b =
     gobind (getSaltFilterSingleton bl en g) (\<lambda>g.
     gobind (BloomRing_Test bl (sf_filter g) b) (\<lambda>(t, r). ret (t, g\<lparr>sf_filter := r\<rparr>)))"

subsection \<open>FNV: one changed byte always changes the hash\<close>

lemma fnv_prime_inverse: "fnv_prime * 14886173955864302971 = 1"
  by (simp add: fnv_prime_def)

lemma mult_fnv_prime_inj: "h * fnv_prime = k * fnv_prime \<longleftrightarrow> h = k"
proof
  assume "h * fnv_prime = k * fnv_prime"
  then have "h * (fnv_prime * 14886173955864302971) = k * (fnv_prime * 14886173955864302971)"
    by (simp only: mult.assoc [symmetric])
  then show "h = k" by (simp add: fnv_prime_inverse)
qed simp

lemma xor_right_inj: "(a :: u64) XOR c = b XOR c \<longleftrightarrow> a = b"
  by (metis bit.xor_left_self xor.commute)

lemma fnv1_step_inj: "fnv1_step h b = fnv1_step k b \<longleftrightarrow> h = k"
  by (simp add: fnv1_step_def xor_right_inj mult_fnv_prime_inj)

lemma fnv1a_step_inj: "fnv1a_step h b = fnv1a_step k b \<longleftrightarrow> h = k"
  by (simp add: fnv1a_step_def xor_right_inj mult_fnv_prime_inj)

lemma xor_left_inj: "(c :: u64) XOR a = c XOR b \<longleftrightarrow> a = b"
  by (metis bit.xor_left_self)

lemma ucast_byte_inj: "(ucast b :: u64) = ucast c \<longleftrightarrow> b = (c :: byte)"
proof
  assume "(ucast b :: u64) = ucast c"
  then have "(ucast (ucast b :: u64) :: byte) = ucast (ucast c :: u64)" by simp
  then show "b = c" by (simp add: ucast_up_ucast_id is_up)
qed simp

lemma fnv_step_byte_inj: "fnv1_step h b = fnv1_step h c \<longleftrightarrow> b = c" "fnv1a_step h b = fnv1a_step h c \<longleftrightarrow> b = c"
  by (simp_all add: fnv1_step_def fnv1a_step_def mult_fnv_prime_inj xor_left_inj ucast_byte_inj)

lemma foldl_inj:
  assumes "\<And>h k b. f h b = f k b \<longleftrightarrow> h = k"
  shows "foldl f h bs = foldl f k bs \<longleftrightarrow> h = k"
  by (induction bs arbitrary: h k) (simp_all add: assms)

subsection \<open>The ring\<close>

definition ring_wf :: "'f BloomRing \<Rightarrow> bool" where
  "ring_wf r \<longleftrightarrow> 0 \<le> br_slotPosition r \<and> br_slotPosition r < br_slotCount r \<and>
     br_slotCount r = ilen (br_slots r) \<and> 0 \<le> br_slotCapacity r \<and>
     0 \<le> br_entryCounter r \<and> br_entryCounter r \<le> br_slotCapacity r + 1 \<and> br_mutex r = Free"

lemma BloomRing_test_iff: "BloomRing_test bl ss b \<longleftrightarrow> (\<exists>s \<in> set ss. bl_Test bl s b)"
  by (induction ss) auto

text \<open>
  One addition: in the current slot, or, once it holds one entry more than its capacity, in the next
  slot, which is reset first.
\<close>

lemma add_stay:
  assumes "ring_wf r" "br_entryCounter r \<le> br_slotCapacity r"
  shows "BloomRing_Add bl (Some r) b =
    ret (Some (r\<lparr>br_entryCounter := br_entryCounter r + 1,
       br_slots := (br_slots r)[nat (br_slotPosition r) := bl_Add bl (br_slots r ! nat (br_slotPosition r)) b]\<rparr>))"
  using assms by (simp add: ring_wf_def BloomRing_Add_def BloomRing_add_def mutex_Lock_def mutex_Unlock_def)

lemma next_slot: "ring_wf r \<Longrightarrow> 0 \<le> (br_slotPosition r + 1) mod br_slotCount r \<and>
    (br_slotPosition r + 1) mod br_slotCount r < ilen (br_slots r)"
proof -
  assume "ring_wf r"
  then have "0 < br_slotCount r" "br_slotCount r = ilen (br_slots r)" by (auto simp: ring_wf_def)
  then show ?thesis by simp
qed

lemma add_rotate:
  assumes "ring_wf r" "br_slotCapacity r < br_entryCounter r"
  defines "pos \<equiv> (br_slotPosition r + 1) mod br_slotCount r"
  shows "BloomRing_Add bl (Some r) b =
    ret (Some (r\<lparr>br_slotPosition := pos, br_entryCounter := 1,
       br_slots := (br_slots r)[nat pos := bl_Add bl (bl_Reset bl (br_slots r ! nat pos)) b]\<rparr>))"
proof -
  have "(br_slotPosition r + 1) smod br_slotCount r = pos"
    using assms(1) by (simp add: ring_wf_def pos_def smod_mod_positive)
  then show ?thesis
    using assms(1,2) next_slot [OF assms(1)]
    by (simp add: ring_wf_def BloomRing_Add_def BloomRing_add_def mutex_Lock_def mutex_Unlock_def pos_def Let_def)
qed

lemma Test_eq: "ring_wf r \<Longrightarrow> BloomRing_Test bl (Some r) b = ret (BloomRing_test bl (br_slots r) b, Some r)"
  by (simp add: ring_wf_def BloomRing_Test_def mutex_RLock_def mutex_RUnlock_def)

lemma Check_deadlock: "ring_wf r \<Longrightarrow> BloomRing_Check bl (Some r) b = None"
  by (simp add: ring_wf_def BloomRing_Check_def mutex_Lock_def BloomRing_Test_def mutex_RLock_def)

lemma NewBloomRing_wf:
  assumes "0 < slot" "0 \<le> capacity"
  shows "\<exists>r. NewBloomRing bl slot capacity p = ret r \<and> ring_wf r \<and>
    br_slotCount r = slot \<and> br_slotCapacity r = capacity div slot"
  using assms
  by (auto simp: NewBloomRing_def ring_wf_def Let_def pos_imp_zdiv_nonneg_iff signed_divide_int_def sgn_if)

text \<open>How many more additions a slot outlives: it is reset by the one after.\<close>

definition lifetime :: "'f BloomRing \<Rightarrow> int \<Rightarrow> int" where
  "lifetime r i = (br_slotCapacity r + 1 - br_entryCounter r) +
     ((i - br_slotPosition r - 1) mod br_slotCount r) * (br_slotCapacity r + 1)"

lemma mod_pred: "(a :: int) mod n \<noteq> 0 \<Longrightarrow> 0 < n \<Longrightarrow> (a - 1) mod n = a mod n - 1"
proof -
  assume "a mod n \<noteq> 0" "0 < n"
  then have "0 \<le> a mod n - 1" "a mod n - 1 < n"
    by (simp_all add: order_less_le pos_mod_sign less_imp_le)
      (smt (verit) pos_mod_bound)+
  moreover have "(a - 1) mod n = (a mod n - 1) mod n" by (simp add: mod_diff_left_eq)
  ultimately show ?thesis by (simp add: mod_pos_pos_trivial)
qed

lemma lifetime_step:
  assumes "bloom_ok bl" "ring_wf r" "0 \<le> i" "i < br_slotCount r" "1 \<le> lifetime r i"
  shows "\<exists>r'. BloomRing_Add bl (Some r) b = ret (Some r') \<and> ring_wf r' \<and>
    br_slotCount r' = br_slotCount r \<and> br_slotCapacity r' = br_slotCapacity r \<and>
    lifetime r' i = lifetime r i - 1 \<and>
    (bl_Test bl (br_slots r ! nat i) c \<longrightarrow> bl_Test bl (br_slots r' ! nat i) c)"
proof (cases "br_entryCounter r \<le> br_slotCapacity r")
  case True
  have "nat i < length (br_slots r)" using assms(2-4) by (auto simp: ring_wf_def)
  with True assms(1,2) show ?thesis
    by (auto simp: add_stay ring_wf_def lifetime_def bloom_ok_def nth_list_update)
next
  case False
  then have full: "br_entryCounter r = br_slotCapacity r + 1" using assms(2) by (simp add: ring_wf_def)
  let ?n = "br_slotCount r" and ?c = "br_slotCapacity r + 1"
  let ?pos = "(br_slotPosition r + 1) mod ?n" and ?m = "(i - br_slotPosition r - 1) mod ?n"
  have n: "0 < ?n" using assms(2) by (auto simp: ring_wf_def)
  have m: "?m \<noteq> 0" using assms(5) full by (auto simp: lifetime_def)
  have ne: "i \<noteq> ?pos"
  proof
    assume "i = ?pos"
    then have "?m = (br_slotPosition r + 1 - (br_slotPosition r + 1)) mod ?n"
      by (metis diff_diff_eq mod_diff_left_eq)
    with m show False by simp
  qed
  have "(i - ?pos - 1) mod ?n = (i - br_slotPosition r - 1 - 1) mod ?n"
    by (metis diff_diff_eq mod_diff_left_eq mod_diff_right_eq)
  also have "\<dots> = ?m - 1" using m n by (rule mod_pred)
  finally have turn: "(i - ?pos - 1) mod ?n = ?m - 1" .
  have "(c - 1) + (k - 1) * c = k * c - 1" for c k :: int by (simp add: algebra_simps)
  then have life: "(?c - 1) + ((i - ?pos - 1) mod ?n) * ?c = ?m * ?c - 1" by (simp only: turn)
  have "nat i \<noteq> nat ?pos" using ne assms(3) next_slot [OF assms(2)] by (simp add: nat_eq_iff)
  then show ?thesis
    using add_rotate [OF assms(2), of bl b] full assms(2) life next_slot [OF assms(2)]
    by (auto simp: ring_wf_def lifetime_def)
qed

lemma lifetime_new:
  assumes "bloom_ok bl" "ring_wf r"
  shows "\<exists>r' i. BloomRing_Add bl (Some r) b = ret (Some r') \<and> ring_wf r' \<and> 0 \<le> i \<and> i < br_slotCount r' \<and>
    br_slotCount r' = br_slotCount r \<and> br_slotCapacity r' = br_slotCapacity r \<and>
    (br_slotCount r - 1) * (br_slotCapacity r + 1) \<le> lifetime r' i \<and> bl_Test bl (br_slots r' ! nat i) b"
proof -
  have last: "(- 1) mod n = n - 1" if "0 < n" for n :: int
    using that by (simp add: zmod_minus1)
  have n: "0 < br_slotCount r" using assms(2) by (auto simp: ring_wf_def)
  show ?thesis
  proof (cases "br_entryCounter r \<le> br_slotCapacity r")
    case True
    with assms n show ?thesis
      by (intro exI [of _ "br_slotPosition r"] exI [of _ "r\<lparr>br_entryCounter := br_entryCounter r + 1,
          br_slots := (br_slots r)[nat (br_slotPosition r) := bl_Add bl (br_slots r ! nat (br_slotPosition r)) b]\<rparr>"])
        (auto simp: add_stay ring_wf_def lifetime_def bloom_ok_def last)
  next
    case False
    have "nat ((br_slotPosition r + 1) mod br_slotCount r) < length (br_slots r)"
      using next_slot [OF assms(2)] by (simp add: nat_less_iff)
    with False add_rotate [OF assms(2), of bl b] assms n next_slot [OF assms(2)] show ?thesis
      by (auto simp: ring_wf_def lifetime_def bloom_ok_def last
          intro!: exI [of _ "(br_slotPosition r + 1) mod br_slotCount r"])
  qed
qed

fun Add_all :: "'f bloom \<Rightarrow> 'f BloomRing option \<Rightarrow> bytes list \<Rightarrow> 'f BloomRing option go" where
  "Add_all bl r [] = ret r"
| "Add_all bl r (b # bs) = gobind (BloomRing_Add bl r b) (\<lambda>r. Add_all bl r bs)"

lemma Add_all_keeps:
  assumes "bloom_ok bl" "ring_wf r" "0 \<le> i" "i < br_slotCount r" "bl_Test bl (br_slots r ! nat i) c"
    and "ilen bs \<le> lifetime r i"
  shows "\<exists>r'. Add_all bl (Some r) bs = ret (Some r') \<and> ring_wf r' \<and> BloomRing_test bl (br_slots r') c"
  using assms
proof (induction bs arbitrary: r)
  case Nil
  then have "br_slots r ! nat i \<in> set (br_slots r)" by (auto simp: ring_wf_def)
  with Nil show ?case by (auto simp: BloomRing_test_iff)
next
  case (Cons b bs)
  then have "1 \<le> lifetime r i" by simp
  from lifetime_step [OF Cons.prems(1-4) this, of b c] Cons.prems obtain r1 where
    "BloomRing_Add bl (Some r) b = ret (Some r1)" "ring_wf r1" "i < br_slotCount r1"
    "ilen bs \<le> lifetime r1 i" "bl_Test bl (br_slots r1 ! nat i) c"
    by auto
  with Cons.IH [OF assms(1), of r1] Cons.prems(3) show ?case by auto
qed

lemma ring_remembers:
  assumes "bloom_ok bl" "ring_wf r" "ilen bs \<le> (br_slotCount r - 1) * (br_slotCapacity r + 1)"
  shows "\<exists>r'. Add_all bl (Some r) (b # bs) = ret (Some r') \<and> ring_wf r' \<and>
    BloomRing_Test bl (Some r') b = ret (True, Some r')"
proof -
  from lifetime_new [OF assms(1,2), of b] obtain r1 i where
    "BloomRing_Add bl (Some r) b = ret (Some r1)" and r1: "ring_wf r1" "0 \<le> i" "i < br_slotCount r1"
    "bl_Test bl (br_slots r1 ! nat i) b" and "(br_slotCount r - 1) * (br_slotCapacity r + 1) \<le> lifetime r1 i"
    by auto
  with assms(3) Add_all_keeps [OF assms(1) r1, of bs] show ?thesis
    by (auto simp: Test_eq)
qed

lemma Add_total:
  assumes "ring_wf r"
  shows "\<exists>r'. BloomRing_Add bl (Some r) b = ret (Some r') \<and> ring_wf r' \<and> br_slotCount r' = br_slotCount r \<and> br_slotCapacity r' = br_slotCapacity r"
proof (cases "br_entryCounter r \<le> br_slotCapacity r")
  case True
  with assms show ?thesis by (auto simp: add_stay ring_wf_def)
next
  case False
  with assms add_rotate [OF assms, of bl b] next_slot [OF assms] show ?thesis
    by (auto simp: ring_wf_def)
qed

lemma Add_all_total:
  assumes "ring_wf r"
  shows "\<exists>r'. Add_all bl (Some r) bs = ret (Some r') \<and> ring_wf r' \<and> br_slotCount r' = br_slotCount r \<and> br_slotCapacity r' = br_slotCapacity r"
  using assms
proof (induction bs arbitrary: r)
  case (Cons b bs)
  from Add_total [OF Cons.prems, of bl b] obtain r1 where "BloomRing_Add bl (Some r) b = ret (Some r1)" "ring_wf r1"
    "br_slotCount r1 = br_slotCount r" "br_slotCapacity r1 = br_slotCapacity r" by blast
  with Cons.IH [of r1] show ?case by auto
qed simp

subsection \<open>What the ring stands for: the most recent additions\<close>

lemma Add_all_append: "Add_all bl r (xs @ ys) = gobind (Add_all bl r xs) (\<lambda>r. Add_all bl r ys)"
  by (induction xs arbitrary: r) (simp_all add: gobind_assoc)

text \<open>A filter that was empty and then given the entries \<open>xs\<close>.\<close>

definition loaded :: "'f bloom \<Rightarrow> 'f \<Rightarrow> bytes list \<Rightarrow> bool" where
  "loaded bl f xs \<longleftrightarrow> (\<exists>e. (\<forall>c. \<not> bl_Test bl e c) \<and> f = foldl (bl_Add bl) e xs)"

lemma loaded_simps:
  "bloom_ok bl \<Longrightarrow> loaded bl (bl_New bl n p h) []" "bloom_ok bl \<Longrightarrow> loaded bl (bl_Add bl (bl_Reset bl f) b) [b]"
  "loaded bl f xs \<Longrightarrow> loaded bl (bl_Add bl f b) (xs @ [b])"
proof -
  show "bloom_ok bl \<Longrightarrow> loaded bl (bl_New bl n p h) []"
    unfolding loaded_def bloom_ok_def by (intro exI [of _ "bl_New bl n p h"]) simp
  show "bloom_ok bl \<Longrightarrow> loaded bl (bl_Add bl (bl_Reset bl f) b) [b]"
    unfolding loaded_def bloom_ok_def by (intro exI [of _ "bl_Reset bl f"]) simp
  show "loaded bl f xs \<Longrightarrow> loaded bl (bl_Add bl f b) (xs @ [b])"
    unfolding loaded_def by auto
qed

text \<open>
  The slots in the order of their age, the oldest first: behind the position of the ring it goes on at its beginning.  The additions \<open>bs\<close>
  so far are \<open>old\<close> ones that are forgotten, then the entries of the full slots, then those of the current slot; slots that
  were never used hold nothing, and as long as there is one nothing was forgotten.
\<close>

definition by_age :: "'f BloomRing \<Rightarrow> 'f list" where
  "by_age r = rotate (Suc (nat (br_slotPosition r))) (br_slots r)"

definition ring_window_of :: "'f bloom \<Rightarrow> 'f BloomRing \<Rightarrow> bytes list \<Rightarrow> nat \<Rightarrow> bytes list \<Rightarrow> bytes list list \<Rightarrow> bytes list \<Rightarrow> bool" where
  "ring_window_of bl r bs unused old full current \<longleftrightarrow>
     list_all2 (loaded bl) (by_age r) (replicate unused [] @ full @ [current]) \<and>
     (\<forall>xs \<in> set full. ilen xs = br_slotCapacity r + 1) \<and> ilen current = br_entryCounter r \<and>
     bs = old @ concat full @ current \<and> (unused = 0 \<or> old = []) \<and> (bs = [] \<or> current \<noteq> [])"

lemma by_age_stay:
  assumes "ring_wf r"
  shows "\<exists>xs. by_age r = xs @ [br_slots r ! nat (br_slotPosition r)] \<and>
    by_age (r\<lparr>br_entryCounter := k, br_slots := (br_slots r)[nat (br_slotPosition r) := f]\<rparr>) = xs @ [f]"
proof -
  let ?p = "nat (br_slotPosition r)" and ?s = "br_slots r"
  have p: "?p < length ?s" using assms by (auto simp: ring_wf_def)
  then show ?thesis using rotate_Suc_nth [of ?p ?s] rotate_Suc_nth [of ?p "?s[?p := f]"] by (simp add: by_age_def)
qed

lemma by_age_rotate:
  assumes "ring_wf r"
  defines "p \<equiv> (br_slotPosition r + 1) mod br_slotCount r"
  shows "by_age (r\<lparr>br_slotPosition := p, br_entryCounter := k, br_slots := (br_slots r)[nat p := f]\<rparr>) = tl (by_age r) @ [f]"
proof -
  let ?n = "length (br_slots r)" and ?q = "Suc (nat (br_slotPosition r)) mod length (br_slots r)"
  have n: "0 < ?n" "br_slotCount r = int ?n" "0 \<le> br_slotPosition r" using assms(1) by (auto simp: ring_wf_def)
  have "br_slotPosition r + 1 = int (Suc (nat (br_slotPosition r)))" using n(3) by simp
  then have q: "nat p = ?q" unfolding p_def n(2) by (simp only: nat_int flip: zmod_int)
  have "?q < ?n" using n(1) by simp
  have rot: "rotate ?q xs = rotate (Suc (nat (br_slotPosition r))) xs" if "length xs = ?n" for xs :: "'a list"
    using that by (metis rotate_conv_mod)
  have "rotate ?q (br_slots r) = br_slots r ! ?q # drop (Suc ?q) (br_slots r) @ take ?q (br_slots r)"
    using \<open>?q < ?n\<close> by (simp add: rotate_drop_take Cons_nth_drop_Suc)
  moreover have "rotate (Suc ?q) ((br_slots r)[?q := f]) = drop (Suc ?q) (br_slots r) @ take ?q (br_slots r) @ [f]"
    using \<open>?q < ?n\<close> rotate_Suc_nth [of ?q "(br_slots r)[?q := f]"] by simp
  ultimately show ?thesis using rot [of "br_slots r"] by (simp add: by_age_def q)
qed

lemma window_step:
  assumes "bloom_ok bl" "ring_wf r" "ring_window_of bl r bs unused old full current"
  shows "\<exists>r' unused' old' full' current'. BloomRing_Add bl (Some r) b = ret (Some r') \<and> ring_wf r' \<and>
    br_slotCount r' = br_slotCount r \<and> br_slotCapacity r' = br_slotCapacity r \<and>
    ring_window_of bl r' (bs @ [b]) unused' old' full' current'"
proof (cases "br_entryCounter r \<le> br_slotCapacity r")
  case True
  let ?f = "bl_Add bl (br_slots r ! nat (br_slotPosition r)) b"
  let ?r = "r\<lparr>br_entryCounter := br_entryCounter r + 1, br_slots := (br_slots r)[nat (br_slotPosition r) := ?f]\<rparr>"
  from by_age_stay [OF assms(2)] obtain xs where
    xs: "by_age r = xs @ [br_slots r ! nat (br_slotPosition r)]" "by_age ?r = xs @ [?f]" by blast
  with assms(3) have "list_all2 (loaded bl) (by_age ?r) (replicate unused [] @ full @ [current @ [b]])"
    by (simp add: ring_window_of_def loaded_simps(3) list_all2_snoc flip: append_assoc)
  with assms(3) have "ring_window_of bl ?r (bs @ [b]) unused old full (current @ [b])" by (auto simp: ring_window_of_def)
  with add_stay [OF assms(2) True] Add_total [OF assms(2)] show ?thesis by fastforce
next
  case False
  let ?p = "(br_slotPosition r + 1) mod br_slotCount r"
  let ?f = "bl_Add bl (bl_Reset bl (br_slots r ! nat ?p)) b"
  let ?r = "r\<lparr>br_slotPosition := ?p, br_entryCounter := 1, br_slots := (br_slots r)[nat ?p := ?f]\<rparr>"
  have add: "BloomRing_Add bl (Some r) b = ret (Some ?r)" using add_rotate [OF assms(2)] False by simp
  with Add_total [OF assms(2), of bl b] have wf: "ring_wf ?r" by simp
  have age: "by_age ?r = tl (by_age r) @ [?f]" by (rule by_age_rotate [OF assms(2)])
  have filled: "ilen current = br_slotCapacity r + 1"
    using False assms(2,3) by (auto simp: ring_wf_def ring_window_of_def)
  have all: "list_all2 (loaded bl) (by_age ?r) (tl (replicate unused [] @ full @ [current]) @ [[b]])"
    unfolding age using assms(3) loaded_simps(2) [OF assms(1)] by (simp add: list_all2_snoc list_all2_tl ring_window_of_def)
  have "\<exists>unused' old' full'. tl (replicate unused [] @ full @ [current]) = replicate unused' [] @ full' \<and>
      (\<forall>xs \<in> set full'. ilen xs = br_slotCapacity r + 1) \<and> bs = old' @ concat full' \<and> (unused' = 0 \<or> old' = [])"
  proof (cases unused)
    case (Suc k)
    with assms(3) filled show ?thesis
      by (intro exI [of _ k] exI [of _ old] exI [of _ "full @ [current]"]) (auto simp: ring_window_of_def)
  next
    case 0
    show ?thesis
    proof (cases full)
      case Nil
      with 0 assms(3) show ?thesis by (intro exI [of _ 0] exI [of _ bs] exI [of _ "[]"]) simp
    next
      case (Cons xs rest)
      with 0 assms(3) filled show ?thesis
        by (intro exI [of _ 0] exI [of _ "old @ xs"] exI [of _ "rest @ [current]"]) (auto simp: ring_window_of_def)
    qed
  qed
  then obtain unused' old' full' where
    "tl (replicate unused [] @ full @ [current]) = replicate unused' [] @ full'"
    "\<forall>xs \<in> set full'. ilen xs = br_slotCapacity r + 1" "bs = old' @ concat full'" "unused' = 0 \<or> old' = []" by blast
  with all have "ring_window_of bl ?r (bs @ [b]) unused' old' full' [b]" by (simp add: ring_window_of_def)
  with add wf show ?thesis by fastforce
qed

lemma window_run:
  assumes "bloom_ok bl" "0 < slot" "0 \<le> capacity" "NewBloomRing bl slot capacity p = ret r0"
  shows "\<exists>r unused old full current. Add_all bl (Some r0) bs = ret (Some r) \<and> ring_wf r \<and>
    br_slotCount r = slot \<and> br_slotCapacity r = capacity div slot \<and> ring_window_of bl r bs unused old full current"
proof (induction bs rule: rev_induct)
  case Nil
  from NewBloomRing_wf [OF assms(2,3), of bl p] assms(4) have wf: "ring_wf r0" "br_slotCount r0 = slot" "br_slotCapacity r0 = capacity div slot"
    by auto
  have "by_age r0 = replicate (nat slot - 1) (bl_New bl (capacity sdiv slot) p doubleFNV) @ [bl_New bl (capacity sdiv slot) p doubleFNV]"
    using assms(2,4) by (cases "nat slot") (auto simp: NewBloomRing_def by_age_def Let_def replicate_append_same)
  moreover have "list_all2 (loaded bl) (replicate n (bl_New bl k p doubleFNV)) (replicate n [])" for n k
    using loaded_simps(1) [OF assms(1)] by (simp add: list_all2_conv_all_nth)
  ultimately have "list_all2 (loaded bl) (by_age r0) (replicate (nat slot - 1) [] @ [[]])"
    using loaded_simps(1) [OF assms(1)] by (simp only: list_all2_snoc simp_thms)
  then have "ring_window_of bl r0 [] (nat slot - 1) [] [] []"
    using assms(2,4) by (auto simp: ring_window_of_def NewBloomRing_def Let_def)
  with wf show ?case by auto
next
  case (snoc b bs)
  then obtain r unused old full current where r: "Add_all bl (Some r0) bs = ret (Some r)" "ring_wf r"
    "br_slotCount r = slot" "br_slotCapacity r = capacity div slot" "ring_window_of bl r bs unused old full current"
    by blast
  from window_step [OF assms(1) r(2,5), of b] r show ?case by (fastforce simp: Add_all_append)
qed

lemma loaded_Test: "bloom_ok bl \<Longrightarrow> loaded bl f xs \<Longrightarrow> c \<in> set xs \<Longrightarrow> bl_Test bl f c"
proof -
  assume ok: "bloom_ok bl" and "loaded bl f xs" and c: "c \<in> set xs"
  then obtain e where f: "f = foldl (bl_Add bl) e xs" by (auto simp: loaded_def)
  have keep: "bl_Test bl g c \<Longrightarrow> bl_Test bl (foldl (bl_Add bl) g ys) c" for g ys
    using ok by (induction ys arbitrary: g) (simp_all add: bloom_ok_def)
  from c obtain ys zs where "xs = ys @ c # zs" by (metis split_list)
  with ok keep show ?thesis by (simp add: f bloom_ok_def)
qed

subsection \<open>The salt store the connections use\<close>

text \<open>
  What the stream and packet connections rely on: adding and checking a salt return and keep the
  store usable, and checking leaves every later answer as it was.
\<close>

locale salt_store =
  fixes add :: "'g \<Rightarrow> bytes \<Rightarrow> 'g go"
    and check :: "'g \<Rightarrow> bytes \<Rightarrow> (bool \<times> 'g) go"
    and ok :: "'g \<Rightarrow> bool"
  assumes add_total: "ok g \<Longrightarrow> \<exists>g'. add g b = ret g' \<and> ok g'"
    and check_total: "ok g \<Longrightarrow> \<exists>t g'. check g b = ret (t, g') \<and> ok g'"
    and check_keeps: "ok g \<Longrightarrow> check g b = ret (t, g') \<Longrightarrow> check g' c = check g c"
begin

lemma check_again: "ok g \<Longrightarrow> check g b = ret (t, g') \<Longrightarrow> check g' b = ret (t, g')"
  by (simp add: check_keeps)

end

definition sf_ok :: "'f bloom \<Rightarrow> env \<Rightarrow> 'f saltfilter \<Rightarrow> bool" where
  "sf_ok bl en g \<longleftrightarrow>
     (\<exists>g'. getSaltFilterSingleton bl en g = ret g' \<and> (\<forall>r. sf_filter g' = Some r \<longrightarrow> ring_wf r))"

lemma singleton_done: "getSaltFilterSingleton bl en g = ret g' \<Longrightarrow> sf_done g'"
  by (auto simp: getSaltFilterSingleton_def gobind_eq_ret split: if_splits)

lemma done_singleton: "sf_done g \<Longrightarrow> getSaltFilterSingleton bl en g = ret g"
  by (simp add: getSaltFilterSingleton_def)

lemma sf_okE:
  assumes "sf_ok bl en g"
  obtains g' where "getSaltFilterSingleton bl en g = ret g'" "sf_done g'" "\<forall>r. sf_filter g' = Some r \<longrightarrow> ring_wf r"
  using assms unfolding sf_ok_def by (blast dest: singleton_done)

lemma sf_ok_done: "sf_done g \<Longrightarrow> sf_ok bl en g \<longleftrightarrow> (\<forall>r. sf_filter g = Some r \<longrightarrow> ring_wf r)"
  by (simp add: sf_ok_def done_singleton)

lemma CheckSalt_eq:
  assumes "sf_ok bl en g"
  shows "\<exists>g'. getSaltFilterSingleton bl en g = ret g' \<and> sf_done g' \<and> sf_ok bl en g' \<and>
    CheckSalt bl en g b = ret ((case sf_filter g' of None \<Rightarrow> False | Some r \<Rightarrow> BloomRing_test bl (br_slots r) b), g')"
  using assms
proof (rule sf_okE)
  fix g'
  assume g': "getSaltFilterSingleton bl en g = ret g'" "sf_done g'" "\<forall>r. sf_filter g' = Some r \<longrightarrow> ring_wf r"
  then show ?thesis
    by (cases "sf_filter g'") (auto simp: CheckSalt_def sf_ok_done Test_eq BloomRing_Test_def [of _ None])
qed

lemma AddSalt_total:
  assumes "sf_ok bl en g"
  shows "\<exists>g'. AddSalt bl en g b = ret g' \<and> sf_ok bl en g'"
  using assms
proof (rule sf_okE)
  fix h
  assume h: "getSaltFilterSingleton bl en g = ret h" "sf_done h" "\<forall>r. sf_filter h = Some r \<longrightarrow> ring_wf r"
  show ?thesis
  proof (cases "sf_filter h")
    case None
    with h show ?thesis by (simp add: AddSalt_def BloomRing_Add_def sf_ok_done)
  next
    case (Some r)
    with h(3) Add_total [of r bl b] obtain r' where "BloomRing_Add bl (Some r) b = ret (Some r')" "ring_wf r'"
      by auto
    with Some h show ?thesis by (simp add: AddSalt_def sf_ok_done)
  qed
qed

interpretation salts: salt_store "AddSalt bl en" "CheckSalt bl en" "sf_ok bl en"
  for bl :: "'f bloom" and en
proof
  fix g and b c :: bytes and t and g' :: "'f saltfilter"
  assume ok: "sf_ok bl en g"
  then show "\<exists>g'. AddSalt bl en g b = ret g' \<and> sf_ok bl en g'" by (rule AddSalt_total)
  from CheckSalt_eq [OF ok, of b] show "\<exists>t g'. CheckSalt bl en g b = ret (t, g') \<and> sf_ok bl en g'"
    by blast
  assume "CheckSalt bl en g b = ret (t, g')"
  with CheckSalt_eq [OF ok, of b] have "getSaltFilterSingleton bl en g = ret g'" "sf_done g'"
    by auto
  then show "CheckSalt bl en g' c = CheckSalt bl en g c"
    by (simp add: CheckSalt_def done_singleton)
qed

text \<open>A salt that was added is known.\<close>

lemma AddSalt_known:
  assumes "bloom_ok bl" "sf_ok bl en sf" "getSaltFilterSingleton bl en sf = ret sf0" "sf_filter sf0 \<noteq> None"
  shows "\<exists>sf'. AddSalt bl en sf salt = ret sf' \<and> sf_ok bl en sf' \<and> CheckSalt bl en sf' salt = ret (True, sf')"
proof -
  from assms(4) obtain r where r: "sf_filter sf0 = Some r" by blast
  with assms(2,3) have wf: "ring_wf r" by (auto simp: sf_ok_def)
  then have "0 \<le> br_slotCount r - 1" "0 \<le> br_slotCapacity r + 1" by (auto simp: ring_wf_def)
  then have "ilen [] \<le> (br_slotCount r - 1) * (br_slotCapacity r + 1)" by simp
  from ring_remembers [OF assms(1) wf this, of salt] obtain r' where
    r': "BloomRing_Add bl (Some r) salt = ret (Some r')" "ring_wf r'" "BloomRing_Test bl (Some r') salt = ret (True, Some r')"
    by (auto simp: gobind_eq_ret)
  have d: "sf_done sf0" using assms(3) by (rule singleton_done)
  let ?sf = "sf0\<lparr>sf_filter := Some r'\<rparr>"
  have "AddSalt bl en sf salt = ret ?sf" using assms(3) r r'(1) by (simp add: AddSalt_def)
  moreover have "CheckSalt bl en ?sf salt = ret (True, ?sf)"
    using d r'(3) by (simp add: CheckSalt_def done_singleton)
  moreover have "sf_ok bl en ?sf" using d r'(2) by (simp add: sf_ok_done)
  ultimately show ?thesis by blast
qed

text \<open>
  The settings in the environment: a variable that is not set leaves the default.  The store can be built when the three numbers can
  be read, and there is a slot at least unless the capacity turns the store off.
\<close>

definition setting :: "env \<Rightarrow> string \<Rightarrow> rat \<Rightarrow> rat option" where
  "setting en name d = (let v = env_get en (''SHADOWSOCKS_SF_'' @ name) in if v = [] then Some d else env_float en v)"

definition salt_settings :: "env \<Rightarrow> bool" where
  "salt_settings en =
     (case setting en ''CAPACITY'' 1000000 of None \<Rightarrow> False | Some c \<Rightarrow>
      case setting en ''FPR'' (1 / 1000000) of None \<Rightarrow> False | Some p \<Rightarrow>
      case setting en ''SLOT'' 10 of None \<Rightarrow> False | Some s \<Rightarrow> c \<le> 0 \<or> 1 \<le> s)"

lemma sf_option_setting:
  "sf_option en name d = (case setting en name d of None \<Rightarrow> throw (InvalidEnv (''SHADOWSOCKS_SF_'' @ name)) | Some x \<Rightarrow> ret x)"
  by (simp add: sf_option_def setting_def Let_def split: option.split)

lemma rat_trunc_simps: "0 < rat_trunc x \<longleftrightarrow> 1 \<le> x" "0 \<le> x \<Longrightarrow> rat_trunc x = \<lfloor>x\<rfloor>"
proof -
  show "0 < rat_trunc x \<longleftrightarrow> 1 \<le> x" by (auto simp: rat_trunc_def)
qed (simp add: rat_trunc_def)

lemma settings_singleton:
  assumes "setting en ''CAPACITY'' 1000000 = Some c" "setting en ''FPR'' (1 / 1000000) = Some p" "setting en ''SLOT'' 10 = Some s"
  shows "getSaltFilterSingleton bl en sf_unset =
    (if c \<le> 0 then ret (sf_unset\<lparr>sf_done := True\<rparr>)
     else gobind (NewBloomRing bl (rat_trunc s) \<lfloor>c\<rfloor> p) (\<lambda>ring. ret (sf_unset\<lparr>sf_done := True, sf_filter := Some ring\<rparr>)))"
  using assms by (simp add: getSaltFilterSingleton_def sf_option_setting sf_unset_def rat_trunc_simps)

lemma salt_settings_ok: "salt_settings en \<Longrightarrow> sf_ok bl en sf_unset"
proof -
  assume "salt_settings en"
  then obtain c p s where
    set: "setting en ''CAPACITY'' 1000000 = Some c" "setting en ''FPR'' (1 / 1000000) = Some p" "setting en ''SLOT'' 10 = Some s"
    and cs: "c \<le> 0 \<or> 1 \<le> s"
    by (auto simp: salt_settings_def split: option.splits)
  note single = settings_singleton [OF set, of bl]
  show ?thesis
  proof (cases "c \<le> 0")
    case True
    with single show ?thesis by (simp add: sf_ok_def sf_unset_def)
  next
    case False
    with cs have "0 < rat_trunc s" "0 \<le> \<lfloor>c\<rfloor>" by (simp_all add: rat_trunc_simps)
    from NewBloomRing_wf [OF this, of bl p] single False show ?thesis by (auto simp: sf_ok_def)
  qed
qed

text \<open>With other settings the first use of the store panics.\<close>

lemma bad_settings_panic:
  assumes "\<not> salt_settings en"
  shows "\<exists>e. AddSalt bl en sf_unset b = throw e \<and> CheckSalt bl en sf_unset b = throw e"
proof -
  have "\<exists>e. getSaltFilterSingleton bl en sf_unset = throw e"
  proof (cases "setting en ''CAPACITY'' 1000000 = None \<or> setting en ''FPR'' (1 / 1000000) = None \<or> setting en ''SLOT'' 10 = None")
    case True
    then show ?thesis by (auto simp: getSaltFilterSingleton_def sf_option_setting sf_unset_def split: option.split)
  next
    case False
    then obtain c p s where
      set: "setting en ''CAPACITY'' 1000000 = Some c" "setting en ''FPR'' (1 / 1000000) = Some p" "setting en ''SLOT'' 10 = Some s"
      by auto
    with assms have "\<not> c \<le> 0" "\<not> 0 < rat_trunc s" by (simp_all add: salt_settings_def rat_trunc_simps)
    with settings_singleton [OF set, of bl] show ?thesis by (auto simp: NewBloomRing_def)
  qed
  then show ?thesis by (auto simp: AddSalt_def CheckSalt_def)
qed

text \<open>Salts added one after the other, and what they make of a store with a ring.\<close>

fun AddSalts :: "'f bloom \<Rightarrow> env \<Rightarrow> 'f saltfilter \<Rightarrow> bytes list \<Rightarrow> 'f saltfilter go" where
  "AddSalts bl en g [] = ret g"
| "AddSalts bl en g (b # bs) = gobind (AddSalt bl en g b) (\<lambda>g. AddSalts bl en g bs)"

lemma AddSalts_ring:
  assumes "sf_done g" "sf_filter g = Some r" "ring_wf r"
  shows "AddSalts bl en g bs = gobind (Add_all bl (Some r) bs) (\<lambda>r. ret (g\<lparr>sf_filter := r\<rparr>))"
  using assms
proof (induction bs arbitrary: g r)
  case Nil
  then show ?case by simp
next
  case (Cons b bs)
  from Add_total [OF Cons.prems(3), of bl b] obtain r1 where r1: "BloomRing_Add bl (Some r) b = ret (Some r1)" "ring_wf r1" by blast
  with Cons.prems have "AddSalt bl en g b = ret (g\<lparr>sf_filter := Some r1\<rparr>)" by (simp add: AddSalt_def done_singleton)
  with Cons.IH [of "g\<lparr>sf_filter := Some r1\<rparr>" r1] Cons.prems(1) r1 show ?case by simp
qed

lemma AddSalts_first: "AddSalts bl en g (b # bs) = gobind (getSaltFilterSingleton bl en g) (\<lambda>g. AddSalts bl en g (b # bs))"
  by (cases "getSaltFilterSingleton bl en g" rule: go_cases) (simp_all add: AddSalt_def done_singleton singleton_done)

text \<open>With no environment settings the singleton is a usable ring of ten slots of 100000.\<close>

lemma default_singleton:
  assumes "\<forall>k. env_get en k = []" "\<not> sf_done g"
  shows "\<exists>r. getSaltFilterSingleton bl en g = ret (g\<lparr>sf_done := True, sf_filter := Some r\<rparr>) \<and> ring_wf r \<and>
    br_slotCount r = 10 \<and> br_slotCapacity r = 100000"
proof -
  from NewBloomRing_wf [of 10 1000000 bl "1 / 1000000"] obtain r where
    "NewBloomRing bl 10 1000000 (1 / 1000000) = ret r" "ring_wf r" "br_slotCount r = 10" "br_slotCapacity r = 100000"
    by auto
  with assms show ?thesis
    by (auto simp: getSaltFilterSingleton_def sf_option_def rat_trunc_def Let_def)
qed

subsection \<open>A concrete filter\<close>

text \<open>The list of what was added is a Bloom filter without false positives.\<close>

definition sample_bloom :: "bytes list bloom" where
  "sample_bloom =
     \<lparr>bl_New = (\<lambda>_ _ _. []), bl_Add = (\<lambda>f b. b # f), bl_Test = (\<lambda>f b. b \<in> set f), bl_Reset = (\<lambda>_. [])\<rparr>"

lemma sample_bloom_ok: "bloom_ok sample_bloom"
  by (simp add: bloom_ok_def sample_bloom_def)

definition sample_env :: env where
  "sample_env = \<lparr>env_get = (\<lambda>_. []), env_float = (\<lambda>_. None)\<rparr>"

definition no_filter_yet :: "bytes list saltfilter" where
  "no_filter_yet = \<lparr>sf_done = False, sf_filter = None\<rparr>"

definition sample_ring :: "bytes list BloomRing" where
  "sample_ring = \<lparr>br_slotCapacity = 1, br_slotPosition = 0, br_slotCount = 3, br_entryCounter = 0,
     br_slots = [[], [], []], br_mutex = Free\<rparr>"

lemma sample_ring_wf: "ring_wf sample_ring"
  by (simp add: ring_wf_def sample_ring_def)

text \<open>A store with a small ring, and the same store after a salt was added.\<close>

definition sample_filter :: "bytes list saltfilter" where
  "sample_filter = \<lparr>sf_done = True, sf_filter = Some sample_ring\<rparr>"

lemma sample_filter_ok: "sf_ok sample_bloom sample_env sample_filter"
  by (simp add: sf_ok_done sample_filter_def sample_ring_wf)

definition sample_filter2 :: "bytes list saltfilter" where
  "sample_filter2 = (case AddSalt sample_bloom sample_env sample_filter (replicate 16 42) of Some (Val sf) \<Rightarrow> sf | _ \<Rightarrow> sample_filter)"

lemma sample_filter_run:
  "AddSalt sample_bloom sample_env sample_filter (replicate 16 42) = ret sample_filter2"
  "CheckSalt sample_bloom sample_env sample_filter2 (replicate 16 9) = ret (False, sample_filter2)"
  "CheckSalt sample_bloom sample_env sample_filter (replicate 16 42) = ret (False, sample_filter)"
  by code_simp+

lemma sample_sf_ok: "sf_ok sample_bloom sample_env no_filter_yet"
  using default_singleton [of sample_env no_filter_yet sample_bloom]
  by (auto simp: sf_ok_def sample_env_def no_filter_yet_def)

lemma fresh_store_knows_nothing:
  "\<exists>g'. CheckSalt sample_bloom sample_env no_filter_yet salt = ret (False, g')"
proof -
  from default_singleton [of sample_env no_filter_yet sample_bloom] obtain r where
    s: "getSaltFilterSingleton sample_bloom sample_env no_filter_yet = ret (no_filter_yet\<lparr>sf_done := True, sf_filter := Some r\<rparr>)"
    by (auto simp: sample_env_def no_filter_yet_def)
  then have r: "NewBloomRing sample_bloom 10 1000000 (1 / 1000000) = ret r"
    by (simp add: getSaltFilterSingleton_def sf_option_def sample_env_def no_filter_yet_def rat_trunc_def Let_def gobind_eq_ret)
  then have "\<not> BloomRing_test sample_bloom (br_slots r) salt"
    by (auto simp: NewBloomRing_def BloomRing_test_iff Let_def sample_bloom_def)
  with s CheckSalt_eq [OF sample_sf_ok, of salt] show ?thesis by auto
qed

subsection \<open>Properties\<close>

text \<open>
  C19: The ring remembers: a salt that was added is still reported by \<^verbatim>\<open>Test\<close> after as many further
  additions as all the other slots hold together, \<open>(slotCount - 1) * (slotCapacity + 1)\<close>.
\<close>

theorem ring_window:
  assumes "bloom_ok bl" "ring_wf r" "ilen bs \<le> (br_slotCount r - 1) * (br_slotCapacity r + 1)"
  shows "\<exists>r'. gobind (BloomRing_Add bl (Some r) b) (\<lambda>r1. Add_all bl r1 bs) = ret (Some r') \<and> ring_wf r' \<and>
    BloomRing_Test bl (Some r') b = ret (True, Some r')"
  using ring_remembers [OF assms, of b] by simp

theorem ring_window_witness:
  "\<exists>r'. gobind (BloomRing_Add sample_bloom (Some sample_ring) [1]) (\<lambda>r1. Add_all sample_bloom r1 [[2], [3], [4], [5]]) = ret (Some r') \<and>
    BloomRing_Test sample_bloom (Some r') [1] = ret (True, Some r')"
  using ring_window [OF sample_bloom_ok sample_ring_wf, of "[[2], [3], [4], [5]]" "[1]"]
  by (auto simp: sample_ring_def)

text \<open>
  C32: What the ring stands for.  After any additions \<open>bs\<close> to a new ring of \<open>slot\<close> slots, it holds exactly the most recent ones, in order and
  at most \<open>slotCapacity + 1\<close> to a slot: all of them, or more than \<open>(slot - 1) * (slotCapacity + 1)\<close>.  The older ones have no influence
  any more: \<^verbatim>\<open>Test\<close> asks filters that were empty and then given just these entries, and says yes to each of them.
\<close>

theorem ring_holds_recent:
  assumes "bloom_ok bl" "0 < slot" "0 \<le> capacity"
  shows "\<exists>r0 r old chunks fs. NewBloomRing bl slot capacity p = ret r0 \<and> Add_all bl (Some r0) bs = ret (Some r) \<and>
    bs = old @ concat chunks \<and> ilen chunks = slot \<and> (\<forall>xs \<in> set chunks. ilen xs \<le> capacity div slot + 1) \<and>
    (old = [] \<or> (slot - 1) * (capacity div slot + 1) < ilen (concat chunks)) \<and> list_all2 (loaded bl) fs chunks \<and>
    (\<forall>c. BloomRing_Test bl (Some r) c = ret (\<exists>f \<in> set fs. bl_Test bl f c, Some r)) \<and>
    (\<forall>c \<in> set (concat chunks). BloomRing_Test bl (Some r) c = ret (True, Some r))"
proof -
  from NewBloomRing_wf [OF assms(2,3), of bl p] obtain r0 where new: "NewBloomRing bl slot capacity p = ret r0" by blast
  from window_run [OF assms new, of bs] obtain r unused old full current where
    run: "Add_all bl (Some r0) bs = ret (Some r)" and wf: "ring_wf r" "br_slotCount r = slot" "br_slotCapacity r = capacity div slot"
    and w: "ring_window_of bl r bs unused old full current" by blast
  let ?chunks = "replicate unused [] @ full @ [current]" and ?k = "capacity div slot + 1"
  have all: "list_all2 (loaded bl) (by_age r) ?chunks" using w by (simp add: ring_window_of_def)
  have len: "ilen ?chunks = slot" using list_all2_lengthD [OF all] wf(1,2) by (simp add: by_age_def ring_wf_def)
  have full: "ilen xs = ?k" if "xs \<in> set full" for xs using w wf(3) that by (simp add: ring_window_of_def)
  have cur: "ilen current \<le> ?k" using w wf(1) by (simp add: ring_window_of_def ring_wf_def flip: wf(3))
  have "0 \<le> ?k" using assms(2,3) by (simp add: pos_imp_zdiv_nonneg_iff)
  with full cur have bound: "\<forall>xs \<in> set ?chunks. ilen xs \<le> ?k" by auto
  have "(slot - 1) * ?k < ilen (concat ?chunks)" if "old \<noteq> []"
  proof -
    have "unused = 0" "current \<noteq> []" using w that by (auto simp: ring_window_of_def)
    with len length_concat_const [of full ?k] full show ?thesis by auto
  qed
  moreover have test: "BloomRing_Test bl (Some r) c = ret (\<exists>f \<in> set (by_age r). bl_Test bl f c, Some r)" for c
    by (simp add: Test_eq [OF wf(1)] BloomRing_test_iff by_age_def)
  moreover have "BloomRing_Test bl (Some r) c = ret (True, Some r)" if c: "c \<in> set (concat ?chunks)" for c
  proof -
    from c obtain xs where "xs \<in> set ?chunks" "c \<in> set xs" by auto
    moreover from this(1) all obtain f where "f \<in> set (by_age r)" "loaded bl f xs" by (metis in_set_conv_nth list_all2_conv_all_nth)
    ultimately show ?thesis unfolding test using loaded_Test [OF assms(1)] by auto
  qed
  moreover have "bs = old @ concat ?chunks" using w by (simp add: ring_window_of_def)
  ultimately show ?thesis using new run len bound all by (intro exI [of _ r0] exI [of _ r] exI [of _ old] exI [of _ ?chunks] exI [of _ "by_age r"]) blast
qed

theorem ring_holds_recent_witness:
  "\<exists>r0 r old chunks. NewBloomRing sample_bloom 3 3 0 = ret r0 \<and>
    Add_all sample_bloom (Some r0) [[1], [2], [3], [4], [5], [6], [7]] = ret (Some r) \<and> [[1], [2], [3], [4], [5], [6], [7]] = old @ concat chunks \<and>
    4 < ilen (concat chunks) \<and> (\<forall>c \<in> set (concat chunks). BloomRing_Test sample_bloom (Some r) c = ret (True, Some r))"
proof -
  have "0 < (3 :: int)" "0 \<le> (3 :: int)" by simp_all
  from ring_holds_recent [OF sample_bloom_ok this, of 0 "[[1], [2], [3], [4], [5], [6], [7]]"] obtain r0 r old chunks where
    "NewBloomRing sample_bloom 3 3 0 = ret r0" "Add_all sample_bloom (Some r0) [[1], [2], [3], [4], [5], [6], [7]] = ret (Some r)"
    and bs: "[[1], [2], [3], [4], [5], [6], [7]] = old @ concat chunks" and "old = [] \<or> (3 - 1) * (3 div 3 + 1) < ilen (concat chunks)"
    and "\<forall>c \<in> set (concat chunks). BloomRing_Test sample_bloom (Some r) c = ret (True, Some r)"
    by (elim exE conjE) (rule that)
  moreover have "old = [] \<Longrightarrow> 4 < ilen (concat chunks)" using arg_cong [OF bs, of length] by simp
  ultimately show ?thesis by (intro exI conjI) auto
qed

text \<open>
  C29: Adding a salt always succeeds on a well-formed ring and keeps it well formed: the position stays
  inside the slots, no slot holds more than one entry above its capacity, and the lock is released.
\<close>

theorem ring_Add_invariant:
  assumes "ring_wf r"
  shows "\<exists>r'. BloomRing_Add bl (Some r) b = ret (Some r') \<and> ring_wf r' \<and>
    br_slotCount r' = br_slotCount r \<and> br_slotCapacity r' = br_slotCapacity r \<and>
    br_entryCounter r' = (if br_entryCounter r \<le> br_slotCapacity r then br_entryCounter r + 1 else 1)"
proof (cases "br_entryCounter r \<le> br_slotCapacity r")
  case True
  with assms show ?thesis by (auto simp: add_stay ring_wf_def)
next
  case False
  with assms add_rotate [OF assms, of bl b] next_slot [OF assms] show ?thesis
    by (auto simp: ring_wf_def)
qed

theorem ring_Add_invariant_witness:
  "\<exists>r'. BloomRing_Add sample_bloom (Some (sample_ring\<lparr>br_entryCounter := 2\<rparr>)) [9] = ret (Some r') \<and> ring_wf r' \<and>
    br_slotCount r' = 3 \<and> br_entryCounter r' = 1"
  using ring_Add_invariant [of "sample_ring\<lparr>br_entryCounter := 2\<rparr>" sample_bloom "[9]"]
  by (auto simp: ring_wf_def sample_ring_def)

text \<open>
  C31: \<^verbatim>\<open>BloomRing.Check\<close> never returns: it takes the write lock and then calls \<^verbatim>\<open>Test\<close>, which waits for
  the same lock.
\<close>

theorem ring_Check_deadlocks:
  assumes "ring_wf r"
  shows "BloomRing_Check bl (Some r) b = None"
  using assms by (rule Check_deadlock)

theorem ring_Check_deadlocks_witness: "BloomRing_Check sample_bloom (Some sample_ring) [1] = None"
  by (rule ring_Check_deadlocks [OF sample_ring_wf])

text \<open>
  The filter's hash separates neighbours: two byte strings of the same length that differ in exactly
  one byte differ in both 64-bit hashes.
\<close>

theorem doubleFNV_one_byte:
  assumes "x \<noteq> y"
  shows "fst (doubleFNV (pre @ x # post)) \<noteq> fst (doubleFNV (pre @ y # post)) \<and>
    snd (doubleFNV (pre @ x # post)) \<noteq> snd (doubleFNV (pre @ y # post))"
  using assms by (simp add: doubleFNV_def foldl_inj [OF fnv1_step_inj] foldl_inj [OF fnv1a_step_inj] fnv_step_byte_inj)

theorem doubleFNV_one_byte_witness:
  "(0 :: byte) \<noteq> 1 \<and> fst (doubleFNV ([7, 7] @ 0 # [9])) \<noteq> fst (doubleFNV ([7, 7] @ 1 # [9]))"
  using doubleFNV_one_byte [of 0 1 "[7, 7]" "[9]"] by simp



text \<open>
  \<^verbatim>\<open>CheckSalt\<close> only asks: it leaves every later answer of the store unchanged, so a salt that was
  received once and checked is not known the second time either.
\<close>

theorem CheckSalt_records_nothing:
  assumes "sf_ok bl en g" "CheckSalt bl en g salt = ret (t, g')"
  shows "CheckSalt bl en g' other = CheckSalt bl en g other \<and> CheckSalt bl en g' salt = ret (t, g')"
  using salts.check_keeps [OF assms] salts.check_again [OF assms] by simp

theorem CheckSalt_records_nothing_witness:
  "\<exists>g'. CheckSalt sample_bloom sample_env no_filter_yet [1, 2] = ret (False, g') \<and>
    CheckSalt sample_bloom sample_env g' [1, 2] = ret (False, g')"
proof -
  obtain g' where c: "CheckSalt sample_bloom sample_env no_filter_yet [1, 2] = ret (False, g')"
    using fresh_store_knows_nothing by blast
  with CheckSalt_records_nothing [OF sample_sf_ok c, of "[]"] show ?thesis by blast
qed

end
