(* ===== verification/Shadow_Conn.thy ===== *)
theory Shadow_Conn
  imports Shadow_Pump Salt_Filter
begin

text \<open>
  \<open>streamConn\<close> of \<^verbatim>\<open>m_shadow/stream.go\<close>: a connection that, on its first read, takes the peer's salt off
  the wire and, on its first write, sends a salt of its own.

  The reader, the writer and the connection object share one \<^verbatim>\<open>net.Conn\<close>.  The model keeps it in
  \<open>sc_Conn\<close>: each call hands the current connection to the reader or writer and takes it back.  The salt
  filter and the source of random bytes are the process-wide \<open>world\<close>.
\<close>

record ('f, 'g) world =
  wd_salts :: "'f saltfilter"
  wd_rand :: 'g

record 'c streamConn =
  sc_Conn :: 'c
  sc_Cipher :: metaCipher
  sc_r :: "'c sreader option"
  sc_w :: "'c swriter option"

definition NewConn :: "'c \<Rightarrow> metaCipher \<Rightarrow> 'c streamConn" where
  "NewConn c ciph = \<lparr>sc_Conn = c, sc_Cipher = ciph, sc_r = None, sc_w = None\<rparr>"

subsection \<open>Reading\<close>

definition streamConn_initReader ::
  "crypto \<Rightarrow> 'f bloom \<Rightarrow> env \<Rightarrow> 'c reader_fn \<Rightarrow> 'c streamConn \<Rightarrow> ('f, 'g) world \<Rightarrow>
   (goerr option \<times> 'c streamConn \<times> ('f, 'g) world) go" where
  "streamConn_initReader cr bl en rd c g =
     gobind (ReadFull rd (sc_Conn c) (replicate (metaCipher_SaltSize (sc_Cipher c)) 0)) (\<lambda>(_, salt, err, s).
     let c = c\<lparr>sc_Conn := s\<rparr> in
     case err of
       Some e \<Rightarrow> ret (Some e, c, g)
     | None \<Rightarrow>
         gobind (metaCipher_Decrypter cr (sc_Cipher c) salt) (\<lambda>aead.
         case aead of
           Inl e \<Rightarrow> ret (Some e, c, g)
         | Inr a \<Rightarrow>
             gobind (CheckSalt bl en (wd_salts g) salt) (\<lambda>(repeated, sf).
             let g = g\<lparr>wd_salts := sf\<rparr> in
             if repeated then ret (Some ErrRepeatedSalt, c, g)
             else ret (None, c\<lparr>sc_r := Some (newReader (sc_Conn c) a)\<rparr>, g))))"

text \<open>\<^verbatim>\<open>if c.r == nil { if err := c.initReader(); err != nil { return 0, err } }\<close>\<close>

definition streamConn_needReader ::
  "crypto \<Rightarrow> 'f bloom \<Rightarrow> env \<Rightarrow> 'c reader_fn \<Rightarrow> 'c streamConn \<Rightarrow> ('f, 'g) world \<Rightarrow>
   (goerr option \<times> 'c streamConn \<times> ('f, 'g) world) go" where
  "streamConn_needReader cr bl en rd c g =
     (case sc_r c of None \<Rightarrow> streamConn_initReader cr bl en rd c g | Some _ \<Rightarrow> ret (None, c, g))"

definition sc_reader :: "'c streamConn \<Rightarrow> 'c sreader go" where
  "sc_reader c = (case sc_r c of None \<Rightarrow> throw NilDeref | Some r \<Rightarrow> ret (r\<lparr>r_Reader := sc_Conn c\<rparr>))"

definition streamConn_Read ::
  "crypto \<Rightarrow> 'f bloom \<Rightarrow> env \<Rightarrow> 'c reader_fn \<Rightarrow> ('c streamConn \<times> ('f, 'g) world) reader_fn" where
  "streamConn_Read cr bl en rd = (\<lambda>(c, g) b.
     gobind (streamConn_needReader cr bl en rd c g) (\<lambda>(err, c, g).
     case err of
       Some e \<Rightarrow> ret (0, b, Some e, (c, g))
     | None \<Rightarrow>
         gobind (sc_reader c) (\<lambda>r.
         gobind (reader_Read rd r b) (\<lambda>(n, b, err, r).
         ret (n, b, err, (c\<lparr>sc_Conn := r_Reader r, sc_r := Some r\<rparr>, g))))))"

definition streamConn_WriteTo ::
  "crypto \<Rightarrow> 'f bloom \<Rightarrow> env \<Rightarrow> 'c reader_fn \<Rightarrow> 'w writer_fn \<Rightarrow> 'c streamConn \<Rightarrow> ('f, 'g) world \<Rightarrow> 'w \<Rightarrow>
   (int \<times> goerr option \<times> 'c streamConn \<times> ('f, 'g) world \<times> 'w) go" where
  "streamConn_WriteTo cr bl en rd wr c g w =
     gobind (streamConn_needReader cr bl en rd c g) (\<lambda>(err, c, g).
     case err of
       Some e \<Rightarrow> ret (0, Some e, c, g, w)
     | None \<Rightarrow>
         gobind (sc_reader c) (\<lambda>r.
         gobind (reader_WriteTo rd wr r w) (\<lambda>(n, err, r, w).
         ret (n, err, c\<lparr>sc_Conn := r_Reader r, sc_r := Some r\<rparr>, g, w))))"

subsection \<open>Writing\<close>

definition streamConn_initWriter ::
  "crypto \<Rightarrow> 'f bloom \<Rightarrow> env \<Rightarrow> 'g reader_fn \<Rightarrow> 'c writer_fn \<Rightarrow> 'c streamConn \<Rightarrow> ('f, 'g) world \<Rightarrow>
   (goerr option \<times> 'c streamConn \<times> ('f, 'g) world) go" where
  "streamConn_initWriter cr bl en rnd wr c g =
     gobind (ReadFull rnd (wd_rand g) (replicate (metaCipher_SaltSize (sc_Cipher c)) 0)) (\<lambda>(_, salt, err, s).
     let g = g\<lparr>wd_rand := s\<rparr> in
     case err of
       Some e \<Rightarrow> ret (Some e, c, g)
     | None \<Rightarrow>
         gobind (metaCipher_Encrypter cr (sc_Cipher c) salt) (\<lambda>aead.
         case aead of
           Inl e \<Rightarrow> ret (Some e, c, g)
         | Inr a \<Rightarrow>
             gobind (wr (sc_Conn c) salt) (\<lambda>(_, err, s).
             let c = c\<lparr>sc_Conn := s\<rparr> in
             case err of
               Some e \<Rightarrow> ret (Some e, c, g)
             | None \<Rightarrow>
                 gobind (AddSalt bl en (wd_salts g) salt) (\<lambda>sf.
                 ret (None, c\<lparr>sc_w := Some (newWriter (sc_Conn c) a)\<rparr>, g\<lparr>wd_salts := sf\<rparr>)))))"

definition streamConn_needWriter ::
  "crypto \<Rightarrow> 'f bloom \<Rightarrow> env \<Rightarrow> 'g reader_fn \<Rightarrow> 'c writer_fn \<Rightarrow> 'c streamConn \<Rightarrow> ('f, 'g) world \<Rightarrow>
   (goerr option \<times> 'c streamConn \<times> ('f, 'g) world) go" where
  "streamConn_needWriter cr bl en rnd wr c g =
     (case sc_w c of None \<Rightarrow> streamConn_initWriter cr bl en rnd wr c g | Some _ \<Rightarrow> ret (None, c, g))"

definition sc_writer :: "'c streamConn \<Rightarrow> 'c swriter go" where
  "sc_writer c = (case sc_w c of None \<Rightarrow> throw NilDeref | Some w \<Rightarrow> ret (w\<lparr>w_Writer := sc_Conn c\<rparr>))"

definition streamConn_Write ::
  "crypto \<Rightarrow> 'f bloom \<Rightarrow> env \<Rightarrow> 'g reader_fn \<Rightarrow> 'c writer_fn \<Rightarrow> ('c streamConn \<times> ('f, 'g) world) writer_fn" where
  "streamConn_Write cr bl en rnd wr = (\<lambda>(c, g) b.
     gobind (streamConn_needWriter cr bl en rnd wr c g) (\<lambda>(err, c, g).
     case err of
       Some e \<Rightarrow> ret (0, Some e, (c, g))
     | None \<Rightarrow>
         gobind (sc_writer c) (\<lambda>w.
         gobind (writer_Write wr w b) (\<lambda>(n, err, w).
         ret (n, err, (c\<lparr>sc_Conn := w_Writer w, sc_w := Some w\<rparr>, g))))))"

definition streamConn_ReadFrom ::
  "crypto \<Rightarrow> 'f bloom \<Rightarrow> env \<Rightarrow> 'g reader_fn \<Rightarrow> 'c writer_fn \<Rightarrow> 's reader_fn \<Rightarrow> 'c streamConn \<Rightarrow> ('f, 'g) world \<Rightarrow> 's \<Rightarrow>
   (int \<times> goerr option \<times> 'c streamConn \<times> ('f, 'g) world \<times> 's) go" where
  "streamConn_ReadFrom cr bl en rnd wr rd c g s =
     gobind (streamConn_needWriter cr bl en rnd wr c g) (\<lambda>(err, c, g).
     case err of
       Some e \<Rightarrow> ret (0, Some e, c, g, s)
     | None \<Rightarrow>
         gobind (sc_writer c) (\<lambda>w.
         gobind (writer_ReadFrom wr rd w s) (\<lambda>(n, err, w, s).
         ret (n, err, c\<lparr>sc_Conn := w_Writer w, sc_w := Some w\<rparr>, g, s))))"

subsection \<open>Establishing the reading side\<close>

lemma sc_reader_Some: "sc_r c = Some r \<Longrightarrow> sc_reader c = ret (r\<lparr>r_Reader := sc_Conn c\<rparr>)"
  by (simp add: sc_reader_def)

definition session_reader :: "'c streamConn \<Rightarrow> 'c sreader" where
  "session_reader c = (the (sc_r c))\<lparr>r_Reader := sc_Conn c\<rparr>"

definition session_good ::
  "('s \<Rightarrow> bytes) \<Rightarrow> ('s \<Rightarrow> goerr) \<Rightarrow> ('s \<Rightarrow> bool) \<Rightarrow> 's streamConn \<times> ('f, 'g) world \<Rightarrow> bool" where
  "session_good content fin good = (\<lambda>(c, _). sc_r c \<noteq> None \<and> sr_good content fin good (session_reader c))"

locale session_stream = record_stream
begin

lemma initReader_step:
  assumes "good (sc_Conn c)" "crypto_ok cr" "cipher_made cr (sc_Cipher c)"
    and "metaCipher_SaltSize (sc_Cipher c) \<le> length (content (sc_Conn c))"
    and "CheckSalt bl en (wd_salts g) (take (metaCipher_SaltSize (sc_Cipher c)) (content (sc_Conn c))) = ret (repeated, sf)"
  shows "\<exists>a s. metaCipher_Encrypter cr (sc_Cipher c) (take (metaCipher_SaltSize (sc_Cipher c)) (content (sc_Conn c))) = ret (Inr a) \<and>
    aead_ok a \<and> good s \<and> fin s = fin (sc_Conn c) \<and>
    content s = drop (metaCipher_SaltSize (sc_Cipher c)) (content (sc_Conn c)) \<and>
    streamConn_initReader cr bl en rd c g =
      (if repeated then ret (Some ErrRepeatedSalt, c\<lparr>sc_Conn := s\<rparr>, g\<lparr>wd_salts := sf\<rparr>)
       else ret (None, c\<lparr>sc_Conn := s, sc_r := Some (newReader s a)\<rparr>, g\<lparr>wd_salts := sf\<rparr>))"
proof -
  let ?n = "metaCipher_SaltSize (sc_Cipher c)"
  from ReadFull_enough [OF assms(1), of "replicate ?n 0"] assms(4) obtain s where
    rf: "ReadFull rd (sc_Conn c) (replicate ?n 0) = ret (int ?n, take ?n (content (sc_Conn c)), None, s)"
    and s: "good s" "content s = drop ?n (content (sc_Conn c))" "fin s = fin (sc_Conn c)"
    by auto
  from made_aead [OF assms(2,3)] obtain a where
    "metaCipher_Encrypter cr (sc_Cipher c) (take ?n (content (sc_Conn c))) = ret (Inr a)"
    "metaCipher_Decrypter cr (sc_Cipher c) (take ?n (content (sc_Conn c))) = ret (Inr a)" "aead_ok a"
    by blast
  with rf s assms(5) show ?thesis
    by (intro exI [of _ a] exI [of _ s]) (simp add: streamConn_initReader_def)
qed

lemma initReader_short:
  assumes "good (sc_Conn c)" "length (content (sc_Conn c)) < metaCipher_SaltSize (sc_Cipher c)"
  shows "\<exists>s. streamConn_initReader cr bl en rd c g =
    ret (Some (short_read_err (length (content (sc_Conn c))) (fin (sc_Conn c))), c\<lparr>sc_Conn := s\<rparr>, g)"
  using ReadFull_short [OF assms(1), of "replicate (metaCipher_SaltSize (sc_Cipher c)) 0"] assms(2)
  by (auto simp: streamConn_initReader_def)

text \<open>Once the reader exists, the connection is a stream of the decrypted bytes.\<close>

lemma session_read_spec:
  assumes "session_good content fin good cg" "p \<noteq> []"
  shows "\<exists>k p' e cg'. streamConn_Read cr bl en rd cg p = ret (int k, p', e, cg') \<and> session_good content fin good cg' \<and>
    read_step (\<lambda>(c, _). sr_content content fin (session_reader c)) (\<lambda>(c, _). fin (sc_Conn c))
      (\<lambda>(c, _). sr_left content (session_reader c)) cg p k p' e cg'"
proof -
  obtain c g where cg: "cg = (c, g)" by (cases cg) auto
  with assms(1) obtain r where r: "sc_r c = Some r" and good: "sr_good content fin good (session_reader c)"
    by (auto simp: session_good_def)
  from plain.read_spec [OF good assms(2)] obtain k p' e r' where
    rd: "reader_Read rd (session_reader c) p = ret (int k, p', e, r')"
    and r': "sr_good content fin good r'"
      "read_step (sr_content content fin) (\<lambda>r. fin (r_Reader r)) (sr_left content) (session_reader c) p k p' e r'"
    by blast
  let ?c = "c\<lparr>sc_Conn := r_Reader r', sc_r := Some r'\<rparr>"
  have "streamConn_Read cr bl en rd cg p = ret (int k, p', e, (?c, g))"
    using rd r cg by (simp add: streamConn_Read_def streamConn_needReader_def sc_reader_def session_reader_def)
  moreover have "session_reader ?c = r'" "r_Reader (session_reader c) = sc_Conn c" by (simp_all add: session_reader_def)
  ultimately show ?thesis using r' cg by (auto simp: session_good_def read_step_def)
qed

end

sublocale session_stream \<subseteq> session: stream_reader "streamConn_Read cr bl en rd"
  "\<lambda>(c, _). sr_content content fin (session_reader c)" "\<lambda>(c, _). fin (sc_Conn c)" "session_good content fin good"
  "\<lambda>(c, _). sr_left content (session_reader c)" for cr bl en
  by unfold_locales (rule session_read_spec)

interpretation tcp_session: session_stream conn_Read conn_content c_fin "\<lambda>_. True" conn_left
  by unfold_locales

subsection \<open>Establishing the writing side\<close>

context pump
begin

lemma ReadFrom_all:
  assumes "good s" "usable (w_Writer w)" "sw_wf w" "\<And>e. \<not> sink_fails e"
  shows "\<exists>ps w' s'. writer_ReadFrom wr rd w s =
      ret (ilen (content s), (if fin s = EOF then None else Some (fin s)), w', s') \<and> good s' \<and> content s' = [] \<and>
    usable (w_Writer w') \<and> concat ps = content s \<and> sealed_run content sent w s ps [] w' s'"
proof -
  from writer_ReadFrom_loop_spec [OF assms(1-3), of 0] obtain ps rest err w' s' where
    l: "writer_ReadFrom_loop wr rd w s 0 = ret (0 + ilen (concat ps), err, w', s')" "good s'" "usable (w_Writer w')"
    and run: "sealed_run content sent w s ps rest w' s'" and e: "ended s err rest s'"
    by blast
  from e assms(4) have "rest = []" "content s' = []" "err = (if fin s = EOF then None else Some (fin s))"
    by (auto simp: ended_def)
  moreover from this run have "concat ps = content s" by (simp add: sealed_run_def)
  ultimately show ?thesis using l run by (auto simp: writer_ReadFrom_def)
qed

lemma WriteTo_all:
  assumes "good (r_Reader r)" "sr_wf r" "usable w" "\<And>e. \<not> sink_fails e"
  shows "\<exists>r' w'. reader_WriteTo rd wr r w = ret (ilen (sr_content content fin r),
      (let e = fst (snd (sr_decode content fin r)) in if e = EOF then None else Some e), r', w') \<and>
    good (r_Reader r') \<and> usable w' \<and> sent w' = sent w @ sr_content content fin r"
  using reader_WriteTo_spec [OF assms(1-3)] assms(4) by (auto simp: drained_def Let_def)

end

text \<open>A connection whose outgoing direction takes everything.\<close>

interpretation live_out: byte_sink conn_Write c_out "\<lambda>c. c_room c = None"
  by unfold_locales (auto simp: conn_Write_def write_step_def)

interpretation buf_live: pump buffer_Read "\<lambda>bs. bs" "\<lambda>_. EOF" "\<lambda>_. True" length
  conn_Write c_out "\<lambda>c. c_room c = None"
  by unfold_locales

interpretation tcp_live: pump conn_Read conn_content c_fin "\<lambda>_. True" conn_left
  conn_Write c_out "\<lambda>c. c_room c = None"
  by unfold_locales

lemma live_never_fails: "\<not> buf_live.sink_fails e" "\<not> tcp_live.sink_fails e"
  by (auto simp: buf_live.sink_fails_def tcp_live.sink_fails_def conn_Write_def)

interpretation buf_tcp: pump buffer_Read "\<lambda>bs. bs" "\<lambda>_. EOF" "\<lambda>_. True" length
  conn_Write c_out "\<lambda>_. True"
  by unfold_locales

interpretation tcp_tcp: pump conn_Read conn_content c_fin "\<lambda>_. True" conn_left
  conn_Write c_out "\<lambda>_. True"
  by unfold_locales

definition session_writer :: "'c streamConn \<Rightarrow> 'c swriter" where
  "session_writer c = (the (sc_w c))\<lparr>w_Writer := sc_Conn c\<rparr>"

abbreviation zero_nonce :: "aead \<Rightarrow> bytes" where
  "zero_nonce a \<equiv> replicate (a_NonceSize a) 0"

lemma initWriter_live:
  assumes "crypto_ok cr" "cipher_made cr (sc_Cipher c)" "sf_ok bl en (wd_salts g)"
    and "metaCipher_SaltSize (sc_Cipher c) \<le> length (wd_rand g)" "c_room (sc_Conn c) = None"
  defines "salt \<equiv> take (metaCipher_SaltSize (sc_Cipher c)) (wd_rand g)"
  shows "\<exists>a sf v. metaCipher_Encrypter cr (sc_Cipher c) salt = ret (Inr a) \<and> aead_ok a \<and>
    AddSalt bl en (wd_salts g) salt = ret sf \<and> sf_ok bl en sf \<and> c_room v = None \<and> c_out v = c_out (sc_Conn c) @ salt \<and>
    streamConn_initWriter cr bl en buffer_Read conn_Write c g =
      ret (None, c\<lparr>sc_Conn := v, sc_w := Some (newWriter v a)\<rparr>,
        g\<lparr>wd_rand := drop (metaCipher_SaltSize (sc_Cipher c)) (wd_rand g), wd_salts := sf\<rparr>)"
proof -
  let ?n = "metaCipher_SaltSize (sc_Cipher c)"
  from buffer.ReadFull_enough [where s = "wd_rand g" and p = "replicate ?n 0"] assms(4) have
    rf: "ReadFull buffer_Read (wd_rand g) (replicate ?n 0) = ret (int ?n, salt, None, drop ?n (wd_rand g))"
    by (auto simp: salt_def)
  from made_aead [OF assms(1,2), of salt] obtain a where
    a: "metaCipher_Encrypter cr (sc_Cipher c) salt = ret (Inr a)" "aead_ok a"
    by blast
  from AddSalt_total [OF assms(3), of salt] obtain sf where "AddSalt bl en (wd_salts g) salt = ret sf" "sf_ok bl en sf"
    by blast
  with rf a assms(5) show ?thesis
    by (intro exI [of _ a] exI [of _ sf] exI [of _ "(sc_Conn c)\<lparr>c_out := c_out (sc_Conn c) @ salt\<rparr>"])
      (simp add: streamConn_initWriter_def conn_Write_def)
qed

text \<open>The sender of a tunnel: a first write of \<open>tgt\<close>, then everything the source delivers.\<close>

lemma sender_wire:
  assumes "crypto_ok cr" "cipher_made cr ciph" "sf_ok bl en (wd_salts g)"
    and "metaCipher_SaltSize ciph \<le> length (wd_rand g)" "c_room w = None"
  defines "salt \<equiv> take (metaCipher_SaltSize ciph) (wd_rand g)"
  shows "\<exists>a ps c1 g1 c2 s'. metaCipher_Encrypter cr ciph salt = ret (Inr a) \<and> aead_ok a \<and>
    streamConn_Write cr bl en buffer_Read conn_Write (NewConn w ciph, g) tgt = ret (ilen tgt, None, (c1, g1)) \<and>
    streamConn_ReadFrom cr bl en buffer_Read conn_Write conn_Read c1 g1 s =
      ret (ilen (conn_content s), (if c_fin s = EOF then None else Some (c_fin s)), c2, g1, s') \<and>
    payloads_ok ps \<and> concat ps = tgt @ conn_content s \<and>
    c_out (sc_Conn c2) = c_out w @ salt @ records a (zero_nonce a) ps"
proof -
  let ?c = "NewConn w ciph"
  from initWriter_live [of cr ?c bl en g] assms obtain a sf v where
    a: "metaCipher_Encrypter cr ciph salt = ret (Inr a)" "aead_ok a"
    and v: "c_room v = None" "c_out v = c_out w @ salt"
    and init: "streamConn_initWriter cr bl en buffer_Read conn_Write ?c g =
      ret (None, ?c\<lparr>sc_Conn := v, sc_w := Some (newWriter v a)\<rparr>,
        g\<lparr>wd_rand := drop (metaCipher_SaltSize ciph) (wd_rand g), wd_salts := sf\<rparr>)"
    by (auto simp: NewConn_def)
  let ?w0 = "newWriter v a"
  have w0: "sw_wf ?w0" "w_Writer ?w0 = v" "w_AEAD ?w0 = a" "w_nonce ?w0 = zero_nonce a"
    using sw_wf_newWriter [OF a(2)] by (simp_all add: newWriter_def)
  from buf_live.ReadFrom_all [OF _ _ w0(1) live_never_fails(1), of tgt] v(1) w0(2) obtain ps1 w1 s1 where
    f1: "writer_ReadFrom conn_Write buffer_Read ?w0 tgt = ret (ilen tgt, None, w1, s1)"
    and w1: "c_room (w_Writer w1) = None" and ps1: "concat ps1 = tgt" "sealed_run (\<lambda>bs. bs) c_out ?w0 tgt ps1 [] w1 s1"
    by auto
  from ps1(2) have wf1: "sw_wf w1" by (simp add: sealed_run_def)
  from tcp_live.ReadFrom_all [OF _ w1 wf1 live_never_fails(2), of s] obtain ps2 w2 s2 where
    f2: "writer_ReadFrom conn_Write conn_Read w1 s =
      ret (ilen (conn_content s), (if c_fin s = EOF then None else Some (c_fin s)), w2, s2)"
    and ps2: "concat ps2 = conn_content s" "sealed_run conn_content c_out w1 s ps2 [] w2 s2"
    by auto
  have wire: "c_out (w_Writer w2) = c_out w @ salt @ records a (zero_nonce a) (ps1 @ ps2)" "payloads_ok (ps1 @ ps2)"
    using ps1(2) ps2(2) v(2) w0(2-4) by (auto simp: sealed_run_def records_append)
  let ?g1 = "g\<lparr>wd_rand := drop (metaCipher_SaltSize ciph) (wd_rand g), wd_salts := sf\<rparr>"
  let ?c1 = "?c\<lparr>sc_Conn := w_Writer w1, sc_w := Some w1\<rparr>"
  have "streamConn_Write cr bl en buffer_Read conn_Write (?c, g) tgt = ret (ilen tgt, None, (?c1, ?g1))"
    using init f1 w0(2) by (simp add: streamConn_Write_def streamConn_needWriter_def NewConn_def sc_writer_def writer_Write_def newWriter_def)
  moreover have "streamConn_ReadFrom cr bl en buffer_Read conn_Write conn_Read ?c1 ?g1 s =
      ret (ilen (conn_content s), (if c_fin s = EOF then None else Some (c_fin s)),
        ?c1\<lparr>sc_Conn := w_Writer w2, sc_w := Some w2\<rparr>, ?g1, s2)"
    using f2 by (simp add: streamConn_ReadFrom_def streamConn_needWriter_def sc_writer_def)
  ultimately show ?thesis using a wire ps1(1) ps2(1)
    by (intro exI [of _ a] exI [of _ "ps1 @ ps2"] exI conjI) (assumption | simp)+
qed

text \<open>The receiver of a tunnel, on a connection that carries a salt it has not seen and a record stream.\<close>

lemma receiver_session:
  assumes "crypto_ok cr" "cipher_made cr ciph" "length salt = metaCipher_SaltSize ciph"
    and "metaCipher_Encrypter cr ciph salt = ret (Inr a)" "aead_ok a" "payloads_ok ps"
    and "conn_content d = salt @ records a (zero_nonce a) ps"
    and "CheckSalt bl en (wd_salts g) salt = ret (False, sf)"
  shows "\<exists>c. streamConn_initReader cr bl en conn_Read (NewConn d ciph) g = ret (None, c, g\<lparr>wd_salts := sf\<rparr>) \<and>
    session_good conn_content c_fin (\<lambda>_. True) (c, g\<lparr>wd_salts := sf\<rparr>) \<and>
    sr_content conn_content c_fin (session_reader c) = concat ps \<and> c_fin (sc_Conn c) = c_fin d"
proof -
  from tcp_session.initReader_step [where c = "NewConn d ciph" and cr = cr and bl = bl and en = en and g = g and repeated = False and sf = sf] assms obtain s where
    s: "conn_content s = records a (zero_nonce a) ps" "c_fin s = c_fin d"
    and init: "streamConn_initReader cr bl en conn_Read (NewConn d ciph) g =
      ret (None, (NewConn d ciph)\<lparr>sc_Conn := s, sc_r := Some (newReader s a)\<rparr>, g\<lparr>wd_salts := sf\<rparr>)"
    by (auto simp: NewConn_def)
  let ?c = "(NewConn d ciph)\<lparr>sc_Conn := s, sc_r := Some (newReader s a)\<rparr>"
  have r: "session_reader ?c = newReader s a" by (simp add: session_reader_def newReader_def)
  have dec: "decode a (zero_nonce a) f (records a (zero_nonce a) ps) = (ps, f, [])" for f
    using assms(5,6) by (simp add: decode_records)
  have "sr_decode conn_content c_fin (newReader s a) = (ps, c_fin s, [])"
    using s(1) dec by (simp add: sr_decode_def newReader_def)
  moreover have "r_leftover (newReader s a) = []" by (simp add: newReader_def)
  ultimately show ?thesis using init s(2) r assms(5)
    by (intro exI [of _ ?c]) (simp add: session_good_def sr_good_def sr_content_def sr_wf_newReader)
qed

subsection \<open>Properties of the record stream over TCP\<close>

definition sample_aead :: aead where
  "sample_aead = gcm sample_crypto (replicate 16 7)"

lemma sample_aead_ok: "aead_ok sample_aead"
  using sample_crypto_ok by (simp add: crypto_ok_def sample_aead_def)

definition sample_conn :: "bytes list \<Rightarrow> conn" where
  "sample_conn segs = \<lparr>c_in = segs, c_fin = EOF, c_out = [], c_room = None, c_werr = EOF\<rparr>"

text \<open>
  C12: What the \<open>writer\<close> puts on the wire: for every source connection, however its bytes are cut into
  segments, and every sink, even one that fails midway, \<^verbatim>\<open>ReadFrom\<close> returns, the bytes it consumed are
  counted, and the sink received a prefix of the record encoding of exactly these bytes; without an error it
  received all of it and the source was read to its end.
\<close>

theorem writer_ReadFrom_wire:
  assumes "sw_wf w"
  shows "\<exists>ps rest err w' s'. writer_ReadFrom conn_Write conn_Read w s = ret (ilen (concat ps), err, w', s') \<and>
    payloads_ok ps \<and> conn_content s = concat ps @ conn_content s' \<and>
    c_out (w_Writer w') @ rest = c_out (w_Writer w) @ records (w_AEAD w) (w_nonce w) ps \<and>
    (err = None \<longrightarrow> rest = [] \<and> conn_content s' = [] \<and> c_fin s = EOF)"
proof -
  from tcp_tcp.writer_ReadFrom_loop_spec [where s = s and w = w and n = 0] assms obtain ps rest err w' s' where
    "writer_ReadFrom_loop conn_Write conn_Read w s 0 = ret (ilen (concat ps), err, w', s')"
    "sealed_run conn_content c_out w s ps rest w' s'" "tcp_tcp.ended s err rest s'"
    by auto
  then show ?thesis
    by (intro exI [of _ ps] exI [of _ rest] exI [of _ err] exI [of _ w'] exI [of _ s'])
      (auto simp: writer_ReadFrom_def sealed_run_def tcp_tcp.ended_def split: if_splits)
qed

theorem writer_ReadFrom_wire_witness:
  "\<exists>ps rest err w' s'. writer_ReadFrom conn_Write conn_Read (newWriter (sample_conn []) sample_aead) (sample_conn [[1, 2], [3]]) =
      ret (ilen (concat ps), err, w', s') \<and> [1, 2, 3] = concat ps @ conn_content s' \<and>
    c_out (w_Writer w') @ rest = records sample_aead (replicate 12 0) ps"
proof -
  let ?w = "newWriter (sample_conn []) sample_aead" and ?s = "sample_conn [[1, 2], [3]]"
  have "conn_content ?s = [1, 2, 3]" "c_out (w_Writer ?w) = []" "w_AEAD ?w = sample_aead" "w_nonce ?w = replicate 12 0"
    by (simp_all add: newWriter_def sample_conn_def conn_content_def sample_aead_def gcm_def)
  with writer_ReadFrom_wire [OF sw_wf_newWriter [OF sample_aead_ok], of "sample_conn []" ?s] show ?thesis
    by (metis append_Nil)
qed

text \<open>
  C13: What the \<open>reader\<close> delivers: on every incoming connection, whatever bytes it carries, \<^verbatim>\<open>WriteTo\<close>
  returns, and what it handed to the sink is a prefix of the authenticated payloads that \<open>decode\<close> finds; without an
  error it handed over all of them and the stream ended between two records.
\<close>

theorem reader_WriteTo_decodes:
  fixes s w :: conn
  assumes "aead_ok a"
  defines "d \<equiv> decode a (replicate (a_NonceSize a) 0) (c_fin s) (conn_content s)"
  shows "\<exists>k err r' w'. reader_WriteTo conn_Read conn_Write (newReader s a) w = ret (int k, err, r', w') \<and>
    k \<le> length (concat (fst d)) \<and> c_out w' = c_out w @ take k (concat (fst d)) \<and>
    (err = None \<longrightarrow> k = length (concat (fst d)) \<and> fst (snd d) = EOF)"
proof -
  have "sr_decode conn_content c_fin (newReader s a) = d" "sr_content conn_content c_fin (newReader s a) = concat (fst d)"
    by (simp_all add: sr_decode_def sr_content_def newReader_def d_def)
  with tcp_tcp.reader_WriteTo_spec [OF _ sr_wf_newReader [OF assms(1)], of s w] show ?thesis
    by (auto simp: tcp_tcp.drained_def split: if_splits)
qed

theorem reader_WriteTo_decodes_witness:
  "\<exists>k err r' w'. reader_WriteTo conn_Read conn_Write (newReader (sample_conn [records sample_aead (replicate 12 0) [[1, 2], [3]]]) sample_aead)
      (sample_conn []) = ret (int k, err, r', w') \<and> c_out w' = take k [1, 2, 3]"
proof -
  have "decode sample_aead (replicate 12 0) EOF (records sample_aead (replicate 12 0) [[1, 2], [3]]) = ([[1, 2], [3]], EOF, [])"
    by (rule decode_records [OF sample_aead_ok]) (simp_all add: sample_aead_def gcm_def psm)
  moreover have "a_NonceSize sample_aead = 12" by (simp add: sample_aead_def gcm_def)
  ultimately show ?thesis
    using reader_WriteTo_decodes [OF sample_aead_ok, of "sample_conn [records sample_aead (replicate 12 0) [[1, 2], [3]]]" "sample_conn []"]
    by (auto simp: sample_conn_def conn_content_def)
qed



text \<open>A record stream followed by other bytes.\<close>

lemma decode_append:
  assumes "aead_ok a" "length nonce = a_NonceSize a" "payloads_ok ps"
  shows "decode a nonce fin (records a nonce ps @ bs) =
    (case decode a ((increment ^^ (2 * length ps)) nonce) fin bs of (qs, e, u) \<Rightarrow> (ps @ qs, e, u))"
  using assms(2,3)
proof (induction ps arbitrary: nonce)
  case Nil
  then show ?case by (simp split: prod.split)
next
  case (Cons p ps)
  have "open_record a nonce fin (records a nonce (p # ps) @ bs) = Inr (p, records a (increment (increment nonce)) ps @ bs)"
    using open_record_record [OF assms(1) Cons.prems(1), of p fin "records a (increment (increment nonce)) ps @ bs"] Cons.prems(2)
    by simp
  moreover have "(increment ^^ (2 * length (p # ps))) nonce = (increment ^^ (2 * length ps)) (increment (increment nonce))"
    by (simp add: funpow_swap1)
  ultimately show ?case using Cons by (simp add: decode_Inr split: prod.split)
qed

text \<open>
  Bytes that do not authenticate as the next record: the sealed size field does not open, or it opens and the sealed payload of the size
  it gives does not.
\<close>

definition unauthentic :: "aead \<Rightarrow> bytes \<Rightarrow> bytes \<Rightarrow> bool" where
  "unauthentic a nonce bs =
     (2 + a_Overhead a \<le> length bs \<and>
      (case a_Open a nonce (take (2 + a_Overhead a) bs) of
         None \<Rightarrow> True
       | Some sz \<Rightarrow>
           let n = nat (payload_size (sz ! 0) (sz ! 1)) + a_Overhead a; payload = drop (2 + a_Overhead a) bs in
           n \<le> length payload \<and> a_Open a (increment nonce) (take n payload) = None))"

lemma open_record_unauthentic: "unauthentic a nonce bs \<Longrightarrow> open_record a nonce fin bs = Inl AeadOpenError"
  by (auto simp: unauthentic_def open_record_def open_part_def Let_def split: option.splits)

text \<open>
  C14: Tampering is noticed: behind any number of intact records, a record whose size field does not authenticate, or whose payload
  does not, ends the stream, whatever follows it.  Exactly the intact payloads before it reach a sink that does not fail, and the error is the
  authentication error.
\<close>

theorem reader_rejects_tampering:
  assumes "aead_ok a" "payloads_ok ps" "unauthentic a ((increment ^^ (2 * length ps)) (replicate (a_NonceSize a) 0)) bad"
    and "conn_content s = records a (replicate (a_NonceSize a) 0) ps @ bad" "c_room w = None"
  shows "\<exists>r' w'. reader_WriteTo conn_Read conn_Write (newReader s a) w =
      ret (ilen (concat ps), Some AeadOpenError, r', w') \<and> c_out w' = c_out w @ concat ps"
proof -
  let ?n = "replicate (a_NonceSize a) 0"
  have "decode a ?n (c_fin s) (conn_content s) = (ps, AeadOpenError, bad)"
    using decode_append [OF assms(1) _ assms(2), of ?n "c_fin s" bad] assms(4) open_record_unauthentic [OF assms(3)] by (simp add: decode_Inl)
  then have d: "sr_decode conn_content c_fin (newReader s a) = (ps, AeadOpenError, bad)"
    "sr_content conn_content c_fin (newReader s a) = concat ps"
    by (simp_all add: sr_decode_def sr_content_def newReader_def)
  from tcp_live.WriteTo_all [OF _ sr_wf_newReader [OF assms(1)] _ live_never_fails(2), of w s] assms(5) d
  show ?thesis by auto
qed

text \<open>A forged size field, and a forged payload behind a size field that was recorded.\<close>

lemma sample_unauthentic:
  "unauthentic sample_aead (increment (increment (replicate 12 0))) (replicate 20 9)"
  "unauthentic sample_aead (increment (increment (replicate 12 0)))
     (a_Seal sample_aead (increment (increment (replicate 12 0))) [0, 3] @ replicate 19 9)"
  by code_simp+

theorem reader_rejects_tampering_witness:
  "(\<exists>r' w'. reader_WriteTo conn_Read conn_Write
      (newReader (sample_conn [records sample_aead (replicate 12 0) [[1, 2]], replicate 20 9]) sample_aead) (sample_conn []) =
      ret (2, Some AeadOpenError, r', w') \<and> c_out w' = [1, 2]) \<and>
   (\<exists>r' w'. reader_WriteTo conn_Read conn_Write
      (newReader (sample_conn [records sample_aead (replicate 12 0) [[1, 2]],
         a_Seal sample_aead (increment (increment (replicate 12 0))) [0, 3] @ replicate 19 9]) sample_aead) (sample_conn []) =
      ret (2, Some AeadOpenError, r', w') \<and> c_out w' = [1, 2])"
proof -
  have n: "a_NonceSize sample_aead = 12" by (simp add: sample_aead_def gcm_def)
  have "\<exists>r' w'. reader_WriteTo conn_Read conn_Write (newReader (sample_conn [records sample_aead (replicate 12 0) [[1, 2]], bad]) sample_aead) (sample_conn []) =
      ret (2, Some AeadOpenError, r', w') \<and> c_out w' = [1, 2]"
    if "unauthentic sample_aead (increment (increment (replicate 12 0))) bad" for bad
    using reader_rejects_tampering [OF sample_aead_ok, of "[[1, 2]]" bad
      "sample_conn [records sample_aead (replicate 12 0) [[1, 2]], bad]" "sample_conn []"] n that
    by (simp add: psm sample_conn_def conn_content_def numeral_2_eq_2)
  with sample_unauthentic show ?thesis by blast
qed

text \<open>
  C27: A known salt is refused: a connection whose first bytes are a salt the store knows gets
  \<open>ErrRepeatedSalt\<close> and no reader, so nothing behind the salt is decrypted.
\<close>

theorem initReader_refuses_known_salt:
  assumes "crypto_ok cr" "cipher_made cr (sc_Cipher c)" "length salt = metaCipher_SaltSize (sc_Cipher c)"
    and "conn_content (sc_Conn c) = salt @ rest" "CheckSalt bl en (wd_salts g) salt = ret (True, sf)" "sc_r c = None"
  shows "\<exists>s. streamConn_initReader cr bl en conn_Read c g =
      ret (Some ErrRepeatedSalt, c\<lparr>sc_Conn := s\<rparr>, g\<lparr>wd_salts := sf\<rparr>) \<and> conn_content s = rest \<and> sc_r (c\<lparr>sc_Conn := s\<rparr>) = None"
  using tcp_session.initReader_step [where c = c and cr = cr and bl = bl and en = en and g = g and repeated = True and sf = sf] assms by (auto simp: take_append)

definition sample_world :: "(bytes list, bytes) world" where
  "sample_world = \<lparr>wd_salts = no_filter_yet, wd_rand = replicate 16 42\<rparr>"

theorem initReader_refuses_known_salt_witness:
  "\<exists>g s g'. streamConn_initReader sample_crypto sample_bloom sample_env conn_Read
      (NewConn (sample_conn [replicate 16 42, [1, 2]]) sample_cipher) (g :: (bytes list, bytes) world) =
      ret (Some ErrRepeatedSalt, (NewConn (sample_conn [replicate 16 42, [1, 2]]) sample_cipher)\<lparr>sc_Conn := s\<rparr>, g')"
proof -
  from AddSalt_known [OF sample_bloom_ok sample_sf_ok, of _ "replicate 16 42"] default_singleton [of sample_env no_filter_yet sample_bloom]
  obtain sf where "CheckSalt sample_bloom sample_env sf (replicate 16 42) = ret (True, sf)"
    by (auto simp: sample_env_def no_filter_yet_def)
  with initReader_refuses_known_salt [OF sample_crypto_ok, of "NewConn (sample_conn [replicate 16 42, [1, 2]]) sample_cipher"
      "replicate 16 42" "[1, 2]" sample_bloom sample_env "sample_world\<lparr>wd_salts := sf\<rparr>" sf]
  show ?thesis
    by (auto simp: NewConn_def sample_cipher_made sample_salt_size sample_conn_def conn_content_def)
qed

text \<open>
  C26: Reflection is refused: a salt this process sent with the first write of one connection is a known
  salt for the readers of all its connections.
\<close>

theorem own_salt_refused:
  assumes "crypto_ok cr" "cipher_made cr ciph" "bloom_ok bl" "sf_ok bl en (wd_salts g)"
    and "getSaltFilterSingleton bl en (wd_salts g) = ret sf0" "sf_filter sf0 \<noteq> None"
    and "metaCipher_SaltSize ciph \<le> length (wd_rand g)" "c_room w = None"
    and "conn_content d = take (metaCipher_SaltSize ciph) (wd_rand g) @ rest"
  shows "\<exists>c1 g1 c2 g2. streamConn_initWriter cr bl en buffer_Read conn_Write (NewConn w ciph) g = ret (None, c1, g1) \<and>
    streamConn_initReader cr bl en conn_Read (NewConn d ciph) g1 = ret (Some ErrRepeatedSalt, c2, g2)"
proof -
  let ?salt = "take (metaCipher_SaltSize ciph) (wd_rand g)"
  from initWriter_live [of cr "NewConn w ciph" bl en g] assms obtain a sf v where
    add: "AddSalt bl en (wd_salts g) ?salt = ret sf"
    and init: "streamConn_initWriter cr bl en buffer_Read conn_Write (NewConn w ciph) g =
      ret (None, (NewConn w ciph)\<lparr>sc_Conn := v, sc_w := Some (newWriter v a)\<rparr>,
        g\<lparr>wd_rand := drop (metaCipher_SaltSize ciph) (wd_rand g), wd_salts := sf\<rparr>)"
    by (auto simp: NewConn_def)
  from AddSalt_known [OF assms(3-6), of ?salt] add have "CheckSalt bl en sf ?salt = ret (True, sf)" by auto
  with tcp_session.initReader_step [where c = "NewConn d ciph" and cr = cr and bl = bl and en = en and repeated = True and sf = sf
      and g = "g\<lparr>wd_rand := drop (metaCipher_SaltSize ciph) (wd_rand g), wd_salts := sf\<rparr>"] assms
  have "\<exists>c2 g2. streamConn_initReader cr bl en conn_Read (NewConn d ciph)
      (g\<lparr>wd_rand := drop (metaCipher_SaltSize ciph) (wd_rand g), wd_salts := sf\<rparr>) = ret (Some ErrRepeatedSalt, c2, g2)"
    by (auto simp: NewConn_def)
  with init show ?thesis by blast
qed

theorem own_salt_refused_witness:
  "\<exists>c1 g1 c2 g2. streamConn_initWriter sample_crypto sample_bloom sample_env buffer_Read conn_Write
      (NewConn (sample_conn []) sample_cipher) sample_world = ret (None, c1, g1) \<and>
    streamConn_initReader sample_crypto sample_bloom sample_env conn_Read
      (NewConn (sample_conn [replicate 16 42, [1]]) sample_cipher) g1 = ret (Some ErrRepeatedSalt, c2, g2)"
proof -
  from default_singleton [of sample_env no_filter_yet sample_bloom] obtain sf0 where
    "getSaltFilterSingleton sample_bloom sample_env no_filter_yet = ret sf0" "sf_filter sf0 \<noteq> None"
    by (auto simp: sample_env_def no_filter_yet_def)
  with own_salt_refused [OF sample_crypto_ok sample_cipher_made sample_bloom_ok, of sample_env sample_world sf0 "sample_conn []"
      "sample_conn [replicate 16 42, [1]]" "[1]"] show ?thesis
    by (simp add: sample_world_def sample_sf_ok sample_salt_size sample_conn_def conn_content_def)
qed

text \<open>
  C28: Replay is not refused: a recorded session (a salt and its records) that a process has accepted once
  is accepted a second time, because receiving a salt does not record it.
\<close>

theorem replay_accepted:
  assumes "crypto_ok cr" "cipher_made cr ciph" "sf_ok bl en (wd_salts g)" "length salt = metaCipher_SaltSize ciph"
    and "CheckSalt bl en (wd_salts g) salt = ret (False, sf)"
    and "conn_content d1 = salt @ recorded" "conn_content d2 = salt @ recorded"
  shows "\<exists>c1 g1 c2 g2. streamConn_initReader cr bl en conn_Read (NewConn d1 ciph) g = ret (None, c1, g1) \<and>
    streamConn_initReader cr bl en conn_Read (NewConn d2 ciph) g1 = ret (None, c2, g2) \<and>
    r_AEAD (session_reader c1) = r_AEAD (session_reader c2) \<and> conn_content (sc_Conn c1) = recorded \<and> conn_content (sc_Conn c2) = recorded"
proof -
  let ?g = "g\<lparr>wd_salts := sf\<rparr>"
  have again: "CheckSalt bl en (wd_salts ?g) salt = ret (False, sf)"
    using salts.check_again [OF assms(3,5)] by simp
  from tcp_session.initReader_step [where c = "NewConn d1 ciph" and cr = cr and bl = bl and en = en and g = g and repeated = False and sf = sf] assms obtain a s1 where
    1: "metaCipher_Encrypter cr ciph salt = ret (Inr a)" "conn_content s1 = recorded"
      "streamConn_initReader cr bl en conn_Read (NewConn d1 ciph) g = ret (None, (NewConn d1 ciph)\<lparr>sc_Conn := s1, sc_r := Some (newReader s1 a)\<rparr>, ?g)"
    by (auto simp: NewConn_def)
  from tcp_session.initReader_step [where c = "NewConn d2 ciph" and cr = cr and bl = bl and en = en and g = ?g and repeated = False and sf = sf] assms again obtain a' s2 where
    2: "metaCipher_Encrypter cr ciph salt = ret (Inr a')" "conn_content s2 = recorded"
      "streamConn_initReader cr bl en conn_Read (NewConn d2 ciph) ?g = ret (None, (NewConn d2 ciph)\<lparr>sc_Conn := s2, sc_r := Some (newReader s2 a')\<rparr>, ?g)"
    by (auto simp: NewConn_def)
  from 1(1) 2(1) have "a' = a" by simp
  with 1 2 show ?thesis by (auto simp: session_reader_def newReader_def)
qed

theorem replay_accepted_witness:
  "\<exists>c1 g1 c2 g2. streamConn_initReader sample_crypto sample_bloom sample_env conn_Read
      (NewConn (sample_conn [replicate 16 1, [7]]) sample_cipher) sample_world = ret (None, c1, g1) \<and>
    streamConn_initReader sample_crypto sample_bloom sample_env conn_Read
      (NewConn (sample_conn [replicate 16 1, [7]]) sample_cipher) g1 = ret (None, c2, g2)"
proof -
  from fresh_store_knows_nothing [of "replicate 16 1"] obtain sf where
    "CheckSalt sample_bloom sample_env no_filter_yet (replicate 16 1) = ret (False, sf)"
    by blast
  with replay_accepted [OF sample_crypto_ok sample_cipher_made, of sample_bloom sample_env sample_world "replicate 16 1" sf
      "sample_conn [replicate 16 1, [7]]" "[7]" "sample_conn [replicate 16 1, [7]]"]
  show ?thesis
    by (auto simp: sample_world_def sample_sf_ok sample_salt_size sample_conn_def conn_content_def)
qed

end
