(* ===== verification/Shadow_Packet.thy ===== *)
theory Shadow_Packet
  imports Shadow_Cipher Salt_Filter
begin

text \<open>
  \<^verbatim>\<open>m_shadow/packet.go\<close>: packets that are sealed one by one, each with its own salt and the zero nonce.
  \<open>Pack\<close> and \<open>Unpack\<close> work in slices of the destination buffer, as the code does; \<open>packetConn\<close> is the
  wrapper of a \<^verbatim>\<open>net.PacketConn\<close>, which is a parameter: a send function and a receive function over the
  network's state.
\<close>

type_synonym addr = string

definition zerononce :: bytes where
  "zerononce = replicate 128 0"

text \<open>
  The destination of \<open>Pack\<close> is a caller's slice \<open>dst\<close>, and \<open>spare\<close> is its array from its length to its capacity: \<^verbatim>\<open>dst[:saltSize]\<close> may
  reach into it, while the room for the packet is measured by the length of \<open>dst\<close>.  \<open>Pack\<close> returns the packet (the front of the array),
  the array, the salt store and the source of random bytes; an error leaves no packet.
\<close>

definition Pack ::
  "crypto \<Rightarrow> 'f bloom \<Rightarrow> env \<Rightarrow> 'g reader_fn \<Rightarrow> bytes \<Rightarrow> bytes \<Rightarrow> bytes \<Rightarrow> metaCipher \<Rightarrow> 'f saltfilter \<Rightarrow> 'g \<Rightarrow>
   ((goerr + bytes) \<times> bytes \<times> 'f saltfilter \<times> 'g) go" where
  "Pack cr bl en rnd dst spare plaintext ciph sf rs =
     (let saltSize = int (metaCipher_SaltSize ciph); arr = dst @ spare in
      gobind (go_slice arr 0 saltSize) (\<lambda>salt.
      gobind (ReadFull rnd rs salt) (\<lambda>(_, salt, err, rs).
      let arr = overwrite arr 0 salt in
      case err of
        Some e \<Rightarrow> ret (Inl e, arr, sf, rs)
      | None \<Rightarrow>
          gobind (metaCipher_Encrypter cr ciph salt) (\<lambda>aead.
          case aead of
            Inl e \<Rightarrow> ret (Inl e, arr, sf, rs)
          | Inr a \<Rightarrow>
              gobind (AddSalt bl en sf salt) (\<lambda>sf.
              if ilen dst < saltSize + ilen plaintext + int (a_Overhead a)
              then ret (Inl ErrShortBuffer, arr, sf, rs)
              else
                gobind (go_slice zerononce 0 (int (a_NonceSize a))) (\<lambda>nonce.
                let b = a_Seal a nonce plaintext; arr = overwrite arr saltSize b in
                gobind (go_slice arr 0 (saltSize + ilen b)) (\<lambda>pkt.
                ret (Inr pkt, arr, sf, rs))))))))"

text \<open>
  \<open>Unpack\<close> returns the payload.  \<open>Open\<close> appends it to \<^verbatim>\<open>dst[:0]\<close>, so it lands at the front of \<open>dst\<close>.
\<close>

definition Unpack ::
  "crypto \<Rightarrow> 'f bloom \<Rightarrow> env \<Rightarrow> bytes \<Rightarrow> bytes \<Rightarrow> metaCipher \<Rightarrow> 'f saltfilter \<Rightarrow>
   ((goerr + bytes) \<times> bytes \<times> 'f saltfilter) go" where
  "Unpack cr bl en dst pkt ciph sf =
     (let saltSize = int (metaCipher_SaltSize ciph) in
      if ilen pkt < saltSize then ret (Inl ErrShortPacket, dst, sf)
      else
        gobind (go_slice pkt 0 saltSize) (\<lambda>salt.
        gobind (metaCipher_Decrypter cr ciph salt) (\<lambda>aead.
        case aead of
          Inl e \<Rightarrow> ret (Inl e, dst, sf)
        | Inr a \<Rightarrow>
            gobind (CheckSalt bl en sf salt) (\<lambda>(repeated, sf).
            if repeated then ret (Inl ErrRepeatedSalt, dst, sf)
            else if ilen pkt < saltSize + int (a_Overhead a) then ret (Inl ErrShortPacket, dst, sf)
            else if saltSize + ilen dst + int (a_Overhead a) < ilen pkt then ret (Inl ErrShortBuffer, dst, sf)
            else
              gobind (go_slice zerononce 0 (int (a_NonceSize a))) (\<lambda>nonce.
              gobind (go_slice pkt saltSize (ilen pkt)) (\<lambda>sealed.
              case a_Open a nonce sealed of
                None \<Rightarrow> ret (Inl AeadOpenError, overwrite dst 0 (a_Spoil a nonce sealed), sf)
              | Some b \<Rightarrow> ret (Inr b, overwrite dst 0 b, sf)))))))"

subsection \<open>\<open>packetConn\<close>\<close>

record ('n, 'f, 'g) packetConn =
  pc_PacketConn :: 'n
  pc_Cipher :: metaCipher
  pc_buf :: bytes
  pc_salts :: "'f saltfilter"
  pc_rand :: 'g

definition maxPacketSize :: nat where
  "maxPacketSize = 64 * 1024"

definition NewPacketConn :: "'n \<Rightarrow> metaCipher \<Rightarrow> 'f saltfilter \<Rightarrow> 'g \<Rightarrow> ('n, 'f, 'g) packetConn" where
  "NewPacketConn c ciph sf rs =
     \<lparr>pc_PacketConn = c, pc_Cipher = ciph, pc_buf = replicate maxPacketSize 0, pc_salts = sf, pc_rand = rs\<rparr>"

text \<open>
  The mutex is taken for the whole of \<^verbatim>\<open>WriteTo\<close>: the buffer has one user at a time.  It was made with its capacity equal to its length.
\<close>

definition packetConn_WriteTo ::
  "crypto \<Rightarrow> 'f bloom \<Rightarrow> env \<Rightarrow> 'g reader_fn \<Rightarrow> ('n \<Rightarrow> bytes \<Rightarrow> addr \<Rightarrow> int \<times> goerr option \<times> 'n) \<Rightarrow>
   ('n, 'f, 'g) packetConn \<Rightarrow> bytes \<Rightarrow> addr \<Rightarrow> (int \<times> goerr option \<times> ('n, 'f, 'g) packetConn) go" where
  "packetConn_WriteTo cr bl en rnd snd_to c b addr =
     gobind (Pack cr bl en rnd (pc_buf c) [] b (pc_Cipher c) (pc_salts c) (pc_rand c)) (\<lambda>(res, buf, sf, rs).
     let c = c\<lparr>pc_buf := buf, pc_salts := sf, pc_rand := rs\<rparr> in
     case res of
       Inl e \<Rightarrow> ret (0, Some e, c)
     | Inr pkt \<Rightarrow>
         (case snd_to (pc_PacketConn c) pkt addr of (_, err, n) \<Rightarrow>
            ret (ilen b, err, c\<lparr>pc_PacketConn := n\<rparr>)))"

text \<open>
  \<^verbatim>\<open>ReadFrom(b)\<close>: the packet is received into \<open>b\<close>, opened into \<^verbatim>\<open>b[SaltSize:]\<close> and copied to the front.
  The result is the count, the contents of \<open>b\<close>, the sender and the error.
\<close>

definition packetConn_ReadFrom ::
  "crypto \<Rightarrow> 'f bloom \<Rightarrow> env \<Rightarrow> ('n \<Rightarrow> bytes \<Rightarrow> int \<times> bytes \<times> addr \<times> goerr option \<times> 'n) \<Rightarrow>
   ('n, 'f, 'g) packetConn \<Rightarrow> bytes \<Rightarrow> (int \<times> bytes \<times> addr \<times> goerr option \<times> ('n, 'f, 'g) packetConn) go" where
  "packetConn_ReadFrom cr bl en recv_from c b =
     (case recv_from (pc_PacketConn c) b of (n, b, addr, err, net) \<Rightarrow>
      let c = c\<lparr>pc_PacketConn := net\<rparr>; saltSize = int (metaCipher_SaltSize (pc_Cipher c)) in
      case err of
        Some e \<Rightarrow> ret (n, b, addr, Some e, c)
      | None \<Rightarrow>
          gobind (go_slice b saltSize (ilen b)) (\<lambda>dst.
          gobind (go_slice b 0 n) (\<lambda>pkt.
          gobind (Unpack cr bl en dst pkt (pc_Cipher c) (pc_salts c)) (\<lambda>(res, dst, sf).
          let c = c\<lparr>pc_salts := sf\<rparr>; b = overwrite b saltSize dst in
          case res of
            Inl e \<Rightarrow> ret (n, b, addr, Some e, c)
          | Inr bb \<Rightarrow> ret (ilen bb, overwrite b 0 bb, addr, None, c)))))"

subsection \<open>What a packet is\<close>

lemma length_zerononce [simp]: "length zerononce = 128"
  by (simp add: zerononce_def)

lemma seg_zerononce: "n \<le> 128 \<Longrightarrow> seg zerononce 0 (int n) = replicate n 0" "seg zerononce 0 12 = replicate 12 0"
  by (simp_all add: seg_0 zerononce_def)

lemma take_zerononce: "n \<le> 128 \<Longrightarrow> take n zerononce = replicate n 0"
  by (simp add: zerononce_def)

definition packet :: "aead \<Rightarrow> bytes \<Rightarrow> bytes \<Rightarrow> bytes" where
  "packet a salt plaintext = salt @ a_Seal a (replicate (a_NonceSize a) 0) plaintext"

context stream_reader
begin

text \<open>The four outcomes of \<open>Pack\<close> over a working cipher.\<close>

lemma Pack_ok:
  assumes "crypto_ok cr" "cipher_made cr ciph" "sf_ok bl en sf" "good rs"
    and "metaCipher_SaltSize ciph \<le> length (content rs)"
    and "metaCipher_SaltSize ciph + length plaintext + 16 \<le> length dst"
  defines "salt \<equiv> take (metaCipher_SaltSize ciph) (content rs)"
  shows "\<exists>a dst' sf' rs'. metaCipher_Decrypter cr ciph salt = ret (Inr a) \<and> aead_ok a \<and>
    a_NonceSize a = 12 \<and> a_Overhead a = 16 \<and> AddSalt bl en sf salt = ret sf' \<and> sf_ok bl en sf' \<and> good rs' \<and>
    content rs' = drop (metaCipher_SaltSize ciph) (content rs) \<and> length dst' = length dst + length spare \<and>
    take (length (packet a salt plaintext)) dst' = packet a salt plaintext \<and>
    Pack cr bl en rd dst spare plaintext ciph sf rs = ret (Inr (packet a salt plaintext), dst', sf', rs')"
proof -
  let ?n = "metaCipher_SaltSize ciph"
  have lp: "length (seg (dst @ spare) 0 (int ?n)) = ?n" using assms(6) by (simp add: length_seg)
  from ReadFull_enough [OF assms(4), of "seg (dst @ spare) 0 (int ?n)"] lp assms(5) obtain rs' where
    rf: "ReadFull rd rs (seg (dst @ spare) 0 (int ?n)) = ret (int ?n, salt, None, rs')"
    and rs': "good rs'" "content rs' = drop ?n (content rs)"
    by (auto simp: salt_def)
  from made_aead [OF assms(1,2), of salt] obtain a where
    e: "metaCipher_Encrypter cr ciph salt = ret (Inr a)"
    and a: "metaCipher_Decrypter cr ciph salt = ret (Inr a)" "aead_ok a" "a_NonceSize a = 12" "a_Overhead a = 16"
    by blast
  from AddSalt_total [OF assms(3), of salt] obtain sf' where sf': "AddSalt bl en sf salt = ret sf'" "sf_ok bl en sf'"
    by blast
  let ?b = "a_Seal a (replicate 12 0) plaintext"
  let ?d = "overwrite (dst @ spare) 0 salt"
  have ls: "length salt = ?n" using assms(5) by (simp add: salt_def)
  have lb: "length ?b = length plaintext + 16" using aead_okD(1) [OF a(2)] a(3,4) by simp
  have d: "take ?n ?d = salt" "length ?d = length dst + length spare" using ls assms(6) by (simp_all add: take_overwrite_0)
  have "seg (overwrite ?d (int ?n) ?b) 0 (int ?n + ilen ?b) = salt @ ?b"
  proof -
    have "seg (overwrite ?d (int ?n) ?b) 0 (int ?n) = salt"
      using d assms(6) by (subst seg_overwrite_before) (simp_all add: seg_0)
    moreover have "seg (overwrite ?d (int ?n) ?b) (int ?n) (int ?n + ilen ?b) = ?b"
      using d lb assms(6) by (intro seg_overwrite_same) simp_all
    ultimately show ?thesis
      using seg_append_seg [of 0 "int ?n" "int ?n + ilen ?b" "overwrite ?d (int ?n) ?b"] by simp
  qed
  moreover from this have "take (length (packet a salt plaintext)) (overwrite ?d (int ?n) ?b) = packet a salt plaintext"
    using ls a(3) by (simp add: packet_def seg_0 nat_add_distrib)
  ultimately have "take (length (packet a salt plaintext)) (overwrite ?d (int ?n) ?b) = packet a salt plaintext \<and> Pack cr bl en rd dst spare plaintext ciph sf rs =
      ret (Inr (packet a salt plaintext), overwrite ?d (int ?n) ?b, sf', rs')"
    using rf e sf' a(3,4) lb d assms(6)
    by (simp add: Pack_def Let_def seg_zerononce packet_def flip: of_nat_add)
  with a sf' rs' d assms(6) show ?thesis by auto
qed

lemma Pack_small_dst:
  assumes "crypto_ok cr" "cipher_made cr ciph" "sf_ok bl en sf" "good rs"
    and "metaCipher_SaltSize ciph \<le> length (content rs)" "metaCipher_SaltSize ciph \<le> length dst + length spare"
    and "length dst < metaCipher_SaltSize ciph + length plaintext + 16"
  defines "salt \<equiv> take (metaCipher_SaltSize ciph) (content rs)"
  shows "\<exists>sf' rs'. AddSalt bl en sf salt = ret sf' \<and>
    Pack cr bl en rd dst spare plaintext ciph sf rs = ret (Inl ErrShortBuffer, overwrite (dst @ spare) 0 salt, sf', rs')"
proof -
  let ?n = "metaCipher_SaltSize ciph"
  have lp: "length (seg (dst @ spare) 0 (int ?n)) = ?n" using assms(6) by (simp add: length_seg)
  from ReadFull_enough [OF assms(4), of "seg (dst @ spare) 0 (int ?n)"] lp assms(5) obtain rs' where
    rf: "ReadFull rd rs (seg (dst @ spare) 0 (int ?n)) = ret (int ?n, salt, None, rs')"
    by (auto simp: salt_def)
  from made_aead [OF assms(1,2), of salt] obtain a where
    e: "metaCipher_Encrypter cr ciph salt = ret (Inr a)" "a_Overhead a = 16"
    by blast
  from AddSalt_total [OF assms(3), of salt] obtain sf' where "AddSalt bl en sf salt = ret sf'"
    by blast
  with rf e assms(6,7) show ?thesis by (simp add: Pack_def Let_def)
qed

end

lemma Pack_panics: "length dst + length spare < metaCipher_SaltSize ciph \<Longrightarrow> Pack cr bl en rnd dst spare plaintext ciph sf rs = throw SliceBounds"
  by (simp add: Pack_def go_slice_def)

subsection \<open>Opening a packet\<close>

text \<open>Every branch of \<open>Unpack\<close> behind the salt check, over a working cipher.\<close>

lemma Unpack_short: "length pkt < metaCipher_SaltSize ciph \<Longrightarrow>
    Unpack cr bl en dst pkt ciph sf = ret (Inl ErrShortPacket, dst, sf)"
  by (simp add: Unpack_def)

lemma Unpack_eq:
  assumes "metaCipher_SaltSize ciph \<le> length pkt"
    and "metaCipher_Decrypter cr ciph (take (metaCipher_SaltSize ciph) pkt) = ret (Inr a)"
    and "a_NonceSize a \<le> 128"
    and "CheckSalt bl en sf (take (metaCipher_SaltSize ciph) pkt) = ret (repeated, sf')"
  shows "Unpack cr bl en dst pkt ciph sf =
    (if repeated then ret (Inl ErrRepeatedSalt, dst, sf')
     else if length pkt < metaCipher_SaltSize ciph + a_Overhead a then ret (Inl ErrShortPacket, dst, sf')
     else if metaCipher_SaltSize ciph + length dst + a_Overhead a < length pkt then ret (Inl ErrShortBuffer, dst, sf')
     else case a_Open a (replicate (a_NonceSize a) 0) (drop (metaCipher_SaltSize ciph) pkt) of
       None \<Rightarrow> ret (Inl AeadOpenError, overwrite dst 0 (a_Spoil a (replicate (a_NonceSize a) 0) (drop (metaCipher_SaltSize ciph) pkt)), sf')
     | Some b \<Rightarrow> ret (Inr b, overwrite dst 0 b, sf'))"
  using assms by (simp add: Unpack_def Let_def seg_0 take_zerononce seg_to_end flip: of_nat_add)

lemma Unpack_packet:
  assumes "length salt = metaCipher_SaltSize ciph" "metaCipher_Decrypter cr ciph salt = ret (Inr a)"
    and "aead_ok a" "a_NonceSize a \<le> 128" "CheckSalt bl en sf salt = ret (False, sf')" "length plaintext \<le> length dst"
  shows "Unpack cr bl en dst (packet a salt plaintext) ciph sf = ret (Inr plaintext, overwrite dst 0 plaintext, sf')"
  using assms aead_okD(1,2) [OF assms(3), of "replicate (a_NonceSize a) 0" plaintext]
  by (subst Unpack_eq [where a = a and sf' = sf' and repeated = False]) (simp_all add: packet_def)

lemma Unpack_repeated:
  assumes "length salt = metaCipher_SaltSize ciph" "metaCipher_Decrypter cr ciph salt = ret (Inr a)"
    and "CheckSalt bl en sf salt = ret (True, sf')"
  shows "Unpack cr bl en dst (salt @ body) ciph sf = ret (Inl ErrRepeatedSalt, dst, sf')"
  using assms by (simp add: Unpack_def seg_0)

subsection \<open>\<open>packetConn\<close> over a network\<close>

text \<open>
  A received packet: \<open>n\<close> bytes at the front of the buffer.  What \<^verbatim>\<open>ReadFrom\<close> returns is the payload at the
  front of the buffer, and its length.
\<close>

lemma ReadFrom_packet:
  assumes "recv_from (pc_PacketConn c) b = (ilen pkt, b', adr, None, net)" "length b' = length b" "take (length pkt) b' = pkt"
    and "pkt = packet a salt plaintext" "length salt = metaCipher_SaltSize (pc_Cipher c)"
    and "metaCipher_Decrypter cr (pc_Cipher c) salt = ret (Inr a)" "aead_ok a" "a_NonceSize a \<le> 128"
    and "CheckSalt bl en (pc_salts c) salt = ret (False, sf')" "length pkt \<le> length b"
  shows "\<exists>b''. packetConn_ReadFrom cr bl en recv_from c b =
      ret (ilen plaintext, b'', adr, None, c\<lparr>pc_PacketConn := net, pc_salts := sf'\<rparr>) \<and>
    length b'' = length b \<and> take (length plaintext) b'' = plaintext"
proof -
  let ?n = "metaCipher_SaltSize (pc_Cipher c)"
  have lpkt: "length pkt = ?n + length plaintext + a_Overhead a"
    using assms(4,5) aead_okD(1) [OF assms(7)] by (simp add: packet_def)
  have "Unpack cr bl en (drop ?n b') pkt (pc_Cipher c) (pc_salts c) =
      ret (Inr plaintext, overwrite (drop ?n b') 0 plaintext, sf')"
    unfolding assms(4) using lpkt assms(2,10) by (intro Unpack_packet assms) simp
  moreover have "seg b' (int ?n) (ilen b') = drop ?n b'" "seg b' 0 (ilen pkt) = pkt"
    using assms(3) by (simp_all add: seg_to_end seg_0)
  ultimately have "packetConn_ReadFrom cr bl en recv_from c b = ret (ilen plaintext,
      overwrite (overwrite b' (int ?n) (overwrite (drop ?n b') 0 plaintext)) 0 plaintext,
      adr, None, c\<lparr>pc_PacketConn := net, pc_salts := sf'\<rparr>)"
    using assms(1,2,10) lpkt by (simp add: packetConn_ReadFrom_def Let_def del: of_nat_add)
  with assms(2,10) lpkt show ?thesis by (simp add: take_overwrite_0)
qed

lemma ReadFrom_small_buffer:
  assumes "recv_from (pc_PacketConn c) b = (n, b', adr, None, net)" "length b' < metaCipher_SaltSize (pc_Cipher c)"
  shows "packetConn_ReadFrom cr bl en recv_from c b = throw SliceBounds"
  using assms by (simp add: packetConn_ReadFrom_def go_slice_def)

text \<open>\<^verbatim>\<open>WriteTo\<close> sends one packet; the connection's buffer keeps its size.\<close>

context stream_reader
begin

lemma WriteTo_packet:
  assumes "crypto_ok cr" "cipher_made cr (pc_Cipher c)" "sf_ok bl en (pc_salts c)" "good (pc_rand c)"
    and "metaCipher_SaltSize (pc_Cipher c) \<le> length (content (pc_rand c))"
    and "metaCipher_SaltSize (pc_Cipher c) + length plaintext + 16 \<le> length (pc_buf c)"
  defines "salt \<equiv> take (metaCipher_SaltSize (pc_Cipher c)) (content (pc_rand c))"
  shows "\<exists>a buf sf rs. metaCipher_Decrypter cr (pc_Cipher c) salt = ret (Inr a) \<and> aead_ok a \<and>
    a_NonceSize a = 12 \<and> a_Overhead a = 16 \<and> AddSalt bl en (pc_salts c) salt = ret sf \<and> sf_ok bl en sf \<and>
    good rs \<and> length buf = length (pc_buf c) \<and>
    packetConn_WriteTo cr bl en rd snd_to c plaintext adr =
     (case snd_to (pc_PacketConn c) (packet a salt plaintext) adr of (_, err, n) \<Rightarrow>
      ret (ilen plaintext, err, c\<lparr>pc_PacketConn := n, pc_buf := buf, pc_salts := sf, pc_rand := rs\<rparr>))"
proof -
  from Pack_ok [OF assms(1-6), of "[]"] obtain a buf sf rs where
    "metaCipher_Decrypter cr (pc_Cipher c) salt = ret (Inr a)" "aead_ok a"
    "a_NonceSize a = 12" "a_Overhead a = 16" "AddSalt bl en (pc_salts c) salt = ret sf" "sf_ok bl en sf"
    "good rs" "length buf = length (pc_buf c)"
    "Pack cr bl en rd (pc_buf c) [] plaintext (pc_Cipher c) (pc_salts c) (pc_rand c) = ret (Inr (packet a salt plaintext), buf, sf, rs)"
    unfolding salt_def by auto
  then show ?thesis
    by (intro exI [of _ a] exI [of _ buf] exI [of _ sf] exI [of _ rs])
      (auto simp: packetConn_WriteTo_def split: prod.splits)
qed

lemma WriteTo_too_big:
  assumes "crypto_ok cr" "cipher_made cr (pc_Cipher c)" "sf_ok bl en (pc_salts c)" "good (pc_rand c)"
    and "metaCipher_SaltSize (pc_Cipher c) \<le> length (content (pc_rand c))" "metaCipher_SaltSize (pc_Cipher c) \<le> length (pc_buf c)"
    and "length (pc_buf c) < metaCipher_SaltSize (pc_Cipher c) + length plaintext + 16"
  shows "\<exists>c'. packetConn_WriteTo cr bl en rd snd_to c plaintext adr = ret (0, Some ErrShortBuffer, c') \<and>
    pc_PacketConn c' = pc_PacketConn c"
  using Pack_small_dst [OF assms(1-5) _ assms(7), of "[]"] assms(6) by (auto simp: packetConn_WriteTo_def)

end

subsection \<open>Properties\<close>

text \<open>
  C20: Packets survive the trip: \<open>Pack\<close> into a buffer that is large enough gives a packet of the salt
  size, the payload and sixteen bytes, and \<open>Unpack\<close> at a receiver that does not know its salt, into any
  buffer that holds the payload, returns the payload.
\<close>

theorem Unpack_Pack:
  assumes "crypto_ok cr" "cipher_made cr ciph" "sf_ok bl en sf"
    and "metaCipher_SaltSize ciph \<le> length rs" "metaCipher_SaltSize ciph + length plaintext + 16 \<le> length dst"
    and "CheckSalt bl2 en2 sf2 (take (metaCipher_SaltSize ciph) rs) = ret (False, sf2')" "length plaintext \<le> length dst2"
  shows "\<exists>pkt dst' sf' rs'. Pack cr bl en buffer_Read dst spare plaintext ciph sf rs = ret (Inr pkt, dst', sf', rs') \<and>
    length pkt = metaCipher_SaltSize ciph + length plaintext + 16 \<and>
    Unpack cr bl2 en2 dst2 pkt ciph sf2 = ret (Inr plaintext, overwrite dst2 0 plaintext, sf2')"
proof -
  let ?salt = "take (metaCipher_SaltSize ciph) rs"
  from buffer.Pack_ok [OF assms(1-3) _ assms(4,5), of spare] obtain a dst' sf' rs' where
    a: "metaCipher_Decrypter cr ciph ?salt = ret (Inr a)" "aead_ok a" "a_NonceSize a = 12" "a_Overhead a = 16"
    and p: "Pack cr bl en buffer_Read dst spare plaintext ciph sf rs = ret (Inr (packet a ?salt plaintext), dst', sf', rs')"
    by blast
  have "length (packet a ?salt plaintext) = metaCipher_SaltSize ciph + length plaintext + 16"
    using aead_okD(1) [OF a(2)] a(4) assms(4) by (simp add: packet_def)
  with p Unpack_packet [OF _ a(1,2) _ assms(6,7)] a(3) assms(4) show ?thesis by simp
qed

theorem Unpack_Pack_witness:
  "\<exists>pkt dst' sf' rs' sf2'. Pack sample_crypto sample_bloom sample_env buffer_Read (replicate 64 0) [] [1, 2, 3] sample_cipher no_filter_yet
      (replicate 16 42) = ret (Inr pkt, dst', sf', rs') \<and>
    Unpack sample_crypto sample_bloom sample_env (replicate 3 0) pkt sample_cipher no_filter_yet = ret (Inr [1, 2, 3], [1, 2, 3], sf2')"
proof -
  obtain sf2' where "CheckSalt sample_bloom sample_env no_filter_yet (take (metaCipher_SaltSize sample_cipher) (replicate 16 42)) = ret (False, sf2')"
    using fresh_store_knows_nothing by blast
  from Unpack_Pack [OF sample_crypto_ok sample_cipher_made sample_sf_ok _ _ this, of "[1, 2, 3]" "replicate 64 0" "replicate 3 0" "[]"]
  show ?thesis by (auto simp: sample_salt_size overwrite_0_full)
qed

text \<open>
  C35: A packet that comes back to the process that packed it is refused as a repetition, whatever its
  body has become.
\<close>

theorem packet_reflection_refused:
  assumes "crypto_ok cr" "cipher_made cr ciph" "bloom_ok bl" "sf_ok bl en sf"
    and "getSaltFilterSingleton bl en sf = ret sf0" "sf_filter sf0 \<noteq> None"
    and "metaCipher_SaltSize ciph \<le> length rs" "metaCipher_SaltSize ciph + length plaintext + 16 \<le> length dst"
  shows "\<exists>pkt dst' sf' rs'. Pack cr bl en buffer_Read dst spare plaintext ciph sf rs = ret (Inr pkt, dst', sf', rs') \<and>
    (\<forall>body. Unpack cr bl en dst2 (take (metaCipher_SaltSize ciph) pkt @ body) ciph sf' = ret (Inl ErrRepeatedSalt, dst2, sf'))"
proof -
  let ?salt = "take (metaCipher_SaltSize ciph) rs"
  from buffer.Pack_ok [OF assms(1,2,4) _ assms(7,8), of spare] obtain a dst' sf' rs' where
    a: "metaCipher_Decrypter cr ciph ?salt = ret (Inr a)" and add: "AddSalt bl en sf ?salt = ret sf'"
    and p: "Pack cr bl en buffer_Read dst spare plaintext ciph sf rs = ret (Inr (packet a ?salt plaintext), dst', sf', rs')"
    by blast
  from AddSalt_known [OF assms(3-6), of ?salt] add have "CheckSalt bl en sf' ?salt = ret (True, sf')" by auto
  from Unpack_repeated [OF _ a this] p assms(7) show ?thesis by (auto simp: packet_def)
qed

theorem packet_reflection_refused_witness:
  "\<exists>pkt dst' sf' rs'. Pack sample_crypto sample_bloom sample_env buffer_Read (replicate 64 0) [] [1] sample_cipher no_filter_yet (replicate 16 42) =
      ret (Inr pkt, dst', sf', rs') \<and>
    Unpack sample_crypto sample_bloom sample_env [] (take 16 pkt @ [5, 6]) sample_cipher sf' = ret (Inl ErrRepeatedSalt, [], sf')"
proof -
  from default_singleton [of sample_env no_filter_yet sample_bloom] obtain sf0 where
    "getSaltFilterSingleton sample_bloom sample_env no_filter_yet = ret sf0" "sf_filter sf0 \<noteq> None"
    by (auto simp: sample_env_def no_filter_yet_def)
  from packet_reflection_refused [OF sample_crypto_ok sample_cipher_made sample_bloom_ok sample_sf_ok this, of "replicate 16 42" "[1]" "replicate 64 0" "[]" "[]"]
  show ?thesis by (fastforce simp: sample_salt_size)
qed

text \<open>
  C21: A whole datagram exchange: what one \<open>packetConn\<close> sends with \<^verbatim>\<open>WriteTo\<close> through a network that carries
  packets unchanged, another one receives with \<^verbatim>\<open>ReadFrom\<close> into any buffer as long as the packet: the count
  is the payload's and the payload stands at the front of the buffer.
\<close>

theorem packetConn_exchange:
  assumes "crypto_ok cr" "cipher_made cr ciph" "sf_ok bl en sf" "metaCipher_SaltSize ciph \<le> length rs"
    and "metaCipher_SaltSize ciph + length plaintext + 16 \<le> maxPacketSize"
    and "CheckSalt bl en sf2 (take (metaCipher_SaltSize ciph) rs) = ret (False, sf2')"
    and "\<And>net pkt adr. snd_to net pkt adr = (ilen pkt, None, net @ [pkt])"
    and "\<And>pkt net b. length pkt \<le> length b \<Longrightarrow> recv_from (pkt # net) b = (ilen pkt, overwrite b 0 pkt, frm, None, net)"
    and "metaCipher_SaltSize ciph + length plaintext + 16 \<le> length b"
  shows "\<exists>c1 b' c2. packetConn_WriteTo cr bl en buffer_Read snd_to (NewPacketConn [] ciph sf rs) plaintext adr =
      ret (ilen plaintext, None, c1) \<and>
    packetConn_ReadFrom cr bl en recv_from (NewPacketConn (pc_PacketConn c1) ciph sf2 rsr) b =
      ret (ilen plaintext, b', frm, None, c2) \<and>
    take (length plaintext) b' = plaintext \<and> pc_PacketConn c2 = []"
proof -
  let ?c = "NewPacketConn ([] :: bytes list) ciph sf rs" and ?salt = "take (metaCipher_SaltSize ciph) rs"
  have c: "pc_Cipher ?c = ciph" "pc_salts ?c = sf" "pc_rand ?c = rs" "pc_PacketConn ?c = []" "length (pc_buf ?c) = maxPacketSize"
    by (simp_all add: NewPacketConn_def)
  from buffer.WriteTo_packet [of cr ?c bl en plaintext snd_to adr] assms(1-5) c obtain a buf sf1 rs1 where
    a: "metaCipher_Decrypter cr ciph ?salt = ret (Inr a)" "aead_ok a" "a_NonceSize a = 12" "a_Overhead a = 16"
    and w: "packetConn_WriteTo cr bl en buffer_Read snd_to ?c plaintext adr =
      ret (ilen plaintext, None, ?c\<lparr>pc_PacketConn := [packet a ?salt plaintext], pc_buf := buf, pc_salts := sf1, pc_rand := rs1\<rparr>)"
    using assms(7) by auto
  let ?pkt = "packet a ?salt plaintext"
  have l: "length ?pkt \<le> length b" using assms(4,9) aead_okD(1) [OF a(2)] a(4) by (simp add: packet_def)
  let ?c1 = "?c\<lparr>pc_PacketConn := [?pkt], pc_buf := buf, pc_salts := sf1, pc_rand := rs1\<rparr>"
  let ?c2 = "NewPacketConn (pc_PacketConn ?c1) ciph sf2 rsr"
  have "recv_from (pc_PacketConn ?c2) b = (ilen ?pkt, overwrite b 0 ?pkt, frm, None, [])"
    using assms(8) [OF l] by (simp add: NewPacketConn_def)
  from ReadFrom_packet [where recv_from = recv_from and c = ?c2 and b = b, OF this _ _ refl, of cr bl en sf2'] l a assms(4,6) obtain b' where
    "packetConn_ReadFrom cr bl en recv_from ?c2 b = ret (ilen plaintext, b', frm, None, ?c2\<lparr>pc_PacketConn := [], pc_salts := sf2'\<rparr>)"
    "take (length plaintext) b' = plaintext"
    by (auto simp: NewPacketConn_def take_overwrite_0)
  with w show ?thesis by (intro exI [of _ ?c1] exI [of _ b'] exI [of _ "?c2\<lparr>pc_PacketConn := [], pc_salts := sf2'\<rparr>"]) simp
qed

definition sample_send :: "bytes list \<Rightarrow> bytes \<Rightarrow> addr \<Rightarrow> int \<times> goerr option \<times> bytes list" where
  "sample_send net pkt adr = (ilen pkt, None, net @ [pkt])"

definition sample_recv :: "bytes list \<Rightarrow> bytes \<Rightarrow> int \<times> bytes \<times> addr \<times> goerr option \<times> bytes list" where
  "sample_recv net b =
     (case net of [] \<Rightarrow> (0, b, '''', Some EOF, []) | pkt # net \<Rightarrow> (ilen pkt, overwrite b 0 pkt, ''peer'', None, net))"

theorem packetConn_exchange_witness:
  "\<exists>c1 b' c2. packetConn_WriteTo sample_crypto sample_bloom sample_env buffer_Read sample_send
      (NewPacketConn [] sample_cipher no_filter_yet (replicate 16 42)) [1, 2, 3] ''peer'' = ret (3, None, c1) \<and>
    packetConn_ReadFrom sample_crypto sample_bloom sample_env sample_recv
      (NewPacketConn (pc_PacketConn c1) sample_cipher no_filter_yet ([] :: bytes)) (replicate 64 0) = ret (3, b', ''peer'', None, c2) \<and>
    take 3 b' = [1, 2, 3]"
proof -
  obtain sf2' where "CheckSalt sample_bloom sample_env no_filter_yet (take (metaCipher_SaltSize sample_cipher) (replicate 16 42)) = ret (False, sf2')"
    using fresh_store_knows_nothing by blast
  from packetConn_exchange [OF sample_crypto_ok sample_cipher_made sample_sf_ok _ _ this, where plaintext = "[1, 2, 3]"
      and snd_to = sample_send and recv_from = sample_recv and frm = "''peer''" and b = "replicate 64 0" and rsr = "[] :: bytes" and adr = "''peer''"]
  show ?thesis by (auto simp: sample_salt_size maxPacketSize_def sample_send_def sample_recv_def numeral_3_eq_3)
qed

text \<open>
  C36: The destination decides: \<open>Pack\<close> panics when its capacity is below the salt size; otherwise it records the salt, and reports
  \<open>ErrShortBuffer\<close> when the packet does not fit into its length, even if it fits into its capacity; a packet that fits is the salt and
  the sealed payload, at the front of the destination's array.
\<close>

theorem Pack_buffer_bounds:
  assumes "crypto_ok cr" "cipher_made cr ciph" "sf_ok bl en sf" "metaCipher_SaltSize ciph \<le> length rs"
  defines "salt \<equiv> take (metaCipher_SaltSize ciph) rs"
  shows "if length dst + length spare < metaCipher_SaltSize ciph
    then Pack cr bl en buffer_Read dst spare plaintext ciph sf rs = throw SliceBounds
    else \<exists>sf' res arr' rs'. AddSalt bl en sf salt = ret sf' \<and> Pack cr bl en buffer_Read dst spare plaintext ciph sf rs = ret (res, arr', sf', rs') \<and>
      length arr' = length dst + length spare \<and>
      (if length dst < metaCipher_SaltSize ciph + length plaintext + 16 then res = Inl ErrShortBuffer
       else \<exists>pkt. res = Inr pkt \<and> take (length pkt) arr' = pkt \<and> length pkt = metaCipher_SaltSize ciph + length plaintext + 16 \<and>
         take (metaCipher_SaltSize ciph) pkt = salt)"
proof -
  consider (panics) "length dst + length spare < metaCipher_SaltSize ciph"
    | (small) "metaCipher_SaltSize ciph \<le> length dst + length spare" "length dst < metaCipher_SaltSize ciph + length plaintext + 16"
    | (fits) "metaCipher_SaltSize ciph + length plaintext + 16 \<le> length dst"
    by linarith
  then show ?thesis
  proof cases
    case panics
    then show ?thesis by (simp add: Pack_panics)
  next
    case small
    from buffer.Pack_small_dst [OF assms(1-3) _ assms(4) small] small assms(4) show ?thesis by (auto simp: salt_def)
  next
    case fits
    from buffer.Pack_ok [OF assms(1-3) _ assms(4) fits, of spare] obtain a arr' sf' rs' where
      a: "aead_ok a" "a_NonceSize a = 12" "a_Overhead a = 16" and s: "AddSalt bl en sf salt = ret sf'"
      and l: "length arr' = length dst + length spare" "take (length (packet a salt plaintext)) arr' = packet a salt plaintext"
      and p: "Pack cr bl en buffer_Read dst spare plaintext ciph sf rs = ret (Inr (packet a salt plaintext), arr', sf', rs')"
      unfolding salt_def by blast
    have "length salt = metaCipher_SaltSize ciph" using assms(4) by (simp add: salt_def)
    with aead_okD(1) [OF a(1)] a(3) have "length (packet a salt plaintext) = metaCipher_SaltSize ciph + length plaintext + 16"
      "take (metaCipher_SaltSize ciph) (packet a salt plaintext) = salt" by (simp_all add: packet_def)
    with s l p fits show ?thesis by auto
  qed
qed

theorem Pack_buffer_bounds_witness:
  "Pack sample_crypto sample_bloom sample_env buffer_Read [0, 0] [0] [1] sample_cipher no_filter_yet (replicate 16 42) = throw SliceBounds \<and>
   (\<exists>arr' sf' rs'. Pack sample_crypto sample_bloom sample_env buffer_Read [0, 0] (replicate 60 0) [1] sample_cipher no_filter_yet (replicate 16 42) =
      ret (Inl ErrShortBuffer, arr', sf', rs')) \<and>
   (\<exists>pkt arr' sf' rs'. Pack sample_crypto sample_bloom sample_env buffer_Read (replicate 64 0) [] [1] sample_cipher no_filter_yet (replicate 16 42) =
      ret (Inr pkt, arr', sf', rs') \<and> length pkt = 33)"
  using Pack_buffer_bounds [OF sample_crypto_ok sample_cipher_made sample_sf_ok, of "replicate 16 42" "[0, 0]" "[0]" "[1]"]
    Pack_buffer_bounds [OF sample_crypto_ok sample_cipher_made sample_sf_ok, of "replicate 16 42" "[0, 0]" "replicate 60 0" "[1]"]
    Pack_buffer_bounds [OF sample_crypto_ok sample_cipher_made sample_sf_ok, of "replicate 16 42" "replicate 64 0" "[]" "[1]"]
  by (auto simp: sample_salt_size)

text \<open>
  \<^verbatim>\<open>packetConn.ReadFrom\<close> panics on a buffer that is shorter than the salt: it slices the buffer at the
  salt size before it looks at the packet.
\<close>

theorem packetConn_ReadFrom_small_buffer:
  assumes "recv_from (pc_PacketConn c) b = (n, b', adr, None, net)" "length b' = length b"
    and "length b < metaCipher_SaltSize (pc_Cipher c)"
  shows "packetConn_ReadFrom cr bl en recv_from c b = throw SliceBounds"
  using ReadFrom_small_buffer [where recv_from = recv_from and c = c and b = b, OF assms(1)] assms(2,3) by simp

theorem packetConn_ReadFrom_small_buffer_witness:
  "packetConn_ReadFrom sample_crypto sample_bloom sample_env sample_recv
     (NewPacketConn [[1, 2]] sample_cipher no_filter_yet ([] :: bytes)) (replicate 8 0) = throw SliceBounds"
  using packetConn_ReadFrom_small_buffer [of sample_recv "NewPacketConn [[1, 2]] sample_cipher no_filter_yet ([] :: bytes)"
      "replicate 8 0" 2 "overwrite (replicate 8 0) 0 [1, 2]" "''peer''" "[]" sample_crypto sample_bloom sample_env]
  by (simp add: NewPacketConn_def sample_recv_def sample_salt_size)

end
