(* ===== verification/Core_Cipher.thy ===== *)
theory Core_Cipher
  imports Shadow_Conn Shadow_Packet "HOL-Library.List_Lexorder" "HOL-Library.Char_ord"
begin

text \<open>
  \<^verbatim>\<open>m_core/cipher.go\<close>: the table of ciphers, the choice of one by name, the key derivation from a password,
  and the wrapping of connections; with \<^verbatim>\<open>m_core/stream.go\<close> and \<^verbatim>\<open>m_core/packet.go\<close>, which wrap what the
  network package returns.

  A Go string is a list of characters, one per byte.  \<^verbatim>\<open>strings.ToUpper\<close> is written out for ASCII names; for
  others it consults the Unicode case tables, which are the parameter \<open>uni\<close>.
\<close>

subsection \<open>Names\<close>

definition aeadAes128Gcm :: string where "aeadAes128Gcm = ''AEAD_AES_128_GCM''"
definition aeadAes256Gcm :: string where "aeadAes256Gcm = ''AEAD_AES_256_GCM''"
definition aeadChacha20Poly1305 :: string where "aeadChacha20Poly1305 = ''AEAD_CHACHA20_POLY1305''"

definition upper_char :: "char \<Rightarrow> char" where
  "upper_char c = (let n = (of_char c :: nat) in if 97 \<le> n \<and> n \<le> 122 then char_of (n - 32) else c)"

definition ToUpper :: "(string \<Rightarrow> string) \<Rightarrow> string \<Rightarrow> string" where
  "ToUpper uni s = (if \<forall>c \<in> set s. (of_char c :: nat) < 128 then map upper_char s else uni s)"

subsection \<open>The table\<close>

record aead_choice =
  ac_KeySize :: nat
  ac_New :: "bytes \<Rightarrow> goerr + metaCipher"

definition aeadList :: "crypto \<Rightarrow> string \<Rightarrow> aead_choice option" where
  "aeadList cr =
     [aeadAes128Gcm \<mapsto> \<lparr>ac_KeySize = 16, ac_New = AESGCM cr\<rparr>,
      aeadAes256Gcm \<mapsto> \<lparr>ac_KeySize = 32, ac_New = AESGCM cr\<rparr>,
      aeadChacha20Poly1305 \<mapsto> \<lparr>ac_KeySize = 32, ac_New = Chacha20Poly1305 cr\<rparr>]"

text \<open>
  Go ranges over a map in an order of its own: \<open>ks\<close> is that order.  \<^verbatim>\<open>sort.Strings\<close> sorts bytewise.
\<close>

definition ListCipher :: "string list \<Rightarrow> string list" where
  "ListCipher ks = sort (foldl (\<lambda>l k. l @ [k]) [] ks)"

subsection \<open>Key derivation\<close>

text \<open>
  The loop of \<open>kdf\<close>: hash the previous digest followed by the password, append the digest, until there
  are enough bytes.
\<close>

partial_function (option) kdf_loop :: "crypto \<Rightarrow> bytes \<Rightarrow> int \<Rightarrow> bytes \<Rightarrow> bytes \<Rightarrow> bytes go" where
  "kdf_loop cr password keyLen b prev =
     (if ilen b < keyLen then
        let b = b @ cr_md5 cr (prev @ password) in
        gobind (go_slice b (ilen b - 16) (ilen b)) (\<lambda>prev. kdf_loop cr password keyLen b prev)
      else ret b)"

definition kdf :: "crypto \<Rightarrow> string \<Rightarrow> int \<Rightarrow> bytes go" where
  "kdf cr password keyLen =
     gobind (kdf_loop cr (str_bytes password) keyLen [] []) (\<lambda>b. go_slice b 0 keyLen)"

subsection \<open>Ciphers\<close>

text \<open>
  \<^verbatim>\<open>PickCipher\<close> returns a cipher or an error.  (Beside the error of a constructor the code returns a wrapper
  of a nil cipher, which its caller drops.)
\<close>

datatype Cipher = dummy | aeadCipher metaCipher

definition canonical_name :: "string \<Rightarrow> string" where
  "canonical_name name =
     (if name = ''CHACHA20-IETF-POLY1305'' then aeadChacha20Poly1305
      else if name = ''AES-128-GCM'' then aeadAes128Gcm
      else if name = ''AES-256-GCM'' then aeadAes256Gcm
      else name)"

definition PickCipher :: "crypto \<Rightarrow> (string \<Rightarrow> string) \<Rightarrow> string \<Rightarrow> bytes \<Rightarrow> string \<Rightarrow> (goerr + Cipher) go" where
  "PickCipher cr uni name key password =
     (let name = ToUpper uni name in
      if name = ''DUMMY'' then ret (Inr dummy)
      else case aeadList cr (canonical_name name) of
        None \<Rightarrow> ret (Inl ErrCipherNotSupported)
      | Some choice \<Rightarrow>
          gobind (if length key = 0 then kdf cr password (int (ac_KeySize choice)) else ret key) (\<lambda>key.
          if length key \<noteq> ac_KeySize choice then ret (Inl (KeySizeError (int (ac_KeySize choice))))
          else case ac_New choice key of
            Inl e \<Rightarrow> ret (Inl e)
          | Inr c \<Rightarrow> ret (Inr (aeadCipher c))))"

text \<open>A connection behind a cipher: itself, or a \<open>streamConn\<close> around it.\<close>

datatype 'c shadow_conn = Bare 'c | Shadowed "'c streamConn"

definition StreamConn :: "Cipher \<Rightarrow> 'c \<Rightarrow> 'c shadow_conn" where
  "StreamConn ciph c = (case ciph of dummy \<Rightarrow> Bare c | aeadCipher a \<Rightarrow> Shadowed (NewConn c a))"

datatype ('n, 'f, 'g) shadow_packets = BarePackets 'n | ShadowedPackets "('n, 'f, 'g) packetConn"

definition PacketConn :: "Cipher \<Rightarrow> 'n \<Rightarrow> 'f saltfilter \<Rightarrow> 'g \<Rightarrow> ('n, 'f, 'g) shadow_packets" where
  "PacketConn ciph c sf rs =
     (case ciph of dummy \<Rightarrow> BarePackets c | aeadCipher a \<Rightarrow> ShadowedPackets (NewPacketConn c a sf rs))"

subsection \<open>Listening and dialling\<close>

text \<open>
  The network package is a parameter: functions of its state that return a connection (or nil) and an
  error.  The code wraps the connection whether or not there is an error.
\<close>

record 'l listener =
  ln_Listener :: "'l option"
  ln_cipher :: Cipher

definition Listen :: "('n \<Rightarrow> string \<Rightarrow> string \<Rightarrow> 'l option \<times> goerr option \<times> 'n) \<Rightarrow> 'n \<Rightarrow> string \<Rightarrow> string \<Rightarrow> Cipher \<Rightarrow>
    'l listener \<times> goerr option \<times> 'n" where
  "Listen net_listen net network address ciph =
     (case net_listen net network address of (l, err, net) \<Rightarrow> (\<lparr>ln_Listener = l, ln_cipher = ciph\<rparr>, err, net))"

definition listener_Accept :: "('l \<Rightarrow> 'c option \<times> goerr option \<times> 'l) \<Rightarrow> 'l listener \<Rightarrow>
    ('c option shadow_conn \<times> goerr option \<times> 'l listener) go" where
  "listener_Accept net_accept l =
     (case ln_Listener l of
        None \<Rightarrow> throw NilDeref
      | Some nl \<Rightarrow> (case net_accept nl of (c, err, nl) \<Rightarrow>
          ret (StreamConn (ln_cipher l) c, err, l\<lparr>ln_Listener := Some nl\<rparr>)))"

definition Dial :: "('n \<Rightarrow> string \<Rightarrow> string \<Rightarrow> 'c option \<times> goerr option \<times> 'n) \<Rightarrow> 'n \<Rightarrow> string \<Rightarrow> string \<Rightarrow> Cipher \<Rightarrow>
    'c option shadow_conn \<times> goerr option \<times> 'n" where
  "Dial net_dial net network address ciph =
     (case net_dial net network address of (c, err, net) \<Rightarrow> (StreamConn ciph c, err, net))"

definition ListenPacket :: "('n \<Rightarrow> string \<Rightarrow> string \<Rightarrow> 'c option \<times> goerr option \<times> 'n) \<Rightarrow> 'n \<Rightarrow> string \<Rightarrow> string \<Rightarrow> Cipher \<Rightarrow>
    'f saltfilter \<Rightarrow> 'g \<Rightarrow> ('c option, 'f, 'g) shadow_packets \<times> goerr option \<times> 'n" where
  "ListenPacket net_listen net network address ciph sf rs =
     (case net_listen net network address of (c, err, net) \<Rightarrow> (PacketConn ciph c sf rs, err, net))"

subsection \<open>The derived key\<close>

text \<open>The digests \<open>kdf\<close> concatenates, and the first \<open>n\<close> of them in a row.\<close>

fun digest :: "crypto \<Rightarrow> bytes \<Rightarrow> nat \<Rightarrow> bytes" where
  "digest cr pw 0 = cr_md5 cr pw"
| "digest cr pw (Suc i) = cr_md5 cr (digest cr pw i @ pw)"

definition digests :: "crypto \<Rightarrow> bytes \<Rightarrow> nat \<Rightarrow> bytes" where
  "digests cr pw n = concat (map (digest cr pw) [0..<n])"

lemma digests_Suc: "digests cr pw (Suc n) = digests cr pw n @ digest cr pw n"
  by (simp add: digests_def)

definition prev_digest :: "crypto \<Rightarrow> bytes \<Rightarrow> nat \<Rightarrow> bytes" where
  "prev_digest cr pw n = (case n of 0 \<Rightarrow> [] | Suc i \<Rightarrow> digest cr pw i)"

lemma prev_digest_Suc [simp]: "prev_digest cr pw (Suc n) = digest cr pw n"
  by (simp add: prev_digest_def)

lemma digest_next: "cr_md5 cr (prev_digest cr pw n @ pw) = digest cr pw n"
  by (cases n) (simp_all add: prev_digest_def)

lemma length_digest: "crypto_ok cr \<Longrightarrow> length (digest cr pw i) = 16"
  by (cases i) (simp_all add: crypto_ok_def)

lemma length_digests: "crypto_ok cr \<Longrightarrow> length (digests cr pw n) = 16 * n"
  by (induction n) (simp_all add: digests_Suc length_digest, simp add: digests_def)

lemma kdf_loop_eq:
  assumes "crypto_ok cr"
  shows "kdf_loop cr pw (int k) (digests cr pw n) (prev_digest cr pw n) = ret (digests cr pw (max n ((k + 15) div 16)))"
proof (induction "k - 16 * n" arbitrary: n rule: less_induct)
  case less
  show ?case
  proof (cases "16 * n < k")
    case True
    have "seg (digests cr pw (Suc n)) (ilen (digests cr pw (Suc n)) - 16) (ilen (digests cr pw (Suc n))) = digest cr pw n"
      using assms by (simp add: seg_def digests_Suc length_digests length_digest)
    then have "kdf_loop cr pw (int k) (digests cr pw n) (prev_digest cr pw n) =
        kdf_loop cr pw (int k) (digests cr pw (Suc n)) (prev_digest cr pw (Suc n))"
      using True assms
      by (subst kdf_loop.simps) (simp add: length_digests length_digest digest_next Let_def flip: digests_Suc)
    also have "\<dots> = ret (digests cr pw (max (Suc n) ((k + 15) div 16)))"
      using True by (intro less) simp
    also have "max (Suc n) ((k + 15) div 16) = max n ((k + 15) div 16)" using True by linarith
    finally show ?thesis .
  next
    case False
    then have "max n ((k + 15) div 16) = n" by linarith
    with False assms show ?thesis by (subst kdf_loop.simps) (simp add: length_digests)
  qed
qed

lemma kdf_eq:
  assumes "crypto_ok cr"
  shows "kdf cr password (int k) = ret (take k (digests cr (str_bytes password) ((k + 15) div 16)))"
proof -
  have "k \<le> 16 * ((k + 15) div 16)" by linarith
  with kdf_loop_eq [OF assms, of "str_bytes password" k 0] assms show ?thesis
    by (simp add: kdf_def prev_digest_def digests_def [of _ _ 0] length_digests seg_0)
qed

lemma length_kdf: "crypto_ok cr \<Longrightarrow> \<exists>b. kdf cr password (int k) = ret b \<and> length b = k"
  using kdf_eq [of cr password k] length_digests [of cr "str_bytes password" "(k + 15) div 16"] by auto

lemma digests_prefix: "m \<le> n \<Longrightarrow> \<exists>r. digests cr pw n = digests cr pw m @ r"
proof (induction n)
  case (Suc n)
  then show ?case by (cases "m = Suc n") (auto simp: digests_Suc)
qed simp

subsection \<open>Choosing a cipher\<close>

definition cipher_names :: "string set" where
  "cipher_names = {''DUMMY'', ''CHACHA20-IETF-POLY1305'', ''AES-128-GCM'', ''AES-256-GCM'',
     ''AEAD_AES_128_GCM'', ''AEAD_AES_256_GCM'', ''AEAD_CHACHA20_POLY1305''}"

definition key_size :: "string \<Rightarrow> nat" where
  "key_size name = (if name \<in> {''AES-128-GCM'', ''AEAD_AES_128_GCM''} then 16 else 32)"

lemma name_defs: "aeadAes128Gcm = ''AEAD_AES_128_GCM''" "aeadAes256Gcm = ''AEAD_AES_256_GCM''"
  "aeadChacha20Poly1305 = ''AEAD_CHACHA20_POLY1305''"
  by (simp_all add: aeadAes128Gcm_def aeadAes256Gcm_def aeadChacha20Poly1305_def)

definition name_New :: "crypto \<Rightarrow> string \<Rightarrow> bytes \<Rightarrow> goerr + metaCipher" where
  "name_New cr name =
     (if name \<in> {''CHACHA20-IETF-POLY1305'', ''AEAD_CHACHA20_POLY1305''} then Chacha20Poly1305 cr else AESGCM cr)"

text \<open>A cipher of a name: the AEAD it makes of a key of its size is the one the name stands for.\<close>

definition named_cipher :: "crypto \<Rightarrow> string \<Rightarrow> metaCipher \<Rightarrow> bool" where
  "named_cipher cr name c \<longleftrightarrow> cipher_made cr c \<and> (\<forall>k. length k = key_size name \<longrightarrow>
     mc_makeAEAD c k = Inr (if name \<in> {''CHACHA20-IETF-POLY1305'', ''AEAD_CHACHA20_POLY1305''} then chacha cr k else gcm cr k))"

lemma aeadList_canonical:
  assumes "name \<noteq> ''DUMMY''"
  shows "aeadList cr (canonical_name name) =
    (if name \<in> cipher_names then Some \<lparr>ac_KeySize = key_size name, ac_New = name_New cr name\<rparr> else None)"
  using assms
  by (simp add: aeadList_def canonical_name_def name_defs cipher_names_def key_size_def name_New_def)

lemma key_size_pos: "0 < key_size name"
  by (simp add: key_size_def)

lemma name_New_ok:
  assumes "length key = key_size name"
  shows "\<exists>c. name_New cr name key = Inr c \<and> named_cipher cr name c \<and> mc_psk c = key"
proof (cases "name \<in> {''CHACHA20-IETF-POLY1305'', ''AEAD_CHACHA20_POLY1305''}")
  case True
  then have size: "key_size name = 32" by (elim insertE emptyE) (simp_all add: key_size_def)
  let ?c = "\<lparr>mc_psk = key, mc_makeAEAD = chacha_New cr\<rparr>"
  have "Chacha20Poly1305 cr key = Inr ?c" using size assms by (simp add: Chacha20Poly1305_def)
  moreover have "named_cipher cr name ?c"
    using True size calculation unfolding named_cipher_def cipher_made_def by (auto simp: chacha_New_def)
  ultimately show ?thesis using True by (simp add: name_New_def)
next
  case False
  have size: "key_size name \<in> {16, 24, 32}" by (simp add: key_size_def)
  let ?c = "\<lparr>mc_psk = key, mc_makeAEAD = aesGCM cr\<rparr>"
  have "AESGCM cr key = Inr ?c" using size assms by (simp add: AESGCM_def)
  moreover have "named_cipher cr name ?c"
    using False size calculation unfolding named_cipher_def cipher_made_def by (auto simp: aesGCM_def)
  ultimately show ?thesis using False by (simp add: name_New_def)
qed

lemma PickCipher_named:
  assumes "ToUpper uni name \<in> cipher_names - {''DUMMY''}"
  shows "PickCipher cr uni name key password =
    gobind (if key = [] then kdf cr password (int (key_size (ToUpper uni name))) else ret key) (\<lambda>key.
    if length key \<noteq> key_size (ToUpper uni name) then ret (Inl (KeySizeError (int (key_size (ToUpper uni name)))))
    else case name_New cr (ToUpper uni name) key of Inl e \<Rightarrow> ret (Inl e) | Inr c \<Rightarrow> ret (Inr (aeadCipher c)))"
proof -
  from assms have "ToUpper uni name \<noteq> ''DUMMY''" "ToUpper uni name \<in> cipher_names" by auto
  then show ?thesis
    unfolding PickCipher_def Let_def
    by (simp only: aeadList_canonical simp_thms if_True if_False option.case aead_choice.select_convs length_0_conv)
qed

text \<open>
  With a supported name, a key of the right length gives a working cipher with that key, and any other
  key that is not empty an error that names the length wanted.
\<close>

lemma PickCipher_key:
  assumes "ToUpper uni name \<in> cipher_names - {''DUMMY''}" "length key = key_size (ToUpper uni name)"
  shows "\<exists>c. PickCipher cr uni name key password = ret (Inr (aeadCipher c)) \<and> named_cipher cr (ToUpper uni name) c \<and> mc_psk c = key"
proof -
  have "key \<noteq> []" using assms(2) key_size_pos [of "ToUpper uni name"] by auto
  with assms name_New_ok [OF assms(2), of cr] show ?thesis by (auto simp: PickCipher_named)
qed

lemma PickCipher_key_size:
  assumes "ToUpper uni name \<in> cipher_names - {''DUMMY''}" "length key \<noteq> key_size (ToUpper uni name)" "key \<noteq> []"
  shows "PickCipher cr uni name key password = ret (Inl (KeySizeError (int (key_size (ToUpper uni name)))))"
  using assms by (simp add: PickCipher_named)

lemma PickCipher_unknown:
  "ToUpper uni name \<notin> cipher_names \<Longrightarrow> PickCipher cr uni name key password = ret (Inl ErrCipherNotSupported)"
  by (cases "ToUpper uni name = ''DUMMY''") (simp_all add: PickCipher_def aeadList_canonical cipher_names_def)

lemma PickCipher_password:
  assumes "crypto_ok cr" "ToUpper uni name \<in> cipher_names - {''DUMMY''}"
  shows "PickCipher cr uni name [] password =
    PickCipher cr uni name
      (take (key_size (ToUpper uni name)) (digests cr (str_bytes password) ((key_size (ToUpper uni name) + 15) div 16))) password"
proof -
  let ?N = "ToUpper uni name"
  have "length (take (key_size ?N) (digests cr (str_bytes password) ((key_size ?N + 15) div 16))) = key_size ?N"
    using length_kdf [OF assms(1), of password "key_size ?N"] kdf_eq [OF assms(1), of password "key_size ?N"] by simp
  moreover from this have "take (key_size ?N) (digests cr (str_bytes password) ((key_size ?N + 15) div 16)) \<noteq> []"
    using key_size_pos [of ?N] by (metis length_0_conv less_numeral_extra(3))
  ultimately show ?thesis
    using kdf_eq [OF assms(1), of password "key_size ?N"]
    by (simp only: PickCipher_named [OF assms(2)] gobind_simps simp_thms if_True if_False)
qed

lemma PickCipher_dummy: "ToUpper uni name = ''DUMMY'' \<Longrightarrow> PickCipher cr uni name key password = ret (Inr dummy)"
  by (simp add: PickCipher_def)

lemma PickCipher_derived:
  assumes "crypto_ok cr" "ToUpper uni name \<in> cipher_names - {''DUMMY''}"
  shows "\<exists>c. PickCipher cr uni name [] password = ret (Inr (aeadCipher c)) \<and> named_cipher cr (ToUpper uni name) c \<and>
      kdf cr password (int (key_size (ToUpper uni name))) = ret (mc_psk c)"
proof -
  let ?N = "ToUpper uni name"
  let ?key = "take (key_size ?N) (digests cr (str_bytes password) ((key_size ?N + 15) div 16))"
  have "length ?key = key_size ?N"
    using length_kdf [OF assms(1), of password "key_size ?N"] kdf_eq [OF assms(1), of password "key_size ?N"] by simp
  with assms(2) PickCipher_key [of uni name ?key cr password] PickCipher_password [OF assms, of password] kdf_eq [OF assms(1), of password "key_size ?N"]
  show ?thesis by auto
qed

lemma foldl_snoc: "foldl (\<lambda>l k. l @ [k]) xs ks = xs @ ks"
  by (induction ks arbitrary: xs) simp_all

lemma dom_aeadList: "dom (aeadList cr) = {''AEAD_AES_128_GCM'', ''AEAD_AES_256_GCM'', ''AEAD_CHACHA20_POLY1305''}"
  by (auto simp: aeadList_def name_defs)

subsection \<open>Properties\<close>

text \<open>
  C23: Key derivation: \<open>kdf\<close> returns, for every password and every length, that many bytes: the beginning of
  the chain of MD5 digests in which each digest is that of the previous one followed by the password.
\<close>

theorem kdf_digest_chain:
  assumes "crypto_ok cr"
  shows "\<exists>key. kdf cr password (int k) = ret key \<and> length key = k \<and>
    key = take k (concat (map (digest cr (str_bytes password)) [0..<(k + 15) div 16]))"
  using kdf_eq [OF assms, of password k] length_kdf [OF assms, of password k] by (simp add: digests_def)

theorem kdf_digest_chain_witness:
  "\<exists>key. kdf sample_crypto ''ab'' 32 = ret key \<and> length key = 32"
  using kdf_digest_chain [OF sample_crypto_ok, of "''ab''" 32] by auto

text \<open>
  A longer key extends a shorter one: the same password gives keys of which one is a prefix of the
  other.
\<close>

theorem kdf_prefix:
  assumes "crypto_ok cr" "m \<le> n"
  shows "\<exists>key. kdf cr password (int n) = ret key \<and> kdf cr password (int m) = ret (take m key)"
proof -
  let ?D = "digests cr (str_bytes password)"
  have mono: "(m + 15) div 16 \<le> (n + 15) div 16" using assms(2) by (simp add: div_le_mono)
  from digests_prefix [OF mono, of cr "str_bytes password"] obtain r where r: "?D ((n + 15) div 16) = ?D ((m + 15) div 16) @ r" ..
  have "m \<le> length (?D ((m + 15) div 16))" using length_digests [OF assms(1), of "str_bytes password" "(m + 15) div 16"] by linarith
  with r have "take m (?D ((n + 15) div 16)) = take m (?D ((m + 15) div 16))" by simp
  then show ?thesis using kdf_eq [OF assms(1), of password] assms(2) by (simp add: min_absorb1)
qed

theorem kdf_prefix_witness:
  "\<exists>key. kdf sample_crypto ''pw'' 32 = ret key \<and> kdf sample_crypto ''pw'' 16 = ret (take 16 key)"
  using kdf_prefix [OF sample_crypto_ok, of 16 32 "''pw''"] by simp

text \<open>
  C22: \<^verbatim>\<open>PickCipher\<close> on every branch: \<open>dummy\<close> for its name, an error for a name that is not in the table, an
  error that names the wanted length for a key of another length, and otherwise a working cipher with
  the given key, or with the key derived from the password when none is given.  It is the algorithm of the name: ChaCha20-Poly1305 for
  the two names that say so, and AES-GCM for the others.
\<close>

theorem PickCipher_branches:
  fixes uni name
  assumes "crypto_ok cr"
  defines "N \<equiv> ToUpper uni name"
  shows "if N = ''DUMMY'' then PickCipher cr uni name key password = ret (Inr dummy)
    else if N \<notin> cipher_names then PickCipher cr uni name key password = ret (Inl ErrCipherNotSupported)
    else if key \<noteq> [] \<and> length key \<noteq> key_size N
      then PickCipher cr uni name key password = ret (Inl (KeySizeError (int (key_size N))))
    else \<exists>c. PickCipher cr uni name key password = ret (Inr (aeadCipher c)) \<and> cipher_made cr c \<and>
      (\<forall>k. length k = key_size N \<longrightarrow>
        mc_makeAEAD c k = Inr (if N \<in> {''CHACHA20-IETF-POLY1305'', ''AEAD_CHACHA20_POLY1305''} then chacha cr k else gcm cr k)) \<and>
      (if key = [] then kdf cr password (int (key_size N)) = ret (mc_psk c) else mc_psk c = key)"
proof -
  consider (dummy) "N = ''DUMMY''" | (unknown) "N \<noteq> ''DUMMY''" "N \<notin> cipher_names"
    | (size) "N \<in> cipher_names - {''DUMMY''}" "key \<noteq> []" "length key \<noteq> key_size N"
    | (given) "N \<in> cipher_names - {''DUMMY''}" "key \<noteq> []" "length key = key_size N"
    | (derived) "N \<in> cipher_names - {''DUMMY''}" "key = []"
    by blast
  then show ?thesis
  proof cases
    case dummy
    with PickCipher_dummy [of uni name] show ?thesis by (simp add: N_def)
  next
    case unknown
    with PickCipher_unknown [of uni name] show ?thesis by (simp add: N_def)
  next
    case size
    with PickCipher_key_size [of uni name key] show ?thesis by (simp add: N_def)
  next
    case given
    with PickCipher_key [of uni name key cr password] show ?thesis by (simp add: N_def named_cipher_def conj_assoc)
  next
    case derived
    with PickCipher_derived [OF assms(1), of uni name password] show ?thesis by (simp add: N_def named_cipher_def conj_assoc)
  qed
qed

theorem PickCipher_branches_witness:
  "PickCipher sample_crypto id ''rc4-md5'' [] ''pw'' = ret (Inl ErrCipherNotSupported) \<and>
   (\<exists>c. PickCipher sample_crypto id ''chacha20-ietf-poly1305'' [] ''pw'' = ret (Inr (aeadCipher c)) \<and>
     mc_makeAEAD c (replicate 32 1) = Inr (chacha sample_crypto (replicate 32 1)))"
proof -
  have n: "ToUpper id ''rc4-md5'' = ''RC4-MD5''" "ToUpper id ''chacha20-ietf-poly1305'' = ''CHACHA20-IETF-POLY1305''"
    by code_simp+
  have "''RC4-MD5'' \<notin> cipher_names" "''CHACHA20-IETF-POLY1305'' \<in> cipher_names" "key_size ''CHACHA20-IETF-POLY1305'' = 32"
    by (simp_all add: cipher_names_def key_size_def)
  with PickCipher_branches [OF sample_crypto_ok, of id "''rc4-md5''" "[]" "''pw''", unfolded n]
    PickCipher_branches [OF sample_crypto_ok, of id "''chacha20-ietf-poly1305''" "[]" "''pw''", unfolded n]
  show ?thesis by auto
qed

text \<open>
  \<^verbatim>\<open>ListCipher\<close> does not depend on the order in which Go ranges over the table: every order of its keys
  gives the three names in alphabetical order.
\<close>

theorem ListCipher_sorted:
  assumes "distinct ks" "set ks = dom (aeadList cr)"
  shows "ListCipher ks = [''AEAD_AES_128_GCM'', ''AEAD_AES_256_GCM'', ''AEAD_CHACHA20_POLY1305'']"
proof -
  let ?l = "[''AEAD_AES_128_GCM'', ''AEAD_AES_256_GCM'', ''AEAD_CHACHA20_POLY1305'']"
  have "sort ks = ?l"
  proof (rule sorted_distinct_set_unique)
    show "sorted ?l" by (simp add: less_char_def)
  qed (use assms dom_aeadList [of cr] in auto)
  then show ?thesis by (simp add: ListCipher_def foldl_snoc)
qed

theorem ListCipher_sorted_witness:
  "ListCipher [''AEAD_CHACHA20_POLY1305'', ''AEAD_AES_256_GCM'', ''AEAD_AES_128_GCM''] =
     [''AEAD_AES_128_GCM'', ''AEAD_AES_256_GCM'', ''AEAD_CHACHA20_POLY1305'']"
  using ListCipher_sorted [of "[''AEAD_CHACHA20_POLY1305'', ''AEAD_AES_256_GCM'', ''AEAD_AES_128_GCM'']" sample_crypto]
  by (auto simp: dom_aeadList)

end
