(* ===== verification/Socks_Addr.thy ===== *)
theory Socks_Addr
  imports Net_Text
begin

text \<open>
  The address codec of \<^verbatim>\<open>m_socks/socks5.go\<close>: \<^verbatim>\<open>Addr\<close>, \<^verbatim>\<open>Addr.String\<close>, \<^verbatim>\<open>ParseAddr\<close>, \<^verbatim>\<open>readAddr\<close>,
  \<^verbatim>\<open>ReadAddr\<close> and \<^verbatim>\<open>SplitAddr\<close>, with the protocol constants they use.  An address is its bytes
  (type, host, port); \<open>addr_wf\<close> says that it is complete and has nothing behind it.
\<close>

subsection \<open>Constants\<close>

definition ATYPIPv4 :: byte where "ATYPIPv4 = 1"
definition ATYPDomain :: byte where "ATYPDomain = 3"
definition ATYPIPv6 :: byte where "ATYPIPv6 = 4"

definition IPv4len :: nat where "IPv4len = 4"
definition IPv6len :: nat where "IPv6len = 16"

definition MaxAddrLen :: nat where "MaxAddrLen = 1 + 1 + 255 + 2"

definition ErrCommandNotSupported :: goerr where "ErrCommandNotSupported = SocksError 7"
definition ErrAddressNotSupported :: goerr where "ErrAddressNotSupported = SocksError 8"
definition InfoUDPAssociate :: goerr where "InfoUDPAssociate = SocksError 9"

lemmas atyp_defs = ATYPIPv4_def ATYPDomain_def ATYPIPv6_def IPv4len_def IPv6len_def MaxAddrLen_def

text \<open>The text of a SOCKS error.\<close>

definition SocksError_Error :: "byte \<Rightarrow> string" where
  "SocksError_Error err = ''SOCKS error: '' @ Itoa (unat err)"

subsection \<open>Text\<close>

text \<open>\<^verbatim>\<open>strconv.Itoa((int(hi) << 8) | int(lo))\<close> for the two bytes at \<open>i\<close>\<close>

definition port_text :: "bytes \<Rightarrow> int \<Rightarrow> string go" where
  "port_text a i =
     gobind (go_index a i) (\<lambda>hi. gobind (go_index a (i + 1)) (\<lambda>lo. ret (Itoa (push_bit 8 (unat hi) OR unat lo))))"

definition Addr_String :: "bytes \<Rightarrow> string go" where
  "Addr_String a =
     gobind (go_index a 0) (\<lambda>atyp.
     gobind
       (if atyp = ATYPDomain then
          gobind (go_index a 1) (\<lambda>n.
          gobind (go_slice a 2 (2 + uint n)) (\<lambda>h.
          gobind (port_text a (2 + uint n)) (\<lambda>port. ret (bytes_str h, port))))
        else if atyp = ATYPIPv4 then
          gobind (go_slice a 1 (1 + int IPv4len)) (\<lambda>h.
          gobind (port_text a (1 + int IPv4len)) (\<lambda>port. ret (IP_String h, port)))
        else if atyp = ATYPIPv6 then
          gobind (go_slice a 1 (1 + int IPv6len)) (\<lambda>h.
          gobind (port_text a (1 + int IPv6len)) (\<lambda>port. ret (IP_String h, port)))
        else ret ([], []))
       (\<lambda>(host, port). ret (JoinHostPort host port)))"

text \<open>\<open>None\<close> is the nil address.\<close>

definition ParseAddr :: "string \<Rightarrow> bytes option" where
  "ParseAddr s =
     Option.bind (SplitHostPort s) (\<lambda>(host, port).
     Option.bind
       (case ParseIP host of
          Some ip \<Rightarrow>
            (case To4 ip of
               Some ip4 \<Rightarrow> Some (overwrite ((replicate (1 + IPv4len + 2) 0)[0 := ATYPIPv4]) 1 ip4)
             | None \<Rightarrow> Some (overwrite ((replicate (1 + IPv6len + 2) 0)[0 := ATYPIPv6]) 1 ip))
        | None \<Rightarrow>
            if 255 < length host then None
            else Some (overwrite ((replicate (1 + 1 + length host + 2) 0)[0 := ATYPDomain, 1 := of_nat (length host)])
                   2 (str_bytes host)))
       (\<lambda>addr.
     Option.bind (ParseUint16 port) (\<lambda>portnum.
       Some (addr[length addr - 2 := of_nat (drop_bit 8 portnum), length addr - 1 := of_nat portnum]))))"

subsection \<open>Bytes\<close>

text \<open>\<open>ReadFull_at rd s b lo hi\<close> is \<^verbatim>\<open>io.ReadFull(r, b[lo:hi])\<close>: the error, the buffer and the reader.\<close>

definition ReadFull_at :: "'s reader_fn \<Rightarrow> 's \<Rightarrow> bytes \<Rightarrow> int \<Rightarrow> int \<Rightarrow> (goerr option \<times> bytes \<times> 's) go" where
  "ReadFull_at rd s b lo hi =
     gobind (go_slice b lo hi) (\<lambda>p.
     gobind (ReadFull rd s p) (\<lambda>(_, p, err, s). ret (err, overwrite b lo p, s)))"

text \<open>
  \<^verbatim>\<open>readAddr(r, b)\<close> returns the address (a prefix of \<open>b\<close>) and an error; in the three address branches it
  returns both.  The model also returns the buffer and the reader.
\<close>

definition readAddr :: "'s reader_fn \<Rightarrow> 's \<Rightarrow> bytes \<Rightarrow> ((bytes option \<times> goerr option) \<times> bytes \<times> 's) go" where
  "readAddr rd s b =
     (if length b < MaxAddrLen then ret ((None, Some ErrShortBuffer), b, s)
      else
        gobind (ReadFull_at rd s b 0 1) (\<lambda>(err, b, s).
        case err of
          Some e \<Rightarrow> ret ((None, Some e), b, s)
        | None \<Rightarrow>
            gobind (go_index b 0) (\<lambda>atyp.
            if atyp = ATYPDomain then
              gobind (ReadFull_at rd s b 1 2) (\<lambda>(err, b, s).
              case err of
                Some e \<Rightarrow> ret ((None, Some e), b, s)
              | None \<Rightarrow>
                  gobind (go_index b 1) (\<lambda>n.
                  gobind (ReadFull_at rd s b 2 (2 + uint n + 2)) (\<lambda>(err, b, s).
                  gobind (go_index b 1) (\<lambda>n.
                  gobind (go_slice b 0 (1 + 1 + uint n + 2)) (\<lambda>a. ret ((Some a, err), b, s))))))
            else if atyp = ATYPIPv4 then
              gobind (ReadFull_at rd s b 1 (1 + int IPv4len + 2)) (\<lambda>(err, b, s).
              gobind (go_slice b 0 (1 + int IPv4len + 2)) (\<lambda>a. ret ((Some a, err), b, s)))
            else if atyp = ATYPIPv6 then
              gobind (ReadFull_at rd s b 1 (1 + int IPv6len + 2)) (\<lambda>(err, b, s).
              gobind (go_slice b 0 (1 + int IPv6len + 2)) (\<lambda>a. ret ((Some a, err), b, s)))
            else ret ((None, Some ErrAddressNotSupported), b, s))))"

definition ReadAddr :: "'s reader_fn \<Rightarrow> 's \<Rightarrow> ((bytes option \<times> goerr option) \<times> 's) go" where
  "ReadAddr rd s = gobind (readAddr rd s (replicate MaxAddrLen 0)) (\<lambda>(res, _, s). ret (res, s))"

definition SplitAddr :: "bytes \<Rightarrow> bytes option" where
  "SplitAddr b =
     (if length b < 1 then None
      else
        Option.bind
          (if b ! 0 = ATYPDomain then (if length b < 2 then None else Some (1 + 1 + unat (b ! 1) + 2))
           else if b ! 0 = ATYPIPv4 then Some (1 + IPv4len + 2)
           else if b ! 0 = ATYPIPv6 then Some (1 + IPv6len + 2)
           else None)
          (\<lambda>addrLen. if length b < addrLen then None else Some (take addrLen b)))"

subsection \<open>Complete addresses\<close>

definition addr_wf :: "bytes \<Rightarrow> bool" where
  "addr_wf a \<longleftrightarrow> SplitAddr a = Some a"

text \<open>The three forms, as constructors.\<close>

definition ipv4_addr :: "bytes \<Rightarrow> byte \<Rightarrow> byte \<Rightarrow> bytes" where
  "ipv4_addr ip hi lo = ATYPIPv4 # ip @ [hi, lo]"

definition ipv6_addr :: "bytes \<Rightarrow> byte \<Rightarrow> byte \<Rightarrow> bytes" where
  "ipv6_addr ip hi lo = ATYPIPv6 # ip @ [hi, lo]"

definition domain_addr :: "bytes \<Rightarrow> byte \<Rightarrow> byte \<Rightarrow> bytes" where
  "domain_addr host hi lo = ATYPDomain # of_nat (length host) # host @ [hi, lo]"

lemmas addr_forms = ipv4_addr_def ipv6_addr_def domain_addr_def

lemma byte_len: "n < 256 \<Longrightarrow> unat (of_nat n :: byte) = n"
  by (simp add: unsigned_of_nat take_bit_eq_mod)

lemma SplitAddr_forms:
  "length ip = 4 \<Longrightarrow> SplitAddr (ipv4_addr ip hi lo @ rest) = Some (ipv4_addr ip hi lo)"
  "length ip = 16 \<Longrightarrow> SplitAddr (ipv6_addr ip hi lo @ rest) = Some (ipv6_addr ip hi lo)"
  "length host < 256 \<Longrightarrow> SplitAddr (domain_addr host hi lo @ rest) = Some (domain_addr host hi lo)"
  by (simp_all add: SplitAddr_def addr_forms atyp_defs byte_len)

lemma split_tail: "n + 2 \<le> length xs \<Longrightarrow> \<exists>ys hi lo. take (n + 2) xs = ys @ [hi, lo] \<and> length ys = n"
proof -
  assume n: "n + 2 \<le> length xs"
  have two: "length zs = 2 \<Longrightarrow> \<exists>hi lo. zs = [hi, lo]" for zs :: "'a list"
    by (auto simp: length_Suc_conv numeral_2_eq_2)
  obtain hi lo where "drop n (take (n + 2) xs) = [hi, lo]"
    using two [of "drop n (take (n + 2) xs)"] n by auto
  moreover have "take n (take (n + 2) xs) @ drop n (take (n + 2) xs) = take (n + 2) xs"
    by (rule append_take_drop_id)
  ultimately have "take (n + 2) xs = take n xs @ [hi, lo]" by (simp add: min_def)
  with n show ?thesis by (intro exI [of _ "take n xs"]) auto
qed

text \<open>What \<^verbatim>\<open>SplitAddr\<close> cuts off is one of the three forms.\<close>

lemma SplitAddr_cases:
  assumes "SplitAddr b = Some a"
  shows "(\<exists>ip hi lo. length ip = 4 \<and> a = ipv4_addr ip hi lo) \<or> (\<exists>ip hi lo. length ip = 16 \<and> a = ipv6_addr ip hi lo) \<or>
    (\<exists>host hi lo. length host < 256 \<and> a = domain_addr host hi lo)"
proof -
  from assms obtain t r where b: "b = t # r" by (cases b) (auto simp: SplitAddr_def)
  consider "t = ATYPDomain" | "t = ATYPIPv4" | "t = ATYPIPv6"
    using assms b by (auto simp: SplitAddr_def split: if_splits)
  then show ?thesis
  proof cases
    case 1
    with assms b obtain n r' where r: "r = n # r'" by (cases r) (auto simp: SplitAddr_def)
    with 1 assms b have "unat n + 2 \<le> length r'" "a = ATYPDomain # n # take (unat n + 2) r'"
      by (auto simp: SplitAddr_def split: if_splits)
    with split_tail [of "unat n" r'] obtain ys hi lo where "a = ATYPDomain # n # ys @ [hi, lo]" "length ys = unat n"
      by auto
    then have "length ys < 256 \<and> a = domain_addr ys hi lo"
      using unsigned_less [of n, where ?'a = nat] by (simp add: domain_addr_def)
    then show ?thesis by blast
  next
    case 2
    with assms b have "4 + 2 \<le> length r" "a = ATYPIPv4 # take (4 + 2) r"
      by (auto simp: SplitAddr_def atyp_defs split: if_splits)
    with split_tail [of 4 r] show ?thesis by (auto simp: ipv4_addr_def)
  next
    case 3
    with assms b have "16 + 2 \<le> length r" "a = ATYPIPv6 # take (16 + 2) r"
      by (auto simp: SplitAddr_def atyp_defs split: if_splits)
    with split_tail [of 16 r] show ?thesis by (auto simp: ipv6_addr_def)
  qed
qed

lemma SplitAddr_prefix: "SplitAddr b = Some a \<Longrightarrow> a = take (length a) b"
  by (auto simp: SplitAddr_def min_def split: if_splits bind_splits)

lemma addr_wf_append: "addr_wf a \<Longrightarrow> SplitAddr (a @ rest) = Some a"
  using SplitAddr_cases [of a a] by (auto simp: addr_wf_def SplitAddr_forms)

lemma SplitAddr_wf: "SplitAddr b = Some a \<Longrightarrow> addr_wf a"
  using SplitAddr_cases [of b a] SplitAddr_forms [where rest = "[]"] by (auto simp: addr_wf_def)

lemma addr_wf_cases [consumes 1, case_names ipv4 ipv6 domain]:
  assumes "addr_wf a"
  obtains ip hi lo where "length ip = 4" "a = ipv4_addr ip hi lo"
  | ip hi lo where "length ip = 16" "a = ipv6_addr ip hi lo"
  | host hi lo where "length host < 256" "a = domain_addr host hi lo"
  using assms SplitAddr_cases [of a a] by (auto simp: addr_wf_def)

lemma addr_wf_length: "addr_wf a \<Longrightarrow> 4 \<le> length a \<and> length a \<le> MaxAddrLen"
  by (cases a rule: addr_wf_cases) (auto simp: addr_forms atyp_defs)

subsection \<open>Text, there and back\<close>

definition port_num :: "byte \<Rightarrow> byte \<Rightarrow> nat" where
  "port_num hi lo = unat hi * 256 + unat lo"

lemma port_or: "push_bit 8 (unat hi) OR unat lo = port_num hi lo" for hi lo :: byte
proof -
  have "unat lo = take_bit 8 (unat lo)"
    using unsigned_less [of lo, where ?'a = nat] by (simp add: take_bit_eq_mod)
  moreover have "push_bit 8 (unat hi) AND take_bit 8 (unat lo) = 0"
    by (rule bit_eqI) (auto simp: bit_simps)
  ultimately have "push_bit 8 (unat hi) OR unat lo = push_bit 8 (unat hi) + unat lo"
    by (metis disjunctive_add_eq_or)
  then show ?thesis by (simp add: port_num_def push_bit_eq_mult)
qed

lemma port_num_bytes: "of_nat (drop_bit 8 (port_num hi lo)) = hi" "of_nat (port_num hi lo) = lo" for hi lo :: byte
proof -
  have "unat lo < 256" using unsigned_less [of lo, where ?'a = nat] by simp
  then have "drop_bit 8 (port_num hi lo) = unat hi" by (simp add: port_num_def drop_bit_eq_div)
  then show "of_nat (drop_bit 8 (port_num hi lo)) = hi" by simp
  have "(256 :: byte) = 0" by simp
  then have "hi * 256 = 0" by (simp only: mult_zero_right)
  then show "of_nat (port_num hi lo) = lo" by (simp add: port_num_def)
qed

lemma port_num_le: "port_num hi lo \<le> 65535" for hi lo :: byte
  using unsigned_less [of hi, where ?'a = nat] unsigned_less [of lo, where ?'a = nat] by (simp add: port_num_def)

lemma port_text_at:
  assumes "a = xs @ [hi, lo]" "i = ilen xs"
  shows "port_text a i = ret (Itoa (port_num hi lo))"
  using assms by (simp add: port_text_def port_or nth_append nat_add_distrib)

text \<open>The text of each form.\<close>

lemma String_forms:
  "length ip = 4 \<Longrightarrow> Addr_String (ipv4_addr ip hi lo) = ret (JoinHostPort (IP_String ip) (Itoa (port_num hi lo)))"
  "length ip = 16 \<Longrightarrow> Addr_String (ipv6_addr ip hi lo) = ret (JoinHostPort (IP_String ip) (Itoa (port_num hi lo)))"
  "length host < 256 \<Longrightarrow> Addr_String (domain_addr host hi lo) = ret (JoinHostPort (bytes_str host) (Itoa (port_num hi lo)))"
proof -
  show "length ip = 4 \<Longrightarrow> Addr_String (ipv4_addr ip hi lo) = ret (JoinHostPort (IP_String ip) (Itoa (port_num hi lo)))"
    using port_text_at [of "ipv4_addr ip hi lo" "ATYPIPv4 # ip" hi lo 5]
    by (simp add: Addr_String_def ipv4_addr_def atyp_defs seg_def)
  show "length ip = 16 \<Longrightarrow> Addr_String (ipv6_addr ip hi lo) = ret (JoinHostPort (IP_String ip) (Itoa (port_num hi lo)))"
    using port_text_at [of "ipv6_addr ip hi lo" "ATYPIPv6 # ip" hi lo 17]
    by (simp add: Addr_String_def ipv6_addr_def atyp_defs seg_def)
  assume h: "length host < 256"
  then have u: "uint (of_nat (length host) :: byte) = ilen host"
    by (simp add: unsigned_of_nat take_bit_eq_mod)
  show "Addr_String (domain_addr host hi lo) = ret (JoinHostPort (bytes_str host) (Itoa (port_num hi lo)))"
    using port_text_at [of "domain_addr host hi lo" "ATYPDomain # of_nat (length host) # host" hi lo "2 + ilen host"] h
    by (simp add: Addr_String_def domain_addr_def atyp_defs seg_def u)
qed

text \<open>Filling in a fresh address: the header, the host, the port.\<close>

lemma overwrite_middle: "length h = n \<Longrightarrow> overwrite (pre @ replicate n z @ post) (ilen pre) h = pre @ h @ post"
  by (simp add: overwrite_def)

lemma fresh_addr:
  fixes h :: bytes
  shows "length h = n \<Longrightarrow> overwrite ((replicate (1 + n + 2) 0)[0 := t]) 1 h = t # h @ [0, 0]"
  "length h = n \<Longrightarrow> overwrite ((replicate (1 + 1 + n + 2) 0)[0 := t, 1 := l]) 2 h = t # l # h @ [0, 0]"
proof -
  have two: "replicate (n + 2) (0 :: byte) = replicate n 0 @ [0, 0]"
    using replicate_add [of n 2 "0 :: byte"] by (simp add: numeral_2_eq_2 del: replicate_add)
  have "(replicate (1 + n + 2) 0)[0 := t] = [t] @ replicate n 0 @ [0, 0]"
    using two by simp
  then show "length h = n \<Longrightarrow> overwrite ((replicate (1 + n + 2) 0)[0 := t]) 1 h = t # h @ [0, 0]"
    using overwrite_middle [of h n "[t]" 0 "[0, 0]"] by (simp only:) simp
  have "(replicate (1 + 1 + n + 2) 0)[0 := t, 1 := l] = [t, l] @ replicate n 0 @ [0, 0]"
    using two by simp
  then show "length h = n \<Longrightarrow> overwrite ((replicate (1 + 1 + n + 2) 0)[0 := t, 1 := l]) 2 h = t # l # h @ [0, 0]"
    using overwrite_middle [of h n "[t, l]" 0 "[0, 0]"] by (simp only:) simp
qed

lemma set_port: "length addr = length xs + 2 \<Longrightarrow> addr = xs @ [x, y] \<Longrightarrow>
    addr[length addr - 2 := hi, length addr - 1 := lo] = xs @ [hi, lo]"
  by (simp add: list_update_append)

lemma ParseAddr_eq:
  assumes "SplitHostPort s = Some (host, port)" "ParseUint16 port = Some n"
  shows "ParseIP host = Some ip \<Longrightarrow> To4 ip = Some ip4 \<Longrightarrow> length ip4 = 4 \<Longrightarrow>
      ParseAddr s = Some (ipv4_addr ip4 (of_nat (drop_bit 8 n)) (of_nat n))"
    and "ParseIP host = Some ip \<Longrightarrow> To4 ip = None \<Longrightarrow> length ip = 16 \<Longrightarrow>
      ParseAddr s = Some (ipv6_addr ip (of_nat (drop_bit 8 n)) (of_nat n))"
    and "ParseIP host = None \<Longrightarrow> length host < 256 \<Longrightarrow>
      ParseAddr s = Some (domain_addr (str_bytes host) (of_nat (drop_bit 8 n)) (of_nat n))"
    and "ParseIP host = None \<Longrightarrow> 255 < length host \<Longrightarrow> ParseAddr s = None"
proof -
  show "ParseAddr s = Some (ipv4_addr ip4 (of_nat (drop_bit 8 n)) (of_nat n))"
    if "ParseIP host = Some ip" "To4 ip = Some ip4" "length ip4 = 4"
    using that fresh_addr(1) [of ip4 IPv4len ATYPIPv4] assms set_port [of "ATYPIPv4 # ip4 @ [0, 0]" "ATYPIPv4 # ip4"]
    by (simp add: ParseAddr_def ipv4_addr_def IPv4len_def del: replicate.simps)
  show "ParseAddr s = Some (ipv6_addr ip (of_nat (drop_bit 8 n)) (of_nat n))"
    if "ParseIP host = Some ip" "To4 ip = None" "length ip = 16"
    using that fresh_addr(1) [of ip IPv6len ATYPIPv6] assms set_port [of "ATYPIPv6 # ip @ [0, 0]" "ATYPIPv6 # ip"]
    by (simp add: ParseAddr_def ipv6_addr_def IPv6len_def del: replicate.simps)
  show "ParseAddr s = Some (domain_addr (str_bytes host) (of_nat (drop_bit 8 n)) (of_nat n))"
    if "ParseIP host = None" "length host < 256"
    using that fresh_addr(2) [of "str_bytes host" "length host" ATYPDomain "of_nat (length host)"] assms
      set_port [of "ATYPDomain # of_nat (length host) # str_bytes host @ [0, 0]" "ATYPDomain # of_nat (length host) # str_bytes host"]
    by (simp add: ParseAddr_def domain_addr_def del: replicate.simps)
  show "ParseAddr s = None" if "ParseIP host = None" "255 < length host"
    using that assms by (simp add: ParseAddr_def)
qed

text \<open>An IPv4 address inside IPv6 (\<^verbatim>\<open>::ffff:a.b.c.d\<close>) is written, and so read back, as IPv4.\<close>

definition addr_canon :: "bytes \<Rightarrow> bytes" where
  "addr_canon a =
     (if a ! 0 = ATYPIPv6 then
        (case To4 (take 16 (drop 1 a)) of Some ip4 \<Rightarrow> ATYPIPv4 # ip4 @ drop 17 a | None \<Rightarrow> a)
      else a)"

text \<open>A domain that reads as a domain: it is not an IP address and has no brackets.\<close>

definition plain_domain :: "string \<Rightarrow> bool" where
  "plain_domain h \<longleftrightarrow> CHR ''['' \<notin> set h \<and> CHR '']'' \<notin> set h \<and> ParseIP h = None"

definition host_plain :: "bytes \<Rightarrow> bool" where
  "host_plain a \<longleftrightarrow> (a ! 0 = ATYPDomain \<longrightarrow> plain_domain (bytes_str (take (unat (a ! 1)) (drop 2 a))))"

lemma To4_length: "To4 ip = Some ip4 \<Longrightarrow> length ip4 = 4"
  by (auto simp: To4_def split: if_splits)

lemma To4_v4: "length p = 4 \<Longrightarrow> To4 (v4InV6Prefix @ p) = Some p"
  by (simp add: To4_def v4InV6Prefix_def)

lemma Split_Join_IP: "SplitHostPort (JoinHostPort (IP_String ip) (Itoa p)) = Some (IP_String ip, Itoa p)"
  by (intro Split_Join IP_String_chars Itoa_no_sep)

lemma parse_text:
  assumes "addr_wf a" "host_plain a"
  shows "\<exists>s. Addr_String a = ret s \<and> ParseAddr s = Some (addr_canon a)"
  using assms(1)
proof (cases a rule: addr_wf_cases)
  case (ipv4 ip hi lo)
  have s4: "IP_String ip = dotted ip" using ipv4(1) by (simp add: IP_String_def To4_def)
  have "addr_canon a = a" using ipv4 by (simp add: addr_canon_def ipv4_addr_def atyp_defs)
  with ParseAddr_eq(1) [OF Split_Join_IP [of ip "port_num hi lo"] ParseUint16_Itoa [OF port_num_le],
      unfolded s4, OF ParseIP_dotted [OF ipv4(1)] To4_v4 [OF ipv4(1)] ipv4(1)] ipv4 s4
  show ?thesis by (simp add: String_forms port_num_bytes)
next
  case (ipv6 ip hi lo)
  note parse = ParseAddr_eq [OF Split_Join_IP [of ip "port_num hi lo"] ParseUint16_Itoa [OF port_num_le]]
  have canon: "addr_canon a = (case To4 ip of Some ip4 \<Rightarrow> ipv4_addr ip4 hi lo | None \<Rightarrow> a)"
    using ipv6 by (simp add: addr_canon_def ipv6_addr_def ipv4_addr_def split: option.split)
  show ?thesis
  proof (cases "To4 ip")
    case None
    with parse(2) [OF ParseIP_String [OF ipv6(1)] None ipv6(1)] ipv6 canon show ?thesis
      by (simp add: String_forms port_num_bytes)
  next
    case (Some ip4)
    with parse(1) [OF ParseIP_String [OF ipv6(1)] Some To4_length [OF Some]] ipv6 canon show ?thesis
      by (simp add: String_forms port_num_bytes)
  qed
next
  case (domain host hi lo)
  let ?h = "bytes_str host"
  have h: "plain_domain ?h" using assms(2) domain by (simp add: host_plain_def domain_addr_def byte_len)
  then have "SplitHostPort (JoinHostPort ?h (Itoa (port_num hi lo))) = Some (?h, Itoa (port_num hi lo))"
    by (intro Split_Join Itoa_no_sep) (simp_all add: plain_domain_def)
  from ParseAddr_eq(3) [OF this ParseUint16_Itoa [OF port_num_le]] h domain(1)
  have "ParseAddr (JoinHostPort ?h (Itoa (port_num hi lo))) = Some (domain_addr host hi lo)"
    by (simp add: plain_domain_def port_num_bytes)
  moreover have "addr_canon a = a" using domain by (simp add: addr_canon_def domain_addr_def atyp_defs)
  ultimately show ?thesis using domain by (simp add: String_forms)
qed

text \<open>Whatever \<^verbatim>\<open>ParseAddr\<close> returns is a complete address.\<close>

lemma parseIPv4_length: "parseIPv4 s = Some ip \<Longrightarrow> length ip = 16"
  by (auto simp: parseIPv4_def IPv4_def v4InV6Prefix_def split: bind_splits if_splits)

lemma parseIPv6_loop_length:
  "parseIPv6_loop acc ell s = Some (acc', ell', rest) \<Longrightarrow> even (length acc) \<Longrightarrow> length acc \<le> 16 \<Longrightarrow> length acc' \<le> 16"
proof (induction acc ell s rule: parseIPv6_loop.induct)
  case (1 acc ell s)
  have "length acc \<noteq> 16 \<Longrightarrow> length acc \<le> 14" using "1.prems"(2,3) by presburger
  with 1 show ?case
    by (subst (asm) (3) parseIPv6_loop.simps)
      (auto simp: Let_def dest!: parseIPv4_length split: if_splits option.splits list.splits)
qed

lemma parseIPv6_length: "parseIPv6 s = Some ip \<Longrightarrow> length ip = 16"
proof -
  assume p: "parseIPv6 s = Some ip"
  have fill: "parseIPv6_loop [] ell t = Some (acc, ell', rest) \<Longrightarrow> length acc \<le> 16" for ell t acc ell' rest
    using parseIPv6_loop_length [of "[]"] by simp
  from p show ?thesis
    unfolding parseIPv6_def Let_def
    by (auto split: if_splits bind_splits option.splits dest!: fill)
qed

lemma ParseIP_length: "ParseIP s = Some ip \<Longrightarrow> length ip = 16"
proof -
  have "ParseIP_scan s t = Some ip \<Longrightarrow> length ip = 16" for t
    by (induction t) (auto dest: parseIPv4_length parseIPv6_length split: if_splits)
  then show "ParseIP s = Some ip \<Longrightarrow> length ip = 16" by (simp add: ParseIP_def)
qed

lemma addr_wf_forms:
  "length ip = 4 \<Longrightarrow> addr_wf (ipv4_addr ip hi lo)" "length ip = 16 \<Longrightarrow> addr_wf (ipv6_addr ip hi lo)"
  "length host < 256 \<Longrightarrow> addr_wf (domain_addr host hi lo)"
  using SplitAddr_forms [where rest = "[]"] by (simp_all add: addr_wf_def)

lemma ParseAddr_complete:
  assumes "ParseAddr s = Some a"
  shows "addr_wf a"
proof -
  from assms obtain host port where sp: "SplitHostPort s = Some (host, port)"
    by (auto simp: ParseAddr_def split: bind_splits)
  with assms obtain n where n: "ParseUint16 port = Some n"
    by (auto simp: ParseAddr_def split: bind_splits)
  note eq = ParseAddr_eq [OF sp n]
  show ?thesis
  proof (cases "ParseIP host")
    case None
    with assms eq(4) have "length host < 256" by force
    with assms eq(3) [OF None] addr_wf_forms(3) [of "str_bytes host"] show ?thesis by auto
  next
    case (Some ip)
    show ?thesis
    proof (cases "To4 ip")
      case None
      with assms eq(2) [OF Some None ParseIP_length [OF Some]] addr_wf_forms(2) [OF ParseIP_length [OF Some]] show ?thesis
        by auto
    next
      case (Some ip4)
      with assms eq(1) [OF \<open>ParseIP host = Some ip\<close> Some To4_length [OF Some]] addr_wf_forms(1) [OF To4_length [OF Some]] show ?thesis
        by auto
    qed
  qed
qed

subsection \<open>Reading an address from a stream\<close>

text \<open>
  The error \<^verbatim>\<open>readAddr\<close> gives for a stream \<open>bs\<close> that ends with \<open>fin\<close> and does not start with an address.
\<close>

definition addr_error :: "goerr \<Rightarrow> bytes \<Rightarrow> goerr" where
  "addr_error fin bs =
     (case bs of
        [] \<Rightarrow> fin
      | t # r \<Rightarrow>
          if t = ATYPDomain then (case r of [] \<Rightarrow> fin | _ # r' \<Rightarrow> short_read_err (length r') fin)
          else if t = ATYPIPv4 \<or> t = ATYPIPv6 then short_read_err (length r) fin
          else ErrAddressNotSupported)"

lemma take_overwrite_at:
  "k + length p \<le> length b \<Longrightarrow> take (k + length p) (overwrite b (int k) p) = take k b @ p"
  by (simp add: overwrite_def)

lemma nth_from_take: "take n b = xs \<Longrightarrow> i < length xs \<Longrightarrow> b ! i = xs ! i"
  by auto

context stream_reader
begin

lemma fill_enough:
  assumes "good s" "k + length xs \<le> length b" "content s = xs @ rest" "lo = int k" "hi = int (k + length xs)"
  shows "\<exists>b' s'. ReadFull_at rd s b lo hi = ret (None, b', s') \<and> take (k + length xs) b' = take k b @ xs \<and>
    length b' = length b \<and> good s' \<and> content s' = rest \<and> fin s' = fin s"
proof -
  have "length (seg b lo hi) = length xs" using assms(2,4,5) by (simp add: length_seg)
  with ReadFull_enough [OF assms(1), of "seg b lo hi"] assms take_overwrite_at [OF assms(2)] show ?thesis
    by (auto simp: ReadFull_at_def)
qed

lemma fill_short:
  assumes "good s" "k + n \<le> length b" "length (content s) < n" "lo = int k" "hi = int (k + n)"
  shows "\<exists>b' s'. ReadFull_at rd s b lo hi = ret (Some (short_read_err (length (content s)) (fin s)), b', s') \<and>
    take k b' = take k b \<and> length b' = length b \<and> good s' \<and> content s' = []"
proof -
  have "length (seg b lo hi) = n" using assms(2,4,5) by (simp add: length_seg)
  with ReadFull_short [OF assms(1), of "seg b lo hi"] assms show ?thesis
    by (auto simp: ReadFull_at_def) (metis nat_int of_nat_0_le_iff of_nat_le_iff add_leD1 take_overwrite)
qed

lemma readAddr_start:
  assumes "good s" "MaxAddrLen \<le> length b" "content s = t # r"
  shows "\<exists>b1 s1. ReadFull_at rd s b 0 1 = ret (None, b1, s1) \<and> go_index b1 0 = ret t \<and> take 1 b1 = [t] \<and> length b1 = length b \<and>
    good s1 \<and> content s1 = r \<and> fin s1 = fin s"
proof -
  from fill_enough [OF assms(1), of 0 "[t]" b r 0 1] assms obtain b1 s1 where
    "ReadFull_at rd s b 0 1 = ret (None, b1, s1)" "take 1 b1 = [t]" "length b1 = length b" "good s1" "content s1 = r" "fin s1 = fin s"
    by (auto simp: atyp_defs)
  moreover from this nth_from_take [of 1 b1 "[t]" 0] have "go_index b1 0 = ret t"
    by (cases b1; cases b) (simp_all add: go_index_def)
  ultimately show ?thesis by blast
qed

lemma readAddr_domain_start:
  assumes "good s" "MaxAddrLen \<le> length b" "content s = ATYPDomain # n # r"
  shows "\<exists>b2 s2. readAddr rd s b =
      gobind (ReadFull_at rd s2 b2 2 (2 + uint n + 2)) (\<lambda>(err, b, s).
      gobind (go_index b 1) (\<lambda>n. gobind (go_slice b 0 (1 + 1 + uint n + 2)) (\<lambda>a. ret ((Some a, err), b, s)))) \<and>
    take 2 b2 = [ATYPDomain, n] \<and> length b2 = length b \<and> good s2 \<and> content s2 = r \<and> fin s2 = fin s"
proof -
  have lb: "259 \<le> length b" using assms(2) by (simp add: atyp_defs)
  from readAddr_start [OF assms] obtain b1 s1 where
    r1: "ReadFull_at rd s b 0 1 = ret (None, b1, s1)" "go_index b1 0 = ret ATYPDomain" "take 1 b1 = [ATYPDomain]" "length b1 = length b"
    and s1: "good s1" "content s1 = n # r" "fin s1 = fin s"
    by blast
  from fill_enough [OF s1(1), of 1 "[n]" b1 r 1 2] s1(2,3) r1(3,4) lb obtain b2 s2 where
    r2: "ReadFull_at rd s1 b1 1 2 = ret (None, b2, s2)" "take 2 b2 = [ATYPDomain, n]" "length b2 = length b"
    and s2: "good s2" "content s2 = r" "fin s2 = fin s"
    by (auto simp: numeral_2_eq_2)
  have "go_index b2 1 = ret n" using nth_from_take [OF r2(2), of 1] r2(3) lb by simp
  with r1 r2 s2 lb show ?thesis
    by (intro exI [of _ b2] exI [of _ s2]) (simp add: readAddr_def atyp_defs)
qed

lemma readAddr_fixed:
  assumes "good s" "MaxAddrLen \<le> length b" "content s = t # r" "(t, n) \<in> {(ATYPIPv4, 6), (ATYPIPv6, 18)}"
  shows "\<exists>b1 s1. readAddr rd s b =
      gobind (ReadFull_at rd s1 b1 1 (1 + int n)) (\<lambda>(err, b, s). gobind (go_slice b 0 (1 + int n)) (\<lambda>a. ret ((Some a, err), b, s))) \<and>
    take 1 b1 = [t] \<and> length b1 = length b \<and> good s1 \<and> content s1 = r \<and> fin s1 = fin s"
proof -
  from readAddr_start [OF assms(1-3)] obtain b1 s1 where
    "ReadFull_at rd s b 0 1 = ret (None, b1, s1)" "go_index b1 0 = ret t" "take 1 b1 = [t]" "length b1 = length b"
    "good s1" "content s1 = r" "fin s1 = fin s"
    by blast
  with assms(2,4) show ?thesis
    by (intro exI [of _ b1] exI [of _ s1]) (auto simp: readAddr_def atyp_defs)
qed

lemma readAddr_ok:
  assumes "good s" "MaxAddrLen \<le> length b" "SplitAddr (content s) = Some a"
  shows "\<exists>b' s'. readAddr rd s b = ret ((Some a, None), b', s') \<and> length b' = length b \<and> good s' \<and>
    content s = a @ content s' \<and> fin s' = fin s"
proof -
  have lb: "259 \<le> length b" using assms(2) by (simp add: atyp_defs)
  obtain rest where c: "content s = a @ rest"
    using SplitAddr_prefix [OF assms(3)] by (metis append_take_drop_id)
  from SplitAddr_wf [OF assms(3)] show ?thesis
  proof (cases a rule: addr_wf_cases)
    case (domain host hi lo)
    let ?n = "of_nat (length host) :: byte"
    have u: "uint ?n = ilen host" using domain(1) by (simp add: unsigned_of_nat take_bit_eq_mod)
    from readAddr_domain_start [OF assms(1,2), of ?n "(host @ [hi, lo]) @ rest"] c domain(2) obtain b2 s2 where
      r: "readAddr rd s b = gobind (ReadFull_at rd s2 b2 2 (2 + uint ?n + 2)) (\<lambda>(err, b, s).
        gobind (go_index b 1) (\<lambda>n. gobind (go_slice b 0 (1 + 1 + uint n + 2)) (\<lambda>a. ret ((Some a, err), b, s))))"
      and s2: "take 2 b2 = [ATYPDomain, ?n]" "length b2 = length b" "good s2" "content s2 = (host @ [hi, lo]) @ rest" "fin s2 = fin s"
      by (auto simp: domain_addr_def)
    from fill_enough [OF s2(3), of 2 "host @ [hi, lo]" b2 rest 2 "2 + uint ?n + 2"] s2 u lb domain(1) obtain b3 s3 where
      r3: "ReadFull_at rd s2 b2 2 (2 + uint ?n + 2) = ret (None, b3, s3)" "take (length a) b3 = a"
      "length b3 = length b" "good s3" "content s3 = rest" "fin s3 = fin s"
      using domain(2) by (auto simp: domain_addr_def)
    have "go_index b3 1 = ret ?n"
      using nth_from_take [OF r3(2), of 1] domain(2) r3(3) lb by (simp add: domain_addr_def)
    moreover have "1 + 1 + uint ?n + 2 = ilen a" "length a \<le> length b3"
      using u domain r3(3) lb by (simp_all add: domain_addr_def)
    then have "go_slice b3 0 (1 + 1 + uint ?n + 2) = ret a"
      using r3(2) by (simp only:) (simp add: seg_0)
    ultimately show ?thesis using r r3 c by simp
  next
    case (ipv4 ip hi lo)
    from readAddr_fixed [OF assms(1,2), of ATYPIPv4 "(ip @ [hi, lo]) @ rest" 6] c ipv4(2) obtain b1 s1 where
      r: "readAddr rd s b = gobind (ReadFull_at rd s1 b1 1 7) (\<lambda>(err, b, s). gobind (go_slice b 0 7) (\<lambda>a. ret ((Some a, err), b, s)))"
      and s1: "take 1 b1 = [ATYPIPv4]" "length b1 = length b" "good s1" "content s1 = (ip @ [hi, lo]) @ rest" "fin s1 = fin s"
      by (auto simp: ipv4_addr_def)
    from fill_enough [OF s1(3), of 1 "ip @ [hi, lo]" b1 rest 1 7] s1 lb ipv4 obtain b2 s2 where
      "ReadFull_at rd s1 b1 1 7 = ret (None, b2, s2)" "take 7 b2 = a" "length b2 = length b" "good s2" "content s2 = rest" "fin s2 = fin s"
      by (auto simp: ipv4_addr_def)
    with r c lb show ?thesis by (simp add: seg_0)
  next
    case (ipv6 ip hi lo)
    from readAddr_fixed [OF assms(1,2), of ATYPIPv6 "(ip @ [hi, lo]) @ rest" 18] c ipv6(2) obtain b1 s1 where
      r: "readAddr rd s b = gobind (ReadFull_at rd s1 b1 1 19) (\<lambda>(err, b, s). gobind (go_slice b 0 19) (\<lambda>a. ret ((Some a, err), b, s)))"
      and s1: "take 1 b1 = [ATYPIPv6]" "length b1 = length b" "good s1" "content s1 = (ip @ [hi, lo]) @ rest" "fin s1 = fin s"
      by (auto simp: ipv6_addr_def)
    from fill_enough [OF s1(3), of 1 "ip @ [hi, lo]" b1 rest 1 19] s1 lb ipv6 obtain b2 s2 where
      "ReadFull_at rd s1 b1 1 19 = ret (None, b2, s2)" "take 19 b2 = a" "length b2 = length b" "good s2" "content s2 = rest" "fin s2 = fin s"
      by (auto simp: ipv6_addr_def)
    with r c lb show ?thesis by (simp add: seg_0)
  qed
qed

lemma readAddr_fixed_err:
  assumes "good s" "MaxAddrLen \<le> length b" "content s = t # r" "(t, n) \<in> {(ATYPIPv4, 6), (ATYPIPv6, 18)}" "length r < n"
  shows "\<exists>res b' s'. readAddr rd s b = ret ((res, Some (short_read_err (length r) (fin s))), b', s') \<and> good s' \<and> length b' = length b"
proof -
  have n: "n \<le> 18" using assms(4) by auto
  then have lb: "1 + n \<le> length b" using assms(2) by (simp add: atyp_defs)
  from readAddr_fixed [OF assms(1-4)] obtain b1 s1 where
    r: "readAddr rd s b = gobind (ReadFull_at rd s1 b1 1 (1 + int n)) (\<lambda>(err, b, s). gobind (go_slice b 0 (1 + int n)) (\<lambda>a. ret ((Some a, err), b, s)))"
    and s1: "length b1 = length b" "good s1" "content s1 = r" "fin s1 = fin s"
    by blast
  from fill_short [OF s1(2), of 1 n b1 1 "1 + int n"] s1 lb assms(5) obtain b2 s2 where
    "ReadFull_at rd s1 b1 1 (1 + int n) = ret (Some (short_read_err (length r) (fin s)), b2, s2)" "length b2 = length b" "good s2"
    by auto
  with r lb show ?thesis by simp
qed

lemma readAddr_domain_err:
  assumes "good s" "MaxAddrLen \<le> length b" "content s = ATYPDomain # n # r" "length r < unat n + 2"
  shows "\<exists>res b' s'. readAddr rd s b = ret ((res, Some (short_read_err (length r) (fin s))), b', s') \<and> good s' \<and> length b' = length b"
proof -
  have "unat n < 256" using unsigned_less [of n, where ?'a = nat] by simp
  then have lb: "2 + (unat n + 2) \<le> length b" using assms(2) by (simp add: atyp_defs)
  from readAddr_domain_start [OF assms(1-3)] obtain b2 s2 where
    r: "readAddr rd s b = gobind (ReadFull_at rd s2 b2 2 (2 + uint n + 2)) (\<lambda>(err, b, s).
      gobind (go_index b 1) (\<lambda>n. gobind (go_slice b 0 (1 + 1 + uint n + 2)) (\<lambda>a. ret ((Some a, err), b, s))))"
    and s2: "take 2 b2 = [ATYPDomain, n]" "length b2 = length b" "good s2" "content s2 = r" "fin s2 = fin s"
    by blast
  from fill_short [OF s2(3), of 2 "unat n + 2" b2 2 "2 + uint n + 2"] s2 lb assms(4) obtain b3 s3 where
    r3: "ReadFull_at rd s2 b2 2 (2 + uint n + 2) = ret (Some (short_read_err (length r) (fin s)), b3, s3)"
    "take 2 b3 = [ATYPDomain, n]" "length b3 = length b" "good s3"
    by auto
  have "go_index b3 1 = ret n" using nth_from_take [OF r3(2), of 1] r3(3) lb by simp
  moreover have "uint n = int (unat n)" by simp
  then have "2 + uint n + 2 \<le> ilen b3" using lb r3(3) by linarith
  ultimately show ?thesis using r r3 by simp
qed

lemma readAddr_err:
  assumes "good s" "MaxAddrLen \<le> length b" "SplitAddr (content s) = None"
  shows "\<exists>res b' s'. readAddr rd s b = ret ((res, Some (addr_error (fin s) (content s))), b', s') \<and> good s' \<and> length b' = length b"
proof (cases "content s")
  case Nil
  have "259 \<le> length b" using assms(2) by (simp add: atyp_defs)
  with fill_short [OF assms(1), of 0 1 b 0 1] Nil assms(2) show ?thesis
    by (auto simp: readAddr_def addr_error_def short_read_err_def)
next
  case (Cons t r)
  from readAddr_start [OF assms(1,2) Cons] obtain b1 s1 where
    r1: "ReadFull_at rd s b 0 1 = ret (None, b1, s1)" "go_index b1 0 = ret t" "length b1 = length b"
    and s1: "good s1" "content s1 = r" "fin s1 = fin s"
    by blast
  have lb: "259 \<le> length b" using assms(2) by (simp add: atyp_defs)
  consider "t = ATYPIPv4" | "t = ATYPIPv6" | "t = ATYPDomain" "r = []" | n r' where "t = ATYPDomain" "r = n # r'"
    | "t \<notin> {ATYPIPv4, ATYPIPv6, ATYPDomain}"
    by (cases r) auto
  then show ?thesis
  proof cases
    case 1
    with assms(3) Cons have "length r < 6" by (auto simp: SplitAddr_def atyp_defs split: if_splits)
    with readAddr_fixed_err [OF assms(1,2) Cons, of 6] 1 show ?thesis by (simp add: Cons addr_error_def atyp_defs)
  next
    case 2
    with assms(3) Cons have "length r < 18" by (auto simp: SplitAddr_def atyp_defs split: if_splits)
    with readAddr_fixed_err [OF assms(1,2) Cons, of 18] 2 show ?thesis by (simp add: Cons addr_error_def atyp_defs)
  next
    case 3
    from fill_short [OF s1(1), of 1 1 b1 1 2] s1 r1(3) lb 3(2) obtain b2 s2 where
      "ReadFull_at rd s1 b1 1 2 = ret (Some (fin s), b2, s2)" "good s2" "length b2 = length b"
      by (auto simp: short_read_err_def)
    with 3 r1 lb show ?thesis by (simp add: readAddr_def Cons addr_error_def atyp_defs)
  next
    case 4
    with assms(3) Cons have "length r' < unat n + 2" by (auto simp: SplitAddr_def split: if_splits)
    with readAddr_domain_err [OF assms(1,2), of n r'] 4 Cons show ?thesis by (simp add: addr_error_def)
  next
    case 5
    with r1 s1 lb show ?thesis by (simp add: readAddr_def Cons addr_error_def atyp_defs)
  qed
qed

lemma ReadAddr_ok:
  assumes "good s" "SplitAddr (content s) = Some a"
  shows "\<exists>s'. ReadAddr rd s = ret ((Some a, None), s') \<and> good s' \<and> content s = a @ content s' \<and> fin s' = fin s"
  using readAddr_ok [OF assms(1) _ assms(2), of "replicate MaxAddrLen 0"] by (auto simp: ReadAddr_def)

lemma ReadAddr_err:
  assumes "good s" "SplitAddr (content s) = None"
  shows "\<exists>res s'. ReadAddr rd s = ret ((res, Some (addr_error (fin s) (content s))), s') \<and> good s'"
  using readAddr_err [OF assms(1) _ assms(2), of "replicate MaxAddrLen 0"] by (auto simp: ReadAddr_def)

end

subsection \<open>Properties\<close>

definition sample_source :: "bytes list \<Rightarrow> conn" where
  "sample_source segs = \<lparr>c_in = segs, c_fin = EOF, c_out = [], c_room = None, c_werr = EOF\<rparr>"

text \<open>
  C15: \<^verbatim>\<open>ReadAddr\<close> and \<^verbatim>\<open>SplitAddr\<close> agree: on a TCP stream, however it is segmented, \<^verbatim>\<open>ReadAddr\<close> returns exactly the
  address that \<^verbatim>\<open>SplitAddr\<close> cuts off the stream's bytes and consumes nothing behind it; when there is
  no address it returns an error, whose value is given by the bytes that are there.
\<close>

theorem ReadAddr_SplitAddr:
  "case SplitAddr (conn_content s) of
     Some a \<Rightarrow> \<exists>s'. ReadAddr conn_Read s = ret ((Some a, None), s') \<and> conn_content s = a @ conn_content s'
   | None \<Rightarrow> \<exists>res s'. ReadAddr conn_Read s = ret ((res, Some (addr_error (c_fin s) (conn_content s))), s')"
  using tcp.ReadAddr_ok [where s = s] tcp.ReadAddr_err [where s = s] by (fastforce split: option.split)


lemma sample_addr_wf: "addr_wf [1, 127, 0, 0, 1, 0, 80]"
  by (simp add: addr_wf_def SplitAddr_def atyp_defs)


text \<open>
  C16: Printing and parsing: for every complete address, \<^verbatim>\<open>String\<close> does not panic, and \<^verbatim>\<open>ParseAddr\<close> of the text
  gives the address back, except that an IPv4 address inside IPv6 comes back as IPv4.  The host of a
  domain address must not look like an IP address or contain brackets.
\<close>

theorem ParseAddr_String:
  assumes "addr_wf a" "host_plain a"
  shows "\<exists>s. Addr_String a = ret s \<and> ParseAddr s = Some (addr_canon a)"
  using assms by (rule parse_text)

theorem ParseAddr_String_witness:
  "\<exists>s. Addr_String ([4] @ [0x20, 0x01, 0x0d, 0xb8] @ replicate 11 0 @ [1] @ [1, 187]) = ret s \<and>
     ParseAddr s = Some ([4] @ [0x20, 0x01, 0x0d, 0xb8] @ replicate 11 0 @ [1] @ [1, 187])"
proof -
  let ?a = "[4] @ [0x20, 0x01, 0x0d, 0xb8] @ replicate 11 0 @ [1] @ [1, 187] :: bytes"
  have "addr_wf ?a" by (simp add: addr_wf_def SplitAddr_def atyp_defs)
  moreover have "replicate 10 (0 :: byte) = 0 # replicate 9 0" by (simp add: numeral_eq_Suc)
  then have "host_plain ?a" "addr_canon ?a = ?a"
    by (simp_all add: host_plain_def addr_canon_def To4_def v4InV6Prefix_def atyp_defs)
  ultimately show ?thesis using ParseAddr_String [of ?a] by simp
qed

text \<open>
  C34: \<^verbatim>\<open>ParseAddr\<close> returns nil or a complete address; and the text of every IP address of 16 bytes is read back
  by \<^verbatim>\<open>net.ParseIP\<close> as that address, with zero compression and embedded IPv4 included.
\<close>

theorem ParseAddr_wf:
  "(ParseAddr s = Some a \<longrightarrow> addr_wf a) \<and> (length ip = 16 \<longrightarrow> ParseIP (IP_String ip) = Some ip)"
  using ParseAddr_complete ParseIP_String by blast

theorem ParseAddr_wf_witness:
  "ParseAddr ''a:80'' = Some [3, 1, 97, 0, 80] \<and> addr_wf [3, 1, 97, 0, 80]"
proof -
  have "SplitHostPort ''a:80'' = Some (''a'', ''80'')" "ParseUint16 ''80'' = Some 80" "ParseIP ''a'' = None"
    by (simp_all add: SplitHostPort_def ParseUint16_def is_digit_def digit_val_def ParseIP_def)
  then have p: "ParseAddr ''a:80'' = Some [3, 1, 97, 0, 80]"
    using ParseAddr_eq(3) [of "''a:80''" "''a''" "''80''" 80] by (simp add: domain_addr_def str_bytes_def atyp_defs)
  with ParseAddr_wf [of "''a:80''" "[3, 1, 97, 0, 80]" "[]"] show ?thesis by blast
qed

end
