(* ===== verification/Socks_Handshake.thy ===== *)
theory Socks_Handshake
  imports Socks_Addr
begin

text \<open>
  \<^verbatim>\<open>HandShake\<close> of \<^verbatim>\<open>m_socks/socks5.go\<close>: the SOCKS5 negotiation with a client on a connection that is both
  a reader and a writer.  The locale \<open>duplex\<close> is what it relies on: the two directions of the connection
  do not disturb each other.
\<close>

definition CmdConnect :: byte where "CmdConnect = 1"
definition CmdUDP :: byte where "CmdUDP = 3"

text \<open>
  \<open>udp\<close> is the variable \<^verbatim>\<open>UDPEnabled\<close> and \<open>local\<close> the text of the connection's local address.  The result is the
  address and the error the code returns, and the connection.
\<close>

definition HandShake :: "'c reader_fn \<Rightarrow> 'c writer_fn \<Rightarrow> bool \<Rightarrow> string \<Rightarrow> 'c \<Rightarrow> ((bytes option \<times> goerr option) \<times> 'c) go" where
  "HandShake rd wr udp local rw =
     gobind (ReadFull_at rd rw (replicate MaxAddrLen 0) 0 2) (\<lambda>(err, buf, rw).
     case err of Some e \<Rightarrow> ret ((None, Some e), rw) | None \<Rightarrow>
     gobind (go_index buf 1) (\<lambda>nmethods.
     gobind (ReadFull_at rd rw buf 0 (uint nmethods)) (\<lambda>(err, buf, rw).
     case err of Some e \<Rightarrow> ret ((None, Some e), rw) | None \<Rightarrow>
     gobind (wr rw [5, 0]) (\<lambda>(_, err, rw).
     case err of Some e \<Rightarrow> ret ((None, Some e), rw) | None \<Rightarrow>
     gobind (ReadFull_at rd rw buf 0 3) (\<lambda>(err, buf, rw).
     case err of Some e \<Rightarrow> ret ((None, Some e), rw) | None \<Rightarrow>
     gobind (go_index buf 1) (\<lambda>cmd.
     gobind (readAddr rd rw buf) (\<lambda>((addr, err), buf, rw).
     case err of Some e \<Rightarrow> ret ((None, Some e), rw) | None \<Rightarrow>
     if cmd = CmdConnect then
       gobind (wr rw [5, 0, 0, 1, 0, 0, 0, 0, 0, 0]) (\<lambda>(_, err, rw). ret ((addr, err), rw))
     else if cmd = CmdUDP then
       (if \<not> udp then ret ((None, Some ErrCommandNotSupported), rw)
        else
          gobind (wr rw ([5, 0, 0] @ (case ParseAddr local of Some a \<Rightarrow> a | None \<Rightarrow> []))) (\<lambda>(_, err, rw).
          case err of
            Some e \<Rightarrow> ret ((None, Some ErrCommandNotSupported), rw)
          | None \<Rightarrow> ret ((addr, Some InfoUDPAssociate), rw)))
     else ret ((None, Some ErrCommandNotSupported), rw))))))))"

subsection \<open>Two independent directions\<close>

locale duplex = stream_reader rd content fin good left + byte_sink wr sent usable
  for rd :: "'c reader_fn" and content fin good left and wr :: "'c writer_fn" and sent usable +
  assumes read_keeps: "rd c p = ret (n, p', e, c') \<Longrightarrow> sent c' = sent c \<and> (usable c \<longrightarrow> usable c')"
    and write_keeps: "good c \<Longrightarrow> wr c b = ret (n, e, c') \<Longrightarrow> good c' \<and> content c' = content c \<and> fin c' = fin c"
begin

lemma ReadFull_keeps:
  assumes "ReadFull rd c p = ret (n, p', e, c')"
  shows "sent c' = sent c \<and> (usable c \<longrightarrow> usable c')"
  using ReadFull_inv [of "\<lambda>d. sent d = sent c \<and> (usable c \<longrightarrow> usable d)", OF _ assms] read_keeps by metis

lemma fill_keeps: "ReadFull_at rd c b lo hi = ret (e, b', c') \<Longrightarrow> sent c' = sent c \<and> (usable c \<longrightarrow> usable c')"
  by (auto simp: ReadFull_at_def gobind_eq_ret dest!: ReadFull_keeps)

lemma go_post_fill:
  assumes "I c" "\<And>d. sent d = sent c \<Longrightarrow> (usable c \<longrightarrow> usable d) \<Longrightarrow> I c \<Longrightarrow> I d"
    and "\<And>err b d. I d \<Longrightarrow> go_post P (f (err, b, d))"
  shows "go_post P (gobind (ReadFull_at rd c b lo hi) f)"
  unfolding go_post_def gobind_eq_ret
proof (intro allI impI, elim exE conjE)
  fix y x assume x: "ReadFull_at rd c b lo hi = ret x" and y: "f x = ret y"
  obtain e b' d where [simp]: "x = (e, b', d)" by (cases x)
  from fill_keeps [of c b lo hi e b' d] x have "I d" using assms(1,2) by auto
  with assms(3) y show "P y" by (auto simp: go_post_def)
qed

lemma readAddr_keeps:
  assumes "readAddr rd c b = ret (res, b', c')"
  shows "sent c' = sent c \<and> (usable c \<longrightarrow> usable c')"
proof -
  let ?I = "\<lambda>d. sent d = sent c \<and> (usable c \<longrightarrow> usable d)"
  have fill: "go_post P (gobind (ReadFull_at rd d b lo hi) f)"
    if "?I d" "\<And>err b d. ?I d \<Longrightarrow> go_post P (f (err, b, d))" for d b lo hi f and P :: "(bytes option \<times> goerr option) \<times> bytes \<times> 'c \<Rightarrow> bool"
    by (rule go_post_fill [of ?I, OF that(1)]) (use that in auto)
  have "go_post (\<lambda>(res, b, d). ?I d) (readAddr rd c b)"
    unfolding readAddr_def
    by (auto intro!: fill go_post_bind [of _ _ "go_index _ _"] go_post_bind [of _ _ "go_slice _ _ _"] go_post_ret split: option.split)
  with assms show ?thesis by (auto simp: go_post_def)
qed

text \<open>A request for the command \<open>cmd\<close> and the address \<open>a\<close>.  The version bytes and the reserved byte are free.\<close>

lemma HandShake_request:
  assumes "good c" "usable c" "\<And>d b. usable d \<Longrightarrow> \<exists>d'. wr d b = ret (ilen b, None, d')"
    and "content c = [v, n] @ methods @ [v', cmd, rsv] @ a @ rest" "length methods = unat n" "addr_wf a"
  shows "\<exists>c'. good c' \<and> usable c' \<and> content c' = rest \<and> fin c' = fin c \<and>
    HandShake rd wr udp local c =
      (if cmd = CmdConnect then
         ret ((Some a, None), c') else if cmd = CmdUDP \<and> udp then ret ((Some a, Some InfoUDPAssociate), c')
       else ret ((None, Some ErrCommandNotSupported), c')) \<and>
    sent c' = sent c @ [5, 0] @
      (if cmd = CmdConnect then [5, 0, 0, 1, 0, 0, 0, 0, 0, 0]
       else if cmd = CmdUDP \<and> udp then [5, 0, 0] @ (case ParseAddr local of Some l \<Rightarrow> l | None \<Rightarrow> [])
       else [])"
proof -
  let ?b = "replicate MaxAddrLen 0"
  have lb: "length ?b = 259" by (simp add: MaxAddrLen_def)
  have n: "unat n < 256" using unsigned_less [of n, where ?'a = nat] by simp
  have put: "\<exists>d'. wr d b = ret (ilen b, None, d') \<and> good d' \<and> usable d' \<and> content d' = content d \<and> fin d' = fin d \<and> sent d' = sent d @ b"
    if "good d" "usable d" for d b
    using assms(3) [OF that(2), of b] write_keeps [OF that(1)] write_without_error [OF that(2)] by metis
  from fill_enough [OF assms(1), of 0 "[v, n]" ?b "methods @ [v', cmd, rsv] @ a @ rest" 0 2] assms(4) lb obtain b1 c1 where
    r1: "ReadFull_at rd c ?b 0 2 = ret (None, b1, c1)" "take 2 b1 = [v, n]" "length b1 = 259"
    and c1: "good c1" "content c1 = methods @ [v', cmd, rsv] @ a @ rest" "fin c1 = fin c"
    by (auto simp: numeral_2_eq_2)
  have i1: "go_index b1 1 = ret n" using nth_from_take [OF r1(2), of 1] r1(3) by simp
  from fill_enough [OF c1(1), of 0 methods b1 "[v', cmd, rsv] @ a @ rest" 0 "uint n"] assms(5) c1 r1(3) n obtain b2 c2 where
    r2: "ReadFull_at rd c1 b1 0 (uint n) = ret (None, b2, c2)" "length b2 = 259"
    and c2: "good c2" "content c2 = [v', cmd, rsv] @ a @ rest" "fin c2 = fin c"
    by auto
  have s2: "sent c2 = sent c" "usable c2" using fill_keeps [OF r1(1)] fill_keeps [OF r2(1)] assms(2) by auto
  from put [OF c2(1) s2(2), of "[5, 0]"] c2 s2 obtain c3 where
    r3: "wr c2 [5, 0] = ret (2, None, c3)"
    and c3: "good c3" "usable c3" "content c3 = [v', cmd, rsv] @ a @ rest" "sent c3 = sent c @ [5, 0]" "fin c3 = fin c"
    by auto
  from fill_enough [OF c3(1), of 0 "[v', cmd, rsv]" b2 "a @ rest" 0 3] c3(3,5) r2(2) obtain b4 c4 where
    r4: "ReadFull_at rd c3 b2 0 3 = ret (None, b4, c4)" "take 3 b4 = [v', cmd, rsv]" "length b4 = 259"
    and c4: "good c4" "content c4 = a @ rest" "fin c4 = fin c"
    by (auto simp: numeral_3_eq_3)
  have i4: "go_index b4 1 = ret cmd" using nth_from_take [OF r4(2), of 1] r4(3) by simp
  from readAddr_ok [OF c4(1), of b4 a] c4(2,3) r4(3) addr_wf_append [OF assms(6)] obtain b5 c5 where
    r5: "readAddr rd c4 b4 = ret ((Some a, None), b5, c5)" and c5: "good c5" "content c5 = rest" "fin c5 = fin c"
    by (auto simp: MaxAddrLen_def)
  have s5: "sent c5 = sent c @ [5, 0]" "usable c5"
    using fill_keeps [OF r4(1)] readAddr_keeps [OF r5] c3 by auto
  note start = r1(1) i1 r2(1) r3 r4(1) i4 r5
  show ?thesis
  proof (cases "cmd = CmdConnect \<or> cmd = CmdUDP \<and> udp")
    case False
    with start s5 c5 show ?thesis by (intro exI [of _ c5]) (auto simp: HandShake_def)
  next
    case True
    let ?reply = "if cmd = CmdConnect then [5, 0, 0, 1, 0, 0, 0, 0, 0, 0]
       else [5, 0, 0] @ (case ParseAddr local of Some l \<Rightarrow> l | None \<Rightarrow> [])"
    from put [OF c5(1) s5(2), of ?reply] c5 s5 obtain c6 where
      "wr c5 ?reply = ret (ilen ?reply, None, c6)" "good c6" "usable c6" "content c6 = rest" "fin c6 = fin c" "sent c6 = sent c @ [5, 0] @ ?reply"
      by auto
    with start True show ?thesis
      by (intro exI [of _ c6]) (auto simp: HandShake_def split: if_splits)
  qed
qed

text \<open>Conversely, an accepted request was one: the bytes consumed are a negotiation and a CONNECT request.\<close>

lemma fill_None:
  assumes "good c" "n \<le> length b" "hi = int n" "ReadFull_at rd c b 0 hi = ret (None, b', c')"
  shows "length (take n b') = n \<and> content c = take n b' @ content c' \<and> length b' = length b \<and> good c'"
proof (cases "n \<le> length (content c)")
  case True
  with fill_enough [OF assms(1), of 0 "take n (content c)" b "drop n (content c)" 0 hi] assms(2-4) show ?thesis
    by (auto simp: min_absorb2)
next
  case False
  with fill_short [OF assms(1), of 0 n b 0 hi] assms(2-4) show ?thesis by auto
qed

lemma readAddr_None:
  assumes "good c" "MaxAddrLen \<le> length b" "readAddr rd c b = ret ((addr, None), b', c')"
  shows "\<exists>a. addr = Some a \<and> addr_wf a \<and> content c = a @ content c' \<and> good c'"
proof (cases "SplitAddr (content c)")
  case None
  with readAddr_err [OF assms(1,2)] assms(3) show ?thesis by auto
next
  case (Some a)
  with readAddr_ok [OF assms(1,2) Some] assms(3) SplitAddr_wf [OF Some] show ?thesis by auto
qed

lemma HandShake_accepts:
  assumes "good c" "HandShake rd wr udp local c = ret ((Some a, None), c')"
  shows "\<exists>v n methods v' rsv. content c = [v, n] @ methods @ [v', CmdConnect, rsv] @ a @ content c' \<and>
    length methods = unat n \<and> addr_wf a \<and> good c'"
proof -
  let ?b = "replicate MaxAddrLen 0"
  from assms(2) obtain b1 c1 n b2 c2 c3 m b4 c4 cmd b5 c5 k where
    r1: "ReadFull_at rd c ?b 0 2 = ret (None, b1, c1)" and i1: "go_index b1 1 = ret n"
    and r2: "ReadFull_at rd c1 b1 0 (uint n) = ret (None, b2, c2)" and r3: "wr c2 [5, 0] = ret (m, None, c3)"
    and r4: "ReadFull_at rd c3 b2 0 3 = ret (None, b4, c4)" and i4: "go_index b4 1 = ret cmd"
    and r5: "readAddr rd c4 b4 = ret ((Some a, None), b5, c5)" and cmd: "cmd = CmdConnect"
    and r6: "wr c5 [5, 0, 0, 1, 0, 0, 0, 0, 0, 0] = ret (k, None, c')"
    unfolding HandShake_def
    by (auto simp: gobind_eq_ret split: option.splits if_splits)
  have u: "uint n = int (unat n)" and "unat n < 256" using unsigned_less [of n, where ?'a = nat] by simp_all
  from fill_None [OF assms(1), of 2 ?b 2 b1 c1] r1 have
    c1: "content c = take 2 b1 @ content c1" "length b1 = 259" "good c1" by (auto simp: MaxAddrLen_def)
  from fill_None [OF c1(3) _ u r2] c1(2) \<open>unat n < 256\<close> have
    c2: "content c1 = take (unat n) b2 @ content c2" "length b2 = 259" "good c2" by auto
  from write_keeps [OF c2(3) r3] have c3: "good c3" "content c3 = content c2" by auto
  from fill_None [OF c3(1), of 3 b2 3 b4 c4] r4 c2(2) have
    c4: "content c3 = take 3 b4 @ content c4" "length b4 = 259" "good c4" by auto
  from readAddr_None [OF c4(3) _ r5] c4(2) have c5: "addr_wf a" "content c4 = a @ content c5" "good c5"
    by (auto simp: MaxAddrLen_def)
  from write_keeps [OF c5(3) r6] have c6: "good c'" "content c' = content c5" by auto
  obtain v where h1: "take 2 b1 = [v, n]"
    using i1 c1(2) by (cases b1; cases "tl b1") (auto simp: numeral_2_eq_2)
  obtain v' rsv where h4: "take 3 b4 = [v', cmd, rsv]"
    using i4 c4(2) by (cases b4; cases "tl b4"; cases "tl (tl b4)") (auto simp: numeral_3_eq_3)
  have "content c = [v, n] @ take (unat n) b2 @ [v', CmdConnect, rsv] @ a @ content c'"
    using c1(1) c2(1) c3(2) c4(1) c5(2) c6(2) h1 h4 cmd by simp
  moreover have "length (take (unat n) b2) = unat n" using c2(2) \<open>unat n < 256\<close> by simp
  ultimately show ?thesis using c5(1) c6(1) by blast
qed

end

interpretation tcp_duplex: duplex conn_Read conn_content c_fin "\<lambda>_. True" conn_left conn_Write c_out "\<lambda>_. True"
proof
  fix c p n p' e c'
  assume "conn_Read c p = ret (n, p', e, c')"
  then show "c_out c' = c_out c \<and> (True \<longrightarrow> True)"
    by (auto simp: conn_Read_def Let_def split: if_splits list.splits)
next
  fix c b n e c'
  assume "conn_Write c b = ret (n, e, c')"
  then show "True \<and> conn_content c' = conn_content c \<and> c_fin c' = c_fin c"
    by (auto simp: conn_Write_def conn_content_def split: option.splits if_splits)
qed

interpretation live_duplex: duplex conn_Read conn_content c_fin "\<lambda>_. True" conn_left conn_Write c_out "\<lambda>c. c_room c = None"
proof (unfold_locales, goal_cases)
  case (1 c b)
  then show ?case by (auto simp: conn_Write_def write_step_def)
next
  case (2 c p n p' e c')
  then show ?case by (auto simp: conn_Read_def Let_def split: if_splits list.splits)
next
  case (3 c b n e c')
  then show ?case using tcp_duplex.write_keeps by blast
qed

subsection \<open>Properties\<close>

text \<open>
  C17: A complete request on a working connection: after the method list, the request line and an
  address \<open>a\<close>, the server has sent the method reply and, for CONNECT, the success reply; it returns \<open>a\<close> and leaves
  the client's further bytes unread.  UDP ASSOCIATE is answered with the local address when it is
  enabled, and every other command is refused after the method reply.
\<close>

theorem HandShake_complete:
  assumes "c_room c = None" "conn_content c = [v, n] @ methods @ [v', cmd, rsv] @ a @ rest"
    and "length methods = unat n" "addr_wf a"
  shows "\<exists>c'. conn_content c' = rest \<and>
    HandShake conn_Read conn_Write udp local c =
      (if cmd = CmdConnect then ret ((Some a, None), c')
       else if cmd = CmdUDP \<and> udp then ret ((Some a, Some InfoUDPAssociate), c')
       else ret ((None, Some ErrCommandNotSupported), c')) \<and>
    c_out c' = c_out c @ [5, 0] @
      (if cmd = CmdConnect then [5, 0, 0, 1, 0, 0, 0, 0, 0, 0]
       else if cmd = CmdUDP \<and> udp then [5, 0, 0] @ (case ParseAddr local of Some l \<Rightarrow> l | None \<Rightarrow> [])
       else [])"
proof -
  have "\<exists>d'. conn_Write d b = ret (ilen b, None, d')" if "c_room d = None" for d b
    using that by (simp add: conn_Write_def)
  from live_duplex.HandShake_request [where c = c and udp = udp and local = local, OF TrueI assms(1) this assms(2-4)]
  show ?thesis by blast
qed

theorem HandShake_complete_witness:
  "\<exists>c'. HandShake conn_Read conn_Write False '''' (sample_source [[5, 1], [0, 5, 1, 0, 1, 127, 0], [0, 1, 0, 80, 71]]) =
      ret ((Some [1, 127, 0, 0, 1, 0, 80], None), c') \<and> conn_content c' = [71] \<and>
    c_out c' = [5, 0, 5, 0, 0, 1, 0, 0, 0, 0, 0, 0]"
  using HandShake_complete [of "sample_source [[5, 1], [0, 5, 1, 0, 1, 127, 0], [0, 1, 0, 80, 71]]" 5 1 "[0]" 5 1 0
      "[1, 127, 0, 0, 1, 0, 80]" "[71]" False "''''"] sample_addr_wf
  by (auto simp: sample_source_def conn_content_def CmdConnect_def)

text \<open>
  C18: Nothing else is accepted: whenever \<^verbatim>\<open>HandShake\<close> returns an address without an error, on any connection, the
  bytes it consumed were a method list and a CONNECT request for that complete address.  (Neither
  version byte and no method is looked at.)
\<close>

theorem HandShake_accepts_only_connect:
  assumes "HandShake conn_Read conn_Write udp local c = ret ((Some a, None), c')"
  shows "\<exists>v n methods v' rsv. conn_content c = [v, n] @ methods @ [v', CmdConnect, rsv] @ a @ conn_content c' \<and>
    length methods = unat n \<and> addr_wf a"
  using tcp_duplex.HandShake_accepts [OF TrueI assms] by blast

theorem HandShake_accepts_only_connect_witness:
  "\<exists>c'. HandShake conn_Read conn_Write False '''' (sample_source [[9, 0, 9, 1, 0], [1, 127, 0, 0, 1, 0, 80]]) =
      ret ((Some [1, 127, 0, 0, 1, 0, 80], None), c') \<and>
    (\<exists>v n methods v' rsv. [9, 0, 9, 1, 0, 1, 127, 0, 0, 1, 0, 80] =
      [v, n] @ methods @ [v', CmdConnect, rsv] @ [1, 127, 0, 0, 1, 0, 80] @ conn_content c' \<and> length methods = unat n)"
proof -
  let ?c = "sample_source [[9, 0, 9, 1, 0], [1, 127, 0, 0, 1, 0, 80]]"
  have "\<exists>d'. conn_Write d b = ret (ilen b, None, d')" if "c_room d = None" for d b
    using that by (simp add: conn_Write_def)
  from live_duplex.HandShake_request [where c = ?c and udp = False and local = "''''" and v = 9 and n = 0 and methods = "[]"
      and v' = 9 and cmd = 1 and rsv = 0 and a = "[1, 127, 0, 0, 1, 0, 80]" and rest = "[]", OF TrueI _ this _ _ sample_addr_wf]
  obtain c' where "HandShake conn_Read conn_Write False '''' ?c = ret ((Some [1, 127, 0, 0, 1, 0, 80], None), c')"
    by (auto simp: sample_source_def conn_content_def CmdConnect_def)
  with HandShake_accepts_only_connect [OF this] show ?thesis
    by (simp add: sample_source_def conn_content_def)
qed

end
