(* ===== verification/Go_Utf8.thy ===== *)
theory Go_Utf8
  imports Go_Prelude
begin

text \<open>
  The functions of Go's \<^verbatim>\<open>unicode/utf8\<close> that \<^verbatim>\<open>m_bufio\<close> calls: \<^verbatim>\<open>EncodeRune\<close>, \<^verbatim>\<open>DecodeRune\<close> and \<^verbatim>\<open>FullRune\<close>.
  A rune is an \<^verbatim>\<open>int32\<close>, kept as an integer of that range.  \<^verbatim>\<open>DecodeRune\<close> inverts \<^verbatim>\<open>EncodeRune\<close> on the valid
  runes, and the prefixes of an encoding are the sequences that are not yet full.
\<close>

type_synonym rune = int

definition RuneError :: rune where "RuneError = 0xFFFD"
definition UTFMax :: int where "UTFMax = 4"
definition RuneSelf :: int where "RuneSelf = 0x80"

definition valid_rune :: "rune \<Rightarrow> bool" where
  "valid_rune r \<longleftrightarrow> 0 \<le> r \<and> r \<le> 0x10FFFF \<and> \<not> (0xD800 \<le> r \<and> r \<le> 0xDFFF)"

text \<open>A continuation byte carries six bits.\<close>

definition tail_byte :: "int \<Rightarrow> byte" where
  "tail_byte x = 0x80 OR word_of_int (take_bit 6 x)"

definition encode3 :: "rune \<Rightarrow> bytes" where
  "encode3 r = [0xE0 OR word_of_int (drop_bit 12 r), tail_byte (drop_bit 6 r), tail_byte r]"

definition EncodeRune :: "rune \<Rightarrow> bytes" where
  "EncodeRune r =
     (if 0 \<le> r \<and> r \<le> 0x7F then [word_of_int r]
      else if 0 \<le> r \<and> r \<le> 0x7FF then [0xC0 OR word_of_int (drop_bit 6 r), tail_byte r]
      else if \<not> valid_rune r then encode3 RuneError
      else if r \<le> 0xFFFF then encode3 r
      else [0xF0 OR word_of_int (drop_bit 18 r), tail_byte (drop_bit 12 r), tail_byte (drop_bit 6 r), tail_byte r])"

text \<open>
  The table over the first byte: the length of the sequence, and the range of its second byte; \<open>None\<close> for a
  byte that starts none.
\<close>

definition first_byte :: "byte \<Rightarrow> (nat \<times> byte \<times> byte) option" where
  "first_byte b =
     (if b < 0x80 then Some (1, 0x80, 0xBF)
      else if b < 0xC2 then None
      else if b < 0xE0 then Some (2, 0x80, 0xBF)
      else if b = 0xE0 then Some (3, 0xA0, 0xBF)
      else if b = 0xED then Some (3, 0x80, 0x9F)
      else if b < 0xF0 then Some (3, 0x80, 0xBF)
      else if b = 0xF0 then Some (4, 0x90, 0xBF)
      else if b < 0xF4 then Some (4, 0x80, 0xBF)
      else if b = 0xF4 then Some (4, 0x80, 0x8F)
      else None)"

definition is_tail :: "byte \<Rightarrow> bool" where
  "is_tail b \<longleftrightarrow> 0x80 \<le> b \<and> b \<le> 0xBF"

text \<open>The bits a sequence carries: those of the first byte, and six of every byte behind it.\<close>

definition rune_bits :: "int \<Rightarrow> bytes \<Rightarrow> rune" where
  "rune_bits = foldl (\<lambda>acc b. push_bit 6 acc OR uint (b AND 0x3F))"

definition DecodeRune :: "bytes \<Rightarrow> rune \<times> nat" where
  "DecodeRune p =
     (case p of
        [] \<Rightarrow> (RuneError, 0)
      | b0 # rest \<Rightarrow>
          (case first_byte b0 of
             None \<Rightarrow> (RuneError, 1)
           | Some (sz, lo, hi) \<Rightarrow>
               if sz = 1 then (uint b0, 1)
               else if length p < sz then (RuneError, 1)
               else if rest ! 0 < lo \<or> hi < rest ! 0 then (RuneError, 1)
               else if sz = 2 then (rune_bits (uint (b0 AND 0x1F)) (take 1 rest), 2)
               else if \<not> is_tail (rest ! 1) then (RuneError, 1)
               else if sz = 3 then (rune_bits (uint (b0 AND 0x0F)) (take 2 rest), 3)
               else if \<not> is_tail (rest ! 2) then (RuneError, 1)
               else (rune_bits (uint (b0 AND 0x07)) (take 3 rest), 4)))"

definition FullRune :: "bytes \<Rightarrow> bool" where
  "FullRune p =
     (case p of
        [] \<Rightarrow> False
      | b0 # rest \<Rightarrow>
          (case first_byte b0 of
             None \<Rightarrow> True
           | Some (sz, lo, hi) \<Rightarrow>
               sz \<le> length p \<or> (1 < length p \<and> (rest ! 0 < lo \<or> hi < rest ! 0)) \<or> (2 < length p \<and> \<not> is_tail (rest ! 1))))"

lemma length_EncodeRune: "1 \<le> length (EncodeRune r)" "length (EncodeRune r) \<le> 4"
  by (auto simp: EncodeRune_def encode3_def)

lemma DecodeRune_size: "snd (DecodeRune p) \<le> length p" "p \<noteq> [] \<Longrightarrow> 0 < snd (DecodeRune p)" "snd (DecodeRune p) \<le> 4"
  by (auto simp: DecodeRune_def first_byte_def Suc_le_eq split: list.split option.split)

subsection \<open>Decoding what was encoded\<close>

lemma or_low: "push_bit n h OR x = h * 2 ^ n + x" if "0 \<le> x" "x < 2 ^ n" for h x :: int
proof -
  have "take_bit n x = x" using that by (simp add: take_bit_int_eq_self)
  moreover have "push_bit n h + take_bit n x = push_bit n h OR take_bit n x"
    by (rule disjunctive_add_eq_or) (simp add: bit_eq_iff bit_simps)
  ultimately show ?thesis by (simp add: push_bit_eq_mult)
qed

lemma uint_low: "0 \<le> x \<Longrightarrow> x < 256 \<Longrightarrow> uint (word_of_int x :: byte) = x"
  by (simp add: uint_word_of_int)

text \<open>The tag bits of a byte and the bits it carries.\<close>

lemma tagged:
  fixes x :: int
  shows "0 \<le> x \<Longrightarrow> x < 64 \<Longrightarrow> uint (0x80 OR word_of_int x :: byte) = 0x80 + x"
    "0 \<le> x \<Longrightarrow> x < 32 \<Longrightarrow> uint (0xC0 OR word_of_int x :: byte) = 0xC0 + x"
    "0 \<le> x \<Longrightarrow> x < 16 \<Longrightarrow> uint (0xE0 OR word_of_int x :: byte) = 0xE0 + x"
    "0 \<le> x \<Longrightarrow> x < 8 \<Longrightarrow> uint (0xF0 OR word_of_int x :: byte) = 0xF0 + x"
  using or_low [of x 6 2] or_low [of x 5 6] or_low [of x 4 14] or_low [of x 3 30]
  by (simp_all add: unsigned_or_eq uint_low)

lemma carried:
  fixes b :: byte
  shows "uint (b AND 0x3F) = uint b mod 64" "uint (b AND 0x1F) = uint b mod 32" "uint (b AND 0x0F) = uint b mod 16" "uint (b AND 0x07) = uint b mod 8"
proof -
  have "uint (b AND mask n) = take_bit n (uint b)" for n
    by (simp add: unsigned_take_bit_eq flip: take_bit_eq_mask)
  then have "uint (b AND mask n) = uint b mod 2 ^ n" for n by (simp add: take_bit_eq_mod)
  from this [of 6] this [of 5] this [of 4] this [of 3]
  show "uint (b AND 0x3F) = uint b mod 64" "uint (b AND 0x1F) = uint b mod 32" "uint (b AND 0x0F) = uint b mod 16" "uint (b AND 0x07) = uint b mod 8"
    by (simp_all add: mask_eq_exp_minus_1)
qed

lemma mod_low: "(h * m + x) mod m = x" if "0 \<le> x" "x < m" for h m x :: int
  using that by simp

lemma split64: "64 * (x div 64) + x mod 64 = x" "0 \<le> x mod 64" "x mod 64 < 64" for x :: int
  by simp_all

lemma div64: "r div 4096 = r div 64 div 64" "r div 262144 = r div 64 div 64 div 64" for r :: int
  by (simp_all flip: zdiv_zmult2_eq)

lemma tail_byte_uint: "uint (tail_byte x) = 0x80 + x mod 64"
  by (simp add: tail_byte_def tagged take_bit_eq_mod)

lemma word_cmp: "b < c \<longleftrightarrow> uint b < uint c" "b \<le> c \<longleftrightarrow> uint b \<le> uint c" "b = c \<longleftrightarrow> uint b = uint c" for b c :: byte
  by (simp_all add: word_less_alt word_le_def word_uint_eq_iff)

lemma rune_bits_step: "rune_bits acc [] = acc" "rune_bits acc (tail_byte x # bs) = rune_bits (acc * 64 + x mod 64) bs"
proof -
  have "(128 + x mod 64) mod 64 = x mod 64" using mod_low [of "x mod 64" 64 2] by simp
  then show "rune_bits acc (tail_byte x # bs) = rune_bits (acc * 64 + x mod 64) bs"
    using or_low [of "x mod 64" 6 acc] by (simp add: rune_bits_def carried tail_byte_uint)
qed (simp add: rune_bits_def)

lemmas utf8_arith = word_cmp tail_byte_uint tagged carried drop_bit_eq_div

lemma tail_ok [simp]: "is_tail (tail_byte x)"
  by (simp add: is_tail_def utf8_arith)

lemma decode1: "0 \<le> r \<Longrightarrow> r \<le> 0x7F \<Longrightarrow> DecodeRune (word_of_int r # rest) = (r, 1)"
  by (simp add: DecodeRune_def first_byte_def word_cmp uint_low)

lemma decode2:
  assumes "0x80 \<le> r" "r \<le> 0x7FF"
  shows "DecodeRune ([0xC0 OR word_of_int (drop_bit 6 r), tail_byte r] @ rest) = (r, 2)"
proof -
  let ?b = "0xC0 OR word_of_int (drop_bit 6 r) :: byte"
  have b: "uint ?b = 0xC0 + r div 64" using assms by (simp add: utf8_arith)
  have h: "2 \<le> r div 64" "r div 64 < 32" using assms by simp_all
  then have "first_byte ?b = Some (2, 0x80, 0xBF)" unfolding first_byte_def word_cmp b by simp
  moreover have "uint (?b AND 0x1F) = r div 64" using h mod_low [of "r div 64" 32 6] unfolding carried b by simp
  ultimately show ?thesis using split64 [of r] by (simp add: DecodeRune_def word_cmp tail_byte_uint rune_bits_step not_less)
qed

lemma decode3:
  assumes "0x800 \<le> r" "r \<le> 0xFFFF" "\<not> (0xD800 \<le> r \<and> r \<le> 0xDFFF)"
  shows "DecodeRune (encode3 r @ rest) = (r, 3)"
proof -
  let ?b = "0xE0 OR word_of_int (drop_bit 12 r) :: byte"
  have b: "uint ?b = 0xE0 + r div 4096" using assms by (simp add: utf8_arith)
  have h: "0 \<le> r div 4096" "r div 4096 < 16" using assms by simp_all
  have "\<exists>lo hi. first_byte ?b = Some (3, lo, hi) \<and> uint lo \<le> 0x80 + r div 64 mod 64 \<and> 0x80 + r div 64 mod 64 \<le> uint hi"
  proof -
    have "r div 4096 = 0 \<Longrightarrow> 32 \<le> r div 64 mod 64" "r div 4096 = 13 \<Longrightarrow> r div 64 mod 64 < 32" "0 \<le> r div 64 mod 64" "r div 64 mod 64 < 64"
      using assms split64 [of r] split64 [of "r div 64"] unfolding div64 by linarith+
    then show ?thesis using h unfolding first_byte_def word_cmp b by (cases "r div 4096 = 0"; cases "r div 4096 = 13"; simp)
  qed
  then obtain lo hi where fb: "first_byte ?b = Some (3, lo, hi)" and lh: "uint lo \<le> 0x80 + r div 64 mod 64" "0x80 + r div 64 mod 64 \<le> uint hi" by blast
  have "uint (?b AND 0x0F) = r div 4096" using h mod_low [of "r div 4096" 16 14] unfolding carried b by simp
  moreover have "(r div 4096 * 64 + r div 64 mod 64) * 64 + r mod 64 = r" by (simp only: div64 div_mult_mod_eq)
  ultimately show ?thesis using fb lh by (simp add: DecodeRune_def encode3_def word_cmp tail_byte_uint rune_bits_step drop_bit_eq_div not_less)
qed

lemma decode4:
  assumes "0x10000 \<le> r" "r \<le> 0x10FFFF"
  shows "DecodeRune ([0xF0 OR word_of_int (drop_bit 18 r), tail_byte (drop_bit 12 r), tail_byte (drop_bit 6 r), tail_byte r] @ rest) = (r, 4)"
proof -
  let ?b = "0xF0 OR word_of_int (drop_bit 18 r) :: byte"
  have b: "uint ?b = 0xF0 + r div 262144" using assms by (simp add: utf8_arith)
  have h: "0 \<le> r div 262144" "r div 262144 < 5" using assms by simp_all
  have "\<exists>lo hi. first_byte ?b = Some (4, lo, hi) \<and> uint lo \<le> 0x80 + r div 4096 mod 64 \<and> 0x80 + r div 4096 mod 64 \<le> uint hi"
  proof -
    have "r div 262144 = 0 \<Longrightarrow> 16 \<le> r div 4096 mod 64" "r div 262144 = 4 \<Longrightarrow> r div 4096 mod 64 < 16" "0 \<le> r div 4096 mod 64" "r div 4096 mod 64 < 64"
      using assms split64 [of r] split64 [of "r div 64"] split64 [of "r div 64 div 64"] unfolding div64 by linarith+
    then show ?thesis using h unfolding first_byte_def word_cmp b by (cases "r div 262144 = 0"; cases "r div 262144 = 4"; simp)
  qed
  then obtain lo hi where fb: "first_byte ?b = Some (4, lo, hi)" and lh: "uint lo \<le> 0x80 + r div 4096 mod 64" "0x80 + r div 4096 mod 64 \<le> uint hi" by blast
  have "uint (?b AND 0x07) = r div 262144" using h mod_low [of "r div 262144" 8 30] unfolding carried b by simp
  moreover have "((r div 262144 * 64 + r div 4096 mod 64) * 64 + r div 64 mod 64) * 64 + r mod 64 = r" by (simp only: div64 div_mult_mod_eq)
  ultimately show ?thesis using fb lh by (simp add: DecodeRune_def word_cmp tail_byte_uint rune_bits_step drop_bit_eq_div not_less numeral_2_eq_2)
qed

lemma DecodeRune_EncodeRune:
  assumes "valid_rune r"
  shows "DecodeRune (EncodeRune r @ rest) = (r, length (EncodeRune r))"
  using assms decode1 [of r rest] decode2 [of r rest] decode3 [of r rest] decode4 [of r rest]
  by (auto simp: EncodeRune_def valid_rune_def encode3_def)

text \<open>A proper prefix of an encoding is not full, and more than an encoding is.\<close>

lemma FullRune_prefix:
  assumes "DecodeRune p = (r, length p)" "k < length p" "1 < length p"
  shows "\<not> FullRune (take k p)"
proof (cases k)
  case 0
  then show ?thesis by (simp add: FullRune_def)
next
  case (Suc j)
  from assms(3) obtain b0 rest where p: "p = b0 # rest" by (cases p) auto
  from assms(1,3) p obtain sz lo hi where fb: "first_byte b0 = Some (sz, lo, hi)"
    by (auto simp: DecodeRune_def split: option.splits)
  then have sz: "sz \<in> {1, 2, 3, 4}" by (auto simp: first_byte_def split: if_splits)
  then have "length p = sz" "\<not> rest ! 0 < lo" "\<not> hi < rest ! 0" "2 < sz \<longrightarrow> is_tail (rest ! 1)"
    using assms(1,3) p fb by (auto simp: DecodeRune_def split: if_splits)
  then show ?thesis using Suc assms(2) p fb by (auto simp: FullRune_def)
qed

lemma FullRune_EncodeRune:
  assumes "valid_rune r"
  shows "FullRune (take k (EncodeRune r @ rest)) \<longleftrightarrow> length (EncodeRune r) \<le> k"
proof -
  let ?e = "EncodeRune r"
  note dec = DecodeRune_EncodeRune [OF assms]
  have len3: "length (EncodeRune RuneError) = 3" by (simp add: EncodeRune_def RuneError_def valid_rune_def encode3_def)
  show ?thesis
  proof (cases "length ?e \<le> k")
    case True
    then have "take k (?e @ rest) = ?e @ take (k - length ?e) rest" by simp
    moreover obtain b0 bs where e: "?e = b0 # bs" using length_EncodeRune(1) [of r] by (cases ?e) auto
    moreover have "FullRune ((b0 # bs) @ xs)" for xs
    proof (cases "first_byte b0")
      case (Some t)
      obtain sz lo hi where t: "t = (sz, lo, hi)" by (cases t)
      have "sz \<le> length ?e \<or> (bs \<noteq> [] \<and> (bs ! 0 < lo \<or> hi < bs ! 0))"
        using dec [of "[]"] Some t e len3 by (auto simp: DecodeRune_def first_byte_def split: if_splits)
      then show ?thesis using Some t e by (auto simp: FullRune_def nth_append)
    qed (simp add: FullRune_def)
    ultimately show ?thesis using True by simp
  next
    case False
    have "\<not> FullRune (take k ?e)"
    proof (cases "1 < length ?e")
      case True
      then show ?thesis using FullRune_prefix [of ?e r k] dec [of "[]"] False by simp
    next
      case one: False
      then have "k = 0" using False by linarith
      then show ?thesis by (simp add: FullRune_def)
    qed
    then show ?thesis using False by simp
  qed
qed

end
