(* ===== verification/Bufio_Reader.thy ===== *)
theory Bufio_Reader
  imports Go_IO Go_Utf8
begin

text \<open>
  \<^verbatim>\<open>Reader\<close> of \<^verbatim>\<open>m_bufio/bufio.go\<close>: a buffer in front of an \<^verbatim>\<open>io.Reader\<close>.  The unread bytes are
  \<^verbatim>\<open>buf[r:w]\<close>, and \<open>err\<close> is an error of the underlying reader that has not been reported yet.  Slices into
  the buffer that the code returns are returned as their contents.  The warnings the code logs have no
  effect on the state.

  A reader over a \<open>stream_reader\<close> is a \<open>stream_reader\<close> again (locale \<open>buffered\<close>), of the bytes that are \<open>pending\<close>:
  those in the buffer and those still to come.
\<close>

record 's Reader =
  rb_buf :: bytes
  rb_rd :: 's
  rb_r :: int
  rb_w :: int
  rb_err :: "goerr option"
  rb_lastByte :: int
  rb_lastRuneSize :: int
  rb_TotalRead :: int

definition defaultBufSize :: int where "defaultBufSize = 4096"
definition minReadBufferSize :: int where "minReadBufferSize = 16"

definition Reader_reset :: "bytes \<Rightarrow> 's \<Rightarrow> 's Reader" where
  "Reader_reset buf r =
     \<lparr>rb_buf = buf, rb_rd = r, rb_r = 0, rb_w = 0, rb_err = None, rb_lastByte = - 1, rb_lastRuneSize = - 1, rb_TotalRead = 0\<rparr>"

definition Reader_Reset :: "'s Reader \<Rightarrow> 't \<Rightarrow> 't Reader" where
  "Reader_Reset b r = Reader_reset (rb_buf b) r"

text \<open>
  The argument of \<^verbatim>\<open>NewReaderSize\<close> is a \<^verbatim>\<open>*Reader\<close> (\<open>Inl\<close>) or some other reader; the result is that reader
  itself or a new one around the argument.
\<close>

definition NewReaderSize :: "'s Reader + 's \<Rightarrow> int \<Rightarrow> 's Reader + ('s Reader + 's) Reader" where
  "NewReaderSize rd sz =
     (case rd of
        Inl b \<Rightarrow> if sz \<le> ilen (rb_buf b) then Inl b
                 else Inr (Reader_reset (replicate (nat (if sz < minReadBufferSize then minReadBufferSize else sz)) 0) rd)
      | Inr _ \<Rightarrow> Inr (Reader_reset (replicate (nat (if sz < minReadBufferSize then minReadBufferSize else sz)) 0) rd))"

definition NewReader :: "'s Reader + 's \<Rightarrow> 's Reader + ('s Reader + 's) Reader" where
  "NewReader rd = NewReaderSize rd defaultBufSize"

subsection \<open>Filling\<close>

definition Reader_fill :: "'s reader_fn \<Rightarrow> 's Reader \<Rightarrow> 's Reader go" where
  "Reader_fill rd b =
     gobind
       (if 0 < rb_r b then
          gobind (go_slice (rb_buf b) (rb_r b) (rb_w b)) (\<lambda>old.
          ret (b\<lparr>rb_buf := overwrite (rb_buf b) 0 old, rb_w := rb_w b - rb_r b, rb_r := 0\<rparr>))
        else ret b) (\<lambda>b.
     gobind (go_slice (rb_buf b) (rb_w b) (ilen (rb_buf b))) (\<lambda>p.
     gobind (rd (rb_rd b) p) (\<lambda>(n, p', err, s).
     let b = b\<lparr>rb_rd := s, rb_buf := overwrite (rb_buf b) (rb_w b) p'\<rparr> in
     if n < 0 then throw NegativeRead
     else ret (b\<lparr>rb_w := rb_w b + n, rb_err := (case err of Some e \<Rightarrow> Some e | None \<Rightarrow> rb_err b)\<rparr>))))"

definition Reader_readErr :: "'s Reader \<Rightarrow> goerr option \<times> 's Reader" where
  "Reader_readErr b = (rb_err b, b\<lparr>rb_err := None\<rparr>)"

definition Reader_Buffered :: "'s Reader \<Rightarrow> int" where
  "Reader_Buffered b = rb_w b - rb_r b"

subsection \<open>Peek and Read\<close>

partial_function (option) Peek_loop :: "'s reader_fn \<Rightarrow> 's Reader \<Rightarrow> int \<Rightarrow> 's Reader go" where
  "Peek_loop rd b n =
     (if rb_w b - rb_r b < n \<and> rb_err b = None then gobind (Reader_fill rd b) (\<lambda>b. Peek_loop rd b n) else ret b)"

definition Reader_Peek :: "'s reader_fn \<Rightarrow> 's Reader \<Rightarrow> int \<Rightarrow> (bytes \<times> goerr option \<times> 's Reader) go" where
  "Reader_Peek rd b n =
     (if n < 0 then ret ([], Some ErrNegativeCount, b)
      else if ilen (rb_buf b) < n then ret ([], Some ErrBufferFull, b)
      else
        gobind (Peek_loop rd b n) (\<lambda>b.
        let m = (if n < rb_w b - rb_r b then n else rb_w b - rb_r b);
            (err, b) = (if m < n then (case Reader_readErr b of (e, b) \<Rightarrow> (if e = None then Some ErrBufferFull else e, b)) else (None, b))
        in gobind (go_slice (rb_buf b) (rb_r b) (rb_r b + m)) (\<lambda>p. ret (p, err, b))))"

text \<open>The end of \<^verbatim>\<open>Read\<close>: copy from a buffer that is not empty.\<close>

definition Reader_Read_copy :: "'s Reader \<Rightarrow> bytes \<Rightarrow> (int \<times> bytes \<times> goerr option \<times> 's Reader) go" where
  "Reader_Read_copy b p =
     (let n = (if rb_w b - rb_r b < ilen p then rb_w b - rb_r b else ilen p) in
      gobind (go_slice p 0 n) (\<lambda>_.
      gobind (go_slice (rb_buf b) (rb_r b) (ilen (rb_buf b))) (\<lambda>src.
      let b = b\<lparr>rb_r := rb_r b + n\<rparr> in
      gobind (go_index (rb_buf b) (rb_r b - 1)) (\<lambda>c.
      ret (n, overwrite p 0 (take (nat n) src), None,
           b\<lparr>rb_lastByte := uint c, rb_lastRuneSize := - 1, rb_TotalRead := rb_TotalRead b + n\<rparr>)))))"

definition Reader_Read :: "'s reader_fn \<Rightarrow> 's Reader reader_fn" where
  "Reader_Read rd b p =
     (if p = [] then (case Reader_readErr b of (e, b) \<Rightarrow> ret (0, p, e, b))
      else if rb_w b = rb_r b then
        (if rb_err b \<noteq> None then (case Reader_readErr b of (e, b) \<Rightarrow> ret (0, p, e, b))
         else if ilen (rb_buf b) \<le> ilen p then
           gobind (rd (rb_rd b) p) (\<lambda>(n, p, e, s).
           let b = b\<lparr>rb_rd := s, rb_err := e\<rparr> in
           gobind
             (if 0 < n then
                gobind (go_index p (n - 1)) (\<lambda>c.
                ret (b\<lparr>rb_lastByte := uint c, rb_lastRuneSize := - 1, rb_TotalRead := rb_TotalRead b + n\<rparr>))
              else ret b) (\<lambda>b.
           case Reader_readErr b of (e, b) \<Rightarrow> ret (n, p, e, b)))
         else
           gobind (Reader_fill rd b) (\<lambda>b.
           if rb_w b = rb_r b then (case Reader_readErr b of (e, b) \<Rightarrow> ret (0, p, e, b))
           else Reader_Read_copy b p))
      else Reader_Read_copy b p)"

subsection \<open>Bytes\<close>

partial_function (option) ReadByte_loop :: "'s reader_fn \<Rightarrow> 's Reader \<Rightarrow> ((byte \<times> goerr option) \<times> 's Reader) go" where
  "ReadByte_loop rd b =
     (if rb_w b = rb_r b then
        (if rb_err b \<noteq> None then (case Reader_readErr b of (e, b) \<Rightarrow> ret ((0, e), b))
         else gobind (Reader_fill rd b) (\<lambda>b. ReadByte_loop rd b))
      else
        gobind (go_index (rb_buf b) (rb_r b)) (\<lambda>c.
        ret ((c, None), b\<lparr>rb_r := rb_r b + 1, rb_lastByte := uint c, rb_TotalRead := rb_TotalRead b + 1\<rparr>)))"

definition Reader_ReadByte :: "'s reader_fn \<Rightarrow> 's Reader \<Rightarrow> ((byte \<times> goerr option) \<times> 's Reader) go" where
  "Reader_ReadByte rd b = ReadByte_loop rd (b\<lparr>rb_lastRuneSize := - 1\<rparr>)"

definition Reader_UnreadByte :: "'s Reader \<Rightarrow> (goerr option \<times> 's Reader) go" where
  "Reader_UnreadByte b0 =
     (let b = b0\<lparr>rb_lastRuneSize := - 1\<rparr>;
          less = (\<lambda>t :: int. if 0 < t then t - 1 else t) in
      if rb_r b = rb_w b \<and> 0 \<le> rb_lastByte b then
        gobind (go_store (rb_buf b) 0 (word_of_int (rb_lastByte b))) (\<lambda>buf.
        ret (None, b\<lparr>rb_w := 1, rb_r := 0, rb_buf := buf, rb_lastByte := - 1, rb_TotalRead := less (rb_TotalRead b)\<rparr>))
      else if rb_r b \<le> 0 then ret (Some ErrInvalidUnreadByte, b)
      else ret (None, b\<lparr>rb_r := rb_r b - 1, rb_lastByte := - 1, rb_TotalRead := less (rb_TotalRead b)\<rparr>))"

subsection \<open>Runes\<close>

partial_function (option) ReadRune_loop :: "'s reader_fn \<Rightarrow> 's Reader \<Rightarrow> 's Reader go" where
  "ReadRune_loop rd b =
     (if rb_w b < rb_r b + UTFMax then
        gobind (go_slice (rb_buf b) (rb_r b) (rb_w b)) (\<lambda>p.
        if \<not> FullRune p \<and> rb_err b = None then gobind (Reader_fill rd b) (\<lambda>b. ReadRune_loop rd b) else ret b)
      else ret b)"

definition Reader_ReadRune :: "'s reader_fn \<Rightarrow> 's Reader \<Rightarrow> (rune \<times> int \<times> goerr option \<times> 's Reader) go" where
  "Reader_ReadRune rd b =
     gobind (ReadRune_loop rd b) (\<lambda>b.
     let b = b\<lparr>rb_lastRuneSize := - 1\<rparr> in
     if rb_r b = rb_w b then (case Reader_readErr b of (e, b) \<Rightarrow> ret (0, 0, e, b))
     else
       gobind (go_index (rb_buf b) (rb_r b)) (\<lambda>c.
       gobind
         (if RuneSelf \<le> uint c then
            gobind (go_slice (rb_buf b) (rb_r b) (rb_w b)) (\<lambda>p. case DecodeRune p of (r, sz) \<Rightarrow> ret (r, int sz))
          else ret (uint c, 1)) (\<lambda>(r, sz).
       let b = b\<lparr>rb_r := rb_r b + sz\<rparr> in
       gobind (go_index (rb_buf b) (rb_r b - 1)) (\<lambda>c.
       ret (r, sz, None, b\<lparr>rb_lastByte := uint c, rb_lastRuneSize := sz, rb_TotalRead := rb_TotalRead b + sz\<rparr>)))))"

definition Reader_UnreadRune :: "'s Reader \<Rightarrow> goerr option \<times> 's Reader" where
  "Reader_UnreadRune b =
     (if rb_lastRuneSize b < 0 \<or> rb_r b = 0 then (Some ErrInvalidUnreadRune, b)
      else
        (None, b\<lparr>rb_r := rb_r b - rb_lastRuneSize b,
                 rb_TotalRead := (if rb_lastRuneSize b \<le> rb_TotalRead b then rb_TotalRead b - rb_lastRuneSize b else rb_TotalRead b),
                 rb_lastByte := - 1, rb_lastRuneSize := - 1\<rparr>))"

subsection \<open>Lines\<close>

text \<open>\<^verbatim>\<open>bytes.IndexByte\<close>, with \<open>None\<close> for \<open>- 1\<close>\<close>

fun IndexByte :: "bytes \<Rightarrow> byte \<Rightarrow> nat option" where
  "IndexByte [] c = None"
| "IndexByte (x # xs) c = (if x = c then Some 0 else map_option Suc (IndexByte xs c))"

partial_function (option) ReadSlice_loop :: "'s reader_fn \<Rightarrow> 's Reader \<Rightarrow> byte \<Rightarrow> (bytes \<times> goerr option \<times> 's Reader) go" where
  "ReadSlice_loop rd b delim =
     (if rb_err b \<noteq> None then
        gobind (go_slice (rb_buf b) (rb_r b) (rb_w b)) (\<lambda>line.
        case Reader_readErr (b\<lparr>rb_TotalRead := rb_TotalRead b + (rb_w b - rb_r b), rb_r := rb_w b\<rparr>) of (e, b) \<Rightarrow> ret (line, e, b))
      else
        let n = Reader_Buffered b in
        gobind (Reader_fill rd b) (\<lambda>b.
        gobind (go_slice (rb_buf b) n (rb_w b)) (\<lambda>fresh.
        case IndexByte fresh delim of
          Some i \<Rightarrow>
            gobind (go_slice (rb_buf b) 0 (n + int i + 1)) (\<lambda>line.
            ret (line, None, b\<lparr>rb_r := n + int i + 1, rb_TotalRead := rb_TotalRead b + (int i + 1)\<rparr>))
        | None \<Rightarrow>
            if ilen (rb_buf b) \<le> Reader_Buffered b then
              ret (rb_buf b, Some ErrBufferFull, b\<lparr>rb_TotalRead := rb_TotalRead b + ilen (rb_buf b), rb_r := rb_w b\<rparr>)
            else ReadSlice_loop rd b delim)))"

definition Reader_ReadSlice :: "'s reader_fn \<Rightarrow> 's Reader \<Rightarrow> byte \<Rightarrow> (bytes \<times> goerr option \<times> 's Reader) go" where
  "Reader_ReadSlice rd b delim =
     gobind (go_slice (rb_buf b) (rb_r b) (rb_w b)) (\<lambda>unread.
     case IndexByte unread delim of
       Some i \<Rightarrow>
         gobind (go_slice (rb_buf b) (rb_r b) (rb_r b + int i + 1)) (\<lambda>line.
         ret (line, None, b\<lparr>rb_r := rb_r b + (int i + 1), rb_TotalRead := rb_TotalRead b + (int i + 1)\<rparr>))
     | None \<Rightarrow> ReadSlice_loop rd b delim)"

definition CR :: byte where "CR = 13"
definition LF :: byte where "LF = 10"

text \<open>A nil line is returned as the empty one.\<close>

definition Reader_ReadLine :: "'s reader_fn \<Rightarrow> 's Reader \<Rightarrow> (bytes \<times> bool \<times> goerr option \<times> 's Reader) go" where
  "Reader_ReadLine rd b =
     gobind (Reader_ReadSlice rd b LF) (\<lambda>(line, err, b).
     if err = Some ErrBufferFull then
       (if 0 < length line \<and> line ! (length line - 1) = CR then
          (if rb_r b = 0 then throw RewindPastStart
           else ret (take (length line - 1) line, True, None, b\<lparr>rb_r := rb_r b - 1\<rparr>))
        else ret (line, True, None, b))
     else if line = [] then ret ([], False, err, b)
     else if line ! (length line - 1) = LF then
       let dr = (if 1 < length line \<and> line ! (length line - 2) = CR then 2 else 1)
       in ret (take (length line - dr) line, False, None, b)
     else ret (line, False, None, b))"

partial_function (option) ReadBytes_loop ::
  "'s reader_fn \<Rightarrow> 's Reader \<Rightarrow> byte \<Rightarrow> bytes list \<Rightarrow> (bytes list \<times> bytes \<times> goerr option \<times> 's Reader) go" where
  "ReadBytes_loop rd b delim full =
     gobind (Reader_ReadSlice rd b delim) (\<lambda>(frag, e, b).
     if e = None then ret (full, frag, None, b)
     else if e \<noteq> Some ErrBufferFull then ret (full, frag, e, b)
     else ReadBytes_loop rd b delim (full @ [frag]))"

text \<open>The pieces are copied one behind the other into a buffer of their total length.\<close>

definition copy_pieces :: "bytes list \<Rightarrow> bytes \<Rightarrow> bytes" where
  "copy_pieces full frag =
     (case foldl (\<lambda>(buf, n) p. (overwrite buf n p, n + ilen p))
             (replicate (sum_list (map length full) + length frag) 0, 0) full of
        (buf, n) \<Rightarrow> overwrite buf n frag)"

definition Reader_ReadBytes :: "'s reader_fn \<Rightarrow> 's Reader \<Rightarrow> byte \<Rightarrow> (bytes \<times> goerr option \<times> 's Reader) go" where
  "Reader_ReadBytes rd b delim =
     gobind (ReadBytes_loop rd b delim []) (\<lambda>(full, frag, err, b). ret (copy_pieces full frag, err, b))"

definition Reader_ReadString :: "'s reader_fn \<Rightarrow> 's Reader \<Rightarrow> byte \<Rightarrow> (string \<times> goerr option \<times> 's Reader) go" where
  "Reader_ReadString rd b delim = gobind (Reader_ReadBytes rd b delim) (\<lambda>(bs, err, b). ret (bytes_str bs, err, b))"

subsection \<open>WriteTo\<close>

definition Reader_writeBuf :: "'w writer_fn \<Rightarrow> 's Reader \<Rightarrow> 'w \<Rightarrow> (int \<times> goerr option \<times> 's Reader \<times> 'w) go" where
  "Reader_writeBuf wr b w =
     gobind (go_slice (rb_buf b) (rb_r b) (rb_w b)) (\<lambda>p.
     gobind (wr w p) (\<lambda>(n, err, w).
     let b = b\<lparr>rb_r := rb_r b + n\<rparr>;
         b = (if 0 < n then b\<lparr>rb_TotalRead := rb_TotalRead b + n\<rparr> else b)
     in ret (n, err, b, w)))"

partial_function (option) Reader_WriteTo_loop ::
  "'s reader_fn \<Rightarrow> 'w writer_fn \<Rightarrow> 's Reader \<Rightarrow> 'w \<Rightarrow> int \<Rightarrow> (int \<times> goerr option \<times> 's Reader \<times> 'w) go" where
  "Reader_WriteTo_loop rd wr b w n =
     gobind (Reader_fill rd b) (\<lambda>b.
     if rb_r b < rb_w b then
       gobind (Reader_writeBuf wr b w) (\<lambda>(m, err, b, w).
       if err \<noteq> None then ret (n + m, err, b, w) else Reader_WriteTo_loop rd wr b w (n + m))
     else
       let b = (if rb_err b = Some EOF then b\<lparr>rb_err := None\<rparr> else b) in
       (case Reader_readErr b of (e, b) \<Rightarrow> ret (n, e, b, w)))"

text \<open>\<open>wt\<close> is the \<^verbatim>\<open>WriteTo\<close> method of the underlying reader, when it has one.\<close>

definition Reader_WriteTo ::
  "'s reader_fn \<Rightarrow> ('s \<Rightarrow> 'w \<Rightarrow> (int \<times> goerr option \<times> 's \<times> 'w) go) option \<Rightarrow> 'w writer_fn \<Rightarrow> 's Reader \<Rightarrow> 'w \<Rightarrow>
   (int \<times> goerr option \<times> 's Reader \<times> 'w) go" where
  "Reader_WriteTo rd wt wr b w =
     gobind (Reader_writeBuf wr b w) (\<lambda>(n, err, b, w).
     if err \<noteq> None then ret (n, err, b, w)
     else case wt of
       Some f \<Rightarrow>
         gobind (f (rb_rd b) w) (\<lambda>(m, err, s, w).
         let b = b\<lparr>rb_rd := s\<rparr>;
             b = (if 0 < m then b\<lparr>rb_TotalRead := rb_TotalRead b + m\<rparr> else b)
         in ret (n + m, err, b, w))
     | None \<Rightarrow> Reader_WriteTo_loop rd wr b w n)"

subsection \<open>The invariant, and what is pending\<close>

definition unread :: "'s Reader \<Rightarrow> bytes" where
  "unread b = seg (rb_buf b) (rb_r b) (rb_w b)"

definition rb_wf :: "'s Reader \<Rightarrow> bool" where
  "rb_wf b \<longleftrightarrow> 0 \<le> rb_r b \<and> rb_r b \<le> rb_w b \<and> rb_w b \<le> ilen (rb_buf b) \<and> rb_buf b \<noteq> []"

definition rb_good :: "('s \<Rightarrow> bytes) \<Rightarrow> ('s \<Rightarrow> goerr) \<Rightarrow> ('s \<Rightarrow> bool) \<Rightarrow> 's Reader \<Rightarrow> bool" where
  "rb_good content fin good b \<longleftrightarrow> rb_wf b \<and> good (rb_rd b) \<and>
     (\<forall>e. rb_err b = Some e \<longrightarrow> e = fin (rb_rd b) \<and> content (rb_rd b) = [])"

definition pending :: "('s \<Rightarrow> bytes) \<Rightarrow> 's Reader \<Rightarrow> bytes" where
  "pending content b = unread b @ content (rb_rd b)"

definition rb_left :: "('s \<Rightarrow> bytes) \<Rightarrow> ('s \<Rightarrow> nat) \<Rightarrow> 's Reader \<Rightarrow> nat" where
  "rb_left content left b = length (pending content b) + left (rb_rd b)"

lemma length_unread: "rb_wf b \<Longrightarrow> ilen (unread b) = rb_w b - rb_r b"
  by (simp add: rb_wf_def unread_def length_seg)

lemma unread_Nil: "rb_wf b \<Longrightarrow> unread b = [] \<longleftrightarrow> rb_w b = rb_r b"
  using length_unread [of b] by auto

text \<open>Taking \<open>k\<close> unread bytes.\<close>

lemma unread_advance:
  assumes "rb_wf b" "int k \<le> rb_w b - rb_r b"
  shows "unread (b\<lparr>rb_r := rb_r b + int k\<rparr>) = drop k (unread b)" "seg (rb_buf b) (rb_r b) (rb_r b + int k) = take k (unread b)"
    and "rb_wf (b\<lparr>rb_r := rb_r b + int k\<rparr>)"
proof -
  have "unread (b\<lparr>rb_r := rb_r b + int k\<rparr>) = drop k (unread b) \<and> seg (rb_buf b) (rb_r b) (rb_r b + int k) = take k (unread b)"
    using assms seg_append_seg [of "rb_r b" "rb_r b + int k" "rb_w b" "rb_buf b"] length_seg [of "rb_r b" "rb_r b + int k" "rb_buf b"]
    by (auto simp: rb_wf_def unread_def append_eq_conv_conj)
  then show "unread (b\<lparr>rb_r := rb_r b + int k\<rparr>) = drop k (unread b)" "seg (rb_buf b) (rb_r b) (rb_r b + int k) = take k (unread b)"
    by blast+
  show "rb_wf (b\<lparr>rb_r := rb_r b + int k\<rparr>)" using assms by (auto simp: rb_wf_def)
qed

lemma unread_rest:
  assumes "rb_wf b"
  shows "seg (rb_buf b) (rb_r b) (ilen (rb_buf b)) = unread b @ seg (rb_buf b) (rb_w b) (ilen (rb_buf b))"
  using assms seg_append_seg [of "rb_r b" "rb_w b" "ilen (rb_buf b)" "rb_buf b"] by (simp add: rb_wf_def unread_def)

lemma unread_nth:
  assumes "rb_wf b" "i < length (unread b)"
  shows "go_index (rb_buf b) (rb_r b + int i) = ret (unread b ! i)"
proof -
  have "int i < rb_w b - rb_r b" using assms(2) length_unread [OF assms(1)] by simp
  moreover from this assms(1) have "nat (rb_r b) \<le> length (rb_buf b)" by (simp add: rb_wf_def nat_le_iff)
  moreover from calculation assms(1) have "unread b ! i = rb_buf b ! (nat (rb_r b) + i)" by (simp add: unread_def seg_def)
  moreover have "nat (rb_r b + int i) = nat (rb_r b) + i" using assms(1) by (simp add: rb_wf_def nat_add_distrib)
  ultimately show ?thesis using assms(1) by (simp add: rb_wf_def)
qed

lemma rb_simps [simp]:
  "unread (b\<lparr>rb_rd := s\<rparr>) = unread b" "unread (b\<lparr>rb_err := e\<rparr>) = unread b" "unread (b\<lparr>rb_lastByte := x\<rparr>) = unread b"
  "unread (b\<lparr>rb_lastRuneSize := x\<rparr>) = unread b" "unread (b\<lparr>rb_TotalRead := x\<rparr>) = unread b"
  "rb_wf (b\<lparr>rb_rd := s\<rparr>) = rb_wf b" "rb_wf (b\<lparr>rb_err := e\<rparr>) = rb_wf b" "rb_wf (b\<lparr>rb_lastByte := x\<rparr>) = rb_wf b"
  "rb_wf (b\<lparr>rb_lastRuneSize := x\<rparr>) = rb_wf b" "rb_wf (b\<lparr>rb_TotalRead := x\<rparr>) = rb_wf b"
  by (simp_all add: unread_def rb_wf_def)

text \<open>The effect of sliding the unread bytes to the front of the buffer.\<close>

definition slid :: "'s Reader \<Rightarrow> 's Reader" where
  "slid b = (if 0 < rb_r b then b\<lparr>rb_buf := overwrite (rb_buf b) 0 (unread b), rb_w := rb_w b - rb_r b, rb_r := 0\<rparr> else b)"

lemma slid_spec:
  assumes "rb_wf b"
  shows "rb_wf (slid b)" "unread (slid b) = unread b" "rb_r (slid b) = 0" "rb_w (slid b) = rb_w b - rb_r b"
    "length (rb_buf (slid b)) = length (rb_buf b)" "take (length (unread b)) (rb_buf (slid b)) = unread b"
proof -
  have lu: "ilen (unread b) = rb_w b - rb_r b" "length (unread b) \<le> length (rb_buf b)"
    using assms length_unread [OF assms] by (auto simp: rb_wf_def)
  show l: "length (rb_buf (slid b)) = length (rb_buf b)" by (simp add: slid_def)
  show r: "rb_r (slid b) = 0" and w: "rb_w (slid b) = rb_w b - rb_r b" using assms by (auto simp: slid_def rb_wf_def)
  show wf: "rb_wf (slid b)" using assms l r w by (auto simp: rb_wf_def)
  show t: "take (length (unread b)) (rb_buf (slid b)) = unread b"
  proof (cases "0 < rb_r b")
    case True
    then show ?thesis using lu(2) by (simp add: slid_def take_overwrite_0)
  next
    case False
    then have "rb_r b = 0" using assms by (simp add: rb_wf_def)
    with lu show ?thesis by (simp add: slid_def unread_def seg_0)
  qed
  have "nat (rb_w b - rb_r b) = length (unread b)" using lu(1) by simp
  then show "unread (slid b) = unread b" using t r w by (simp add: unread_def [of "slid b"] seg_0)
qed

lemma fill_slid: "rb_wf b \<Longrightarrow> Reader_fill rd b = Reader_fill rd (slid b)"
  by (simp add: Reader_fill_def slid_def unread_def rb_wf_def)

text \<open>One \<open>fill\<close>: the buffer gets \<open>k\<close> bytes more at its end.\<close>

definition filled_by :: "('s \<Rightarrow> bytes) \<Rightarrow> ('s \<Rightarrow> goerr) \<Rightarrow> ('s \<Rightarrow> bool) \<Rightarrow> ('s \<Rightarrow> nat) \<Rightarrow> 's Reader \<Rightarrow> nat \<Rightarrow> 's Reader \<Rightarrow> bool" where
  "filled_by content fin good left b k b' \<longleftrightarrow>
     rb_good content fin good b' \<and> rb_r b' = 0 \<and> rb_w b' = rb_w b - rb_r b + int k \<and> length (rb_buf b') = length (rb_buf b) \<and>
     unread b' = unread b @ take k (content (rb_rd b)) \<and> content (rb_rd b') = drop k (content (rb_rd b)) \<and>
     k \<le> length (content (rb_rd b)) \<and> fin (rb_rd b') = fin (rb_rd b) \<and> left (rb_rd b') \<le> left (rb_rd b) \<and>
     rb_lastByte b' = rb_lastByte b \<and> rb_lastRuneSize b' = rb_lastRuneSize b \<and> rb_TotalRead b' = rb_TotalRead b \<and>
     (rb_err b' = None \<and> rb_w b - rb_r b < ilen (rb_buf b) \<longrightarrow> left (rb_rd b') < left (rb_rd b))"

locale buffered = stream_reader rd content fin good left
  for rd :: "'s reader_fn" and content fin good left +
  assumes read_empty: "good s \<Longrightarrow> \<exists>e s'. rd s [] = ret (0, [], e, s') \<and> good s' \<and> content s' = content s \<and>
    fin s' = fin s \<and> left s' \<le> left s \<and> (\<forall>x. e = Some x \<longrightarrow> x = fin s \<and> content s' = [])"
begin

abbreviation good_b :: "'s Reader \<Rightarrow> bool" where
  "good_b \<equiv> rb_good content fin good"

lemma read_any:
  assumes "good s"
  shows "\<exists>k p' e s'. rd s p = ret (int k, p', e, s') \<and> good s' \<and> k \<le> length p \<and> length p' = length p \<and>
    content s = take k p' @ content s' \<and> fin s' = fin s \<and> left s' \<le> left s \<and>
    (e = None \<longrightarrow> p \<noteq> [] \<longrightarrow> left s' < left s) \<and> (\<forall>x. e = Some x \<longrightarrow> x = fin s \<and> content s' = [])"
proof (cases "p = []")
  case True
  from read_empty [OF assms] obtain e s' where "rd s [] = ret (0, [], e, s')" "good s'" "content s' = content s" "fin s' = fin s"
    "left s' \<le> left s" "\<forall>x. e = Some x \<longrightarrow> x = fin s \<and> content s' = []" by blast
  with True show ?thesis by (intro exI [of _ 0] exI [of _ "[]"] exI [of _ e] exI [of _ s']) simp
next
  case False
  from read_spec [OF assms False] show ?thesis unfolding read_step_def by blast
qed

lemma fill_spec:
  assumes "good_b b"
  shows "\<exists>k b'. Reader_fill rd b = ret b' \<and> filled_by content fin good left b k b' \<and>
    (rb_err b' = None \<and> length (unread b) < length (rb_buf b) \<longrightarrow> (\<exists>p p'. p \<noteq> [] \<and> rd (rb_rd b) p = ret (int k, p', None, rb_rd b')))"
proof -
  let ?b = "slid b"
  have wf: "rb_wf b" and g: "good (rb_rd b)" using assms by (simp_all add: rb_good_def)
  note sl = slid_spec [OF wf]
  have same: "rb_rd ?b = rb_rd b" "rb_err ?b = rb_err b" "rb_lastByte ?b = rb_lastByte b" "rb_lastRuneSize ?b = rb_lastRuneSize b"
    "rb_TotalRead ?b = rb_TotalRead b" by (simp_all add: slid_def)
  let ?u = "unread b" and ?buf = "rb_buf ?b" and ?p = "drop (length (unread b)) (rb_buf (slid b))"
  have lu: "rb_w ?b = ilen ?u" using sl(4) length_unread [OF wf] by simp
  have room: "length ?u \<le> length ?buf" using sl(1) lu by (simp add: rb_wf_def)
  from read_any [OF g, of ?p] obtain k p' e s' where
    rd: "rd (rb_rd b) ?p = ret (int k, p', e, s')" and s': "good s'" "fin s' = fin (rb_rd b)" "left s' \<le> left (rb_rd b)"
    and k: "k \<le> length ?buf - length ?u" "length p' = length ?buf - length ?u" "content (rb_rd b) = take k p' @ content s'"
    and e: "e = None \<longrightarrow> ?p \<noteq> [] \<longrightarrow> left s' < left (rb_rd b)" "\<forall>x. e = Some x \<longrightarrow> x = fin (rb_rd b) \<and> content s' = []"
    by auto
  let ?b' = "?b\<lparr>rb_rd := s', rb_buf := overwrite ?buf (ilen ?u) p', rb_w := ilen ?u + int k, rb_err := (case e of Some x \<Rightarrow> Some x | None \<Rightarrow> rb_err b)\<rparr>"
  have "go_slice ?buf (rb_w ?b) (ilen ?buf) = ret ?p" using lu room by (simp add: seg_to_end)
  then have "Reader_fill rd ?b = ret ?b'"
    using sl(3) rd same lu by (simp add: Reader_fill_def Let_def split: option.split)
  with fill_slid [OF wf, of rd] have fill: "Reader_fill rd b = ret ?b'" by simp
  have lb: "length (overwrite ?buf (ilen ?u) p') = length ?buf" using room by simp
  have "take (length ?u + k) (overwrite ?buf (ilen ?u) p') = ?u @ take k p'"
    using room k(1,2) sl(6) by (simp add: overwrite_def)
  moreover have "nat (ilen ?u + int k) = length ?u + k" by simp
  ultimately have "unread ?b' = ?u @ take k p'" using sl(3) by (simp add: unread_def seg_0)
  moreover have "length (take k p') = k" using k by simp
  ultimately have u': "unread ?b' = ?u @ take k (content (rb_rd b))" and c': "content s' = drop k (content (rb_rd b))" and kl: "k \<le> length (content (rb_rd b))"
    using k(3) by simp_all
  have "overwrite ?buf (ilen ?u) p' \<noteq> []" using lb sl(1) by (metis length_0_conv rb_wf_def)
  then have "rb_wf ?b'" using sl(3) lb k(1) room by (simp add: rb_wf_def)
  then have "good_b ?b'" using s' e(2) assms c' by (auto simp: rb_good_def split: option.splits)
  moreover have "rb_w b - rb_r b < ilen (rb_buf b) \<Longrightarrow> ?p \<noteq> []" using length_unread [OF wf] sl(5) by simp
  ultimately have "filled_by content fin good left b k ?b'"
    using sl(3,5) lb u' c' kl s' e(1) same length_unread [OF wf] by (simp add: filled_by_def split: option.splits)
  moreover have "rb_err ?b' = None \<and> length (unread b) < length (rb_buf b) \<longrightarrow> ?p \<noteq> [] \<and> rd (rb_rd b) ?p = ret (int k, p', None, rb_rd ?b')"
    using rd sl(5) by (simp split: option.splits)
  ultimately show ?thesis using fill by blast
qed

text \<open>The end of \<^verbatim>\<open>Read\<close> hands out unread bytes, as many as fit.\<close>

lemma Read_copy_spec:
  assumes "good_b b" "p \<noteq> []" "unread b \<noteq> []"
  shows "\<exists>k p' b'. Reader_Read_copy b p = ret (int k, p', None, b') \<and> good_b b' \<and> length p' = length p \<and>
    k = min (length p) (length (unread b)) \<and> take k p' = take k (unread b) \<and> unread b' = drop k (unread b) \<and> rb_rd b' = rb_rd b \<and>
    rb_lastByte b' = uint (unread b ! (k - 1)) \<and> rb_TotalRead b' = rb_TotalRead b + int k \<and> length (rb_buf b') = length (rb_buf b)"
proof -
  have wf: "rb_wf b" using assms(1) by (simp add: rb_good_def)
  let ?k = "min (length p) (length (unread b))"
  have k: "0 < ?k" "int ?k \<le> rb_w b - rb_r b" using assms(2,3) length_unread [OF wf] by (simp_all add: min_def)
  have n: "(if rb_w b - rb_r b < ilen p then rb_w b - rb_r b else ilen p) = int ?k" using length_unread [OF wf] by simp
  note adv = unread_advance [OF wf k(2)]
  let ?src = "seg (rb_buf b) (rb_r b) (ilen (rb_buf b))" and ?p' = "overwrite p 0 (take (nat (int ?k)) (seg (rb_buf b) (rb_r b) (ilen (rb_buf b))))"
  have src: "take ?k ?src = take ?k (unread b)" using unread_rest [OF wf] by simp
  have "rb_r b + int ?k - 1 = rb_r b + int (?k - 1)" using k(1) by linarith
  moreover have "?k - 1 < length (unread b)" using assms(3) k(1) by (cases "unread b") auto
  ultimately have c: "go_index (rb_buf b) (rb_r b + int ?k - 1) = ret (unread b ! (?k - 1))"
    using unread_nth [OF wf, of "?k - 1"] by presburger
  have "Reader_Read_copy b p = ret (int ?k, ?p', None,
     b\<lparr>rb_r := rb_r b + int ?k, rb_lastByte := uint (unread b ! (?k - 1)), rb_lastRuneSize := - 1, rb_TotalRead := rb_TotalRead b + int ?k\<rparr>)"
    unfolding Reader_Read_copy_def n Let_def using wf k c by (simp add: rb_wf_def)
  moreover have "take ?k ?p' = take ?k (unread b)" using src by (simp add: take_overwrite_0)
  ultimately show ?thesis using adv assms(1) by (auto simp: rb_good_def)
qed

lemma pending_cong: "unread b = unread b' \<Longrightarrow> rb_rd b = rb_rd b' \<Longrightarrow> pending content b = pending content b'"
  by (simp add: pending_def)

text \<open>A \<open>fill\<close> moves bytes from the source into the buffer; none is lost and none is reordered.\<close>

lemma filled_pending:
  assumes "filled_by content fin good left b k b'"
  shows "pending content b' = pending content b" "length (unread b') = length (unread b) + k"
  using assms by (simp_all add: filled_by_def pending_def)

lemma Read_direct:
  assumes "good_b b" "p \<noteq> []" "unread b = []" "rb_err b = None" "length (rb_buf b) \<le> length p"
  shows "\<exists>k p' e b'. Reader_Read rd b p = ret (int k, p', e, b') \<and> good_b b' \<and>
    read_step (pending content) (\<lambda>b. fin (rb_rd b)) (rb_left content left) b p k p' e b'"
proof -
  have wf: "rb_wf b" "good (rb_rd b)" using assms(1) by (simp_all add: rb_good_def)
  from readE [OF wf(2) assms(2)] obtain k p' e s' where
    rd: "rd (rb_rd b) p = ret (int k, p', e, s')" and s': "good s'" "k \<le> length p" "length p' = length p"
    "content (rb_rd b) = take k p' @ content s'" "fin s' = fin (rb_rd b)" "left s' \<le> left (rb_rd b)"
    "e = None \<longrightarrow> left s' < left (rb_rd b)" "\<forall>x. e = Some x \<longrightarrow> x = fin (rb_rd b) \<and> content s' = []" by blast
  have w: "rb_w b = rb_r b" using assms(3) unread_Nil [OF wf(1)] by simp
  let ?b = "b\<lparr>rb_rd := s', rb_err := None\<rparr>"
  let ?b' = "if 0 < k then ?b\<lparr>rb_lastByte := uint (p' ! (k - 1)), rb_lastRuneSize := - 1, rb_TotalRead := rb_TotalRead b + int k\<rparr> else ?b"
  have "0 < k \<Longrightarrow> go_index p' (int k - 1) = ret (p' ! (k - 1))" using s'(2,3) by (simp add: nat_diff_distrib)
  then have "Reader_Read rd b p = ret (int k, p', e, ?b')"
    using assms(2,4,5) w rd by (simp add: Reader_Read_def Reader_readErr_def Let_def)
  moreover have "good_b ?b'" using wf s'(1) by (simp add: rb_good_def)
  moreover have "read_step (pending content) (\<lambda>b. fin (rb_rd b)) (rb_left content left) b p k p' e ?b'"
    using s' assms(3) by (auto simp: read_step_def pending_def rb_left_def)
  ultimately show ?thesis by blast
qed

lemma Read_copy_step:
  assumes "good_b b" "p \<noteq> []" "unread b \<noteq> []"
  shows "\<exists>k p' e b'. Reader_Read_copy b p = ret (int k, p', e, b') \<and> good_b b' \<and>
    read_step (pending content) (\<lambda>b. fin (rb_rd b)) (rb_left content left) b p k p' e b'"
proof -
  from Read_copy_spec [OF assms] obtain k p' b' where "Reader_Read_copy b p = ret (int k, p', None, b')" "good_b b'"
    "length p' = length p" and k: "k = min (length p) (length (unread b))" "take k p' = take k (unread b)"
    "unread b' = drop k (unread b)" "rb_rd b' = rb_rd b" by blast
  moreover have "pending content b = take k p' @ pending content b'" using k by (simp add: pending_def)
  moreover have "0 < k" using k(1) assms(2,3) by simp
  ultimately show ?thesis using k by (auto simp: read_step_def rb_left_def)
qed

lemma Reader_Read_step:
  assumes "good_b b" "p \<noteq> []"
  shows "\<exists>k p' e b'. Reader_Read rd b p = ret (int k, p', e, b') \<and> good_b b' \<and>
    read_step (pending content) (\<lambda>b. fin (rb_rd b)) (rb_left content left) b p k p' e b'"
proof -
  have wf: "rb_wf b" using assms(1) by (simp add: rb_good_def)
  consider (copy) "unread b \<noteq> []" | (err) "unread b = []" "rb_err b \<noteq> None"
    | (direct) "unread b = []" "rb_err b = None" "length (rb_buf b) \<le> length p"
    | (refill) "unread b = []" "rb_err b = None" "length p < length (rb_buf b)" by linarith
  then show ?thesis
  proof cases
    case copy
    then have "Reader_Read rd b p = Reader_Read_copy b p" using assms(2) unread_Nil [OF wf] by (simp add: Reader_Read_def)
    with Read_copy_step [OF assms copy] show ?thesis by simp
  next
    case err
    then have "Reader_Read rd b p = ret (0, p, rb_err b, b\<lparr>rb_err := None\<rparr>)"
      using assms(2) unread_Nil [OF wf] by (simp add: Reader_Read_def Reader_readErr_def)
    with err assms(1) show ?thesis
      by (intro exI [of _ 0] exI [of _ p] exI [of _ "rb_err b"] exI [of _ "b\<lparr>rb_err := None\<rparr>"])
        (auto simp: rb_good_def read_step_def pending_def rb_left_def)
  next
    case direct
    from Read_direct [OF assms direct] show ?thesis .
  next
    case refill
    from fill_spec [OF assms(1)] obtain k b1 where fill: "Reader_fill rd b = ret b1" and f: "filled_by content fin good left b k b1" by blast
    have g1: "good_b b1" using f by (simp add: filled_by_def)
    then have wf1: "rb_wf b1" by (simp add: rb_good_def)
    note pend = filled_pending [OF f]
    have lf: "left (rb_rd b1) \<le> left (rb_rd b)" "fin (rb_rd b1) = fin (rb_rd b)" using f by (simp_all add: filled_by_def)
    have rd: "Reader_Read rd b p = (if rb_w b1 = rb_r b1 then ret (0, p, rb_err b1, b1\<lparr>rb_err := None\<rparr>) else Reader_Read_copy b1 p)"
      using refill assms(2) unread_Nil [OF wf] fill by (simp add: Reader_Read_def Reader_readErr_def)
    show ?thesis
    proof (cases "unread b1 = []")
      case True
      have "ilen (rb_buf b) > 0" using refill(3) by linarith
      then have "rb_err b1 = None \<Longrightarrow> left (rb_rd b1) < left (rb_rd b)"
        using f refill(1) length_unread [OF wf] by (simp add: filled_by_def)
      then show ?thesis using True rd unread_Nil [OF wf1] g1 pend lf
        by (intro exI [of _ 0] exI [of _ p] exI [of _ "rb_err b1"] exI [of _ "b1\<lparr>rb_err := None\<rparr>"])
          (auto simp: rb_good_def read_step_def pending_def rb_left_def)
    next
      case False
      from Read_copy_step [OF g1 assms(2) False] show ?thesis
        using rd False unread_Nil [OF wf1] pend(1) lf by (fastforce simp: read_step_def rb_left_def)
    qed
  qed
qed

end

sublocale buffered \<subseteq> rbuf: stream_reader "Reader_Read rd" "pending content" "\<lambda>b. fin (rb_rd b)" "rb_good content fin good" "rb_left content left"
  by unfold_locales (rule Reader_Read_step)

text \<open>Some \<open>fill\<close>s later: bytes moved into the buffer and the rest of the state was kept.\<close>

definition fills :: "('s \<Rightarrow> bytes) \<Rightarrow> ('s \<Rightarrow> goerr) \<Rightarrow> ('s \<Rightarrow> bool) \<Rightarrow> ('s \<Rightarrow> nat) \<Rightarrow> 's Reader \<Rightarrow> 's Reader \<Rightarrow> bool" where
  "fills content fin good left b b' \<longleftrightarrow>
     rb_good content fin good b' \<and> pending content b' = pending content b \<and> (\<exists>xs. unread b' = unread b @ xs) \<and>
     length (rb_buf b') = length (rb_buf b) \<and> fin (rb_rd b') = fin (rb_rd b) \<and> left (rb_rd b') \<le> left (rb_rd b) \<and>
     rb_lastByte b' = rb_lastByte b \<and> rb_lastRuneSize b' = rb_lastRuneSize b \<and> rb_TotalRead b' = rb_TotalRead b"

context buffered
begin

abbreviation fills_b :: "'s Reader \<Rightarrow> 's Reader \<Rightarrow> bool" where
  "fills_b \<equiv> fills content fin good left"

lemma fills_refl: "good_b b \<Longrightarrow> fills_b b b"
  by (simp add: fills_def)

lemma fills_trans: "fills_b a b \<Longrightarrow> fills_b b c \<Longrightarrow> fills_b a c"
  by (auto simp: fills_def)

lemma filled_fills: "filled_by content fin good left b k b' \<Longrightarrow> fills_b b b'"
  by (auto simp: filled_by_def fills_def pending_def)

lemma fillE:
  assumes "good_b b"
  obtains b' where "Reader_fill rd b = ret b'" "fills_b b b'" "rb_r b' = 0"
    "rb_err b' = None \<and> length (unread b) < length (rb_buf b) \<longrightarrow> left (rb_rd b') < left (rb_rd b)"
proof -
  from fill_spec [OF assms] obtain k b' where "Reader_fill rd b = ret b'" "filled_by content fin good left b k b'" by blast
  moreover have "ilen (unread b) = rb_w b - rb_r b" using assms by (simp add: rb_good_def length_unread)
  ultimately show ?thesis using that [of b'] filled_fills [of b k b'] by (simp add: filled_by_def)
qed

text \<open>
  A loop that fills the buffer as long as it wants more (\<open>c\<close>) and no error is pending, and then goes on with \<open>G\<close>.
  It ends when it wants more only while there is room.
\<close>

lemma fill_loop:
  assumes F: "\<And>b. good_b b \<Longrightarrow> F b = (if c b \<and> rb_err b = None then gobind (Reader_fill rd b) F else G b)"
    and room: "\<And>b. good_b b \<Longrightarrow> length (rb_buf b) = N \<Longrightarrow> c b \<Longrightarrow> length (unread b) < N"
    and "good_b b" "length (rb_buf b) = N"
  shows "\<exists>b'. F b = G b' \<and> fills_b b b' \<and> \<not> (c b' \<and> rb_err b' = None)"
  using assms(3,4)
proof (induction "left (rb_rd b)" arbitrary: b rule: less_induct)
  case less
  show ?case
  proof (cases "c b \<and> rb_err b = None")
    case False
    with F [OF less.prems(1)] fills_refl [OF less.prems(1)] show ?thesis by auto
  next
    case True
    obtain b1 where b1: "Reader_fill rd b = ret b1" "fills_b b b1"
      "rb_err b1 = None \<and> length (unread b) < length (rb_buf b) \<longrightarrow> left (rb_rd b1) < left (rb_rd b)"
      using fillE [OF less.prems(1)] by blast
    then have g1: "good_b b1" "length (rb_buf b1) = N" using less.prems(2) by (simp_all add: fills_def)
    have step: "F b = F b1" using F [OF less.prems(1)] True b1(1) by simp
    show ?thesis
    proof (cases "rb_err b1 = None")
      case None: True
      with room [OF less.prems] True less.prems(2) b1(3) have "left (rb_rd b1) < left (rb_rd b)" by simp
      from less.hyps [OF this g1] show ?thesis unfolding step using fills_trans [OF b1(2)] by blast
    next
      case False
      then show ?thesis unfolding step using F [OF g1(1)] b1(2) by auto
    qed
  qed
qed

subsubsection \<open>Peek\<close>

lemma Peek_loop_spec:
  assumes "good_b b" "n \<le> ilen (rb_buf b)"
  shows "\<exists>b'. Peek_loop rd b n = ret b' \<and> fills_b b b' \<and> \<not> (rb_w b' - rb_r b' < n \<and> rb_err b' = None)"
proof (rule fill_loop [where N = "length (rb_buf b)"])
  show "Peek_loop rd b n = (if rb_w b - rb_r b < n \<and> rb_err b = None then gobind (Reader_fill rd b) (\<lambda>b. Peek_loop rd b n) else ret b)" for b
    by (rule Peek_loop.simps)
  show "length (unread c) < length (rb_buf b)" if "good_b c" "length (rb_buf c) = length (rb_buf b)" "rb_w c - rb_r c < n" for c
    using that assms(2) length_unread [of c] by (simp add: rb_good_def)
qed (use assms in simp_all)

text \<open>\<^verbatim>\<open>Peek(n)\<close> shows the next \<open>n\<close> bytes and takes none; a short answer comes with the reason.\<close>

lemma Peek_spec:
  assumes "good_b b" "int n \<le> ilen (rb_buf b)"
  shows "\<exists>b'. Reader_Peek rd b (int n) =
      ret (take n (pending content b), if length (pending content b) < n then Some (fin (rb_rd b)) else None, b') \<and>
    good_b b' \<and> pending content b' = pending content b \<and> fin (rb_rd b') = fin (rb_rd b) \<and> rb_TotalRead b' = rb_TotalRead b"
proof -
  from Peek_loop_spec [OF assms] obtain b1 where l: "Peek_loop rd b (int n) = ret b1" and f: "fills_b b b1"
    and st: "\<not> (rb_w b1 - rb_r b1 < int n \<and> rb_err b1 = None)" by blast
  have g1: "good_b b1" and p1: "pending content b1 = pending content b" using f by (simp_all add: fills_def)
  then have wf: "rb_wf b1" by (simp add: rb_good_def)
  note lu = length_unread [OF wf]
  show ?thesis
  proof (cases "length (unread b1) < n")
    case False
    then have k: "int n \<le> rb_w b1 - rb_r b1" using lu by simp
    then have "go_slice (rb_buf b1) (rb_r b1) (rb_r b1 + int n) = ret (take n (unread b1))"
      using unread_advance(2) [OF wf k] wf by (simp add: rb_wf_def)
    then have "Reader_Peek rd b (int n) = ret (take n (unread b1), None, b1)"
      using l assms(2) k by (cases "int n = rb_w b1 - rb_r b1") (simp_all add: Reader_Peek_def Let_def)
    moreover have "take n (unread b1) = take n (pending content b)" "\<not> length (pending content b) < n"
      using False unfolding p1 [symmetric] by (simp_all add: pending_def)
    ultimately show ?thesis using f by (simp add: fills_def)
  next
    case True
    then have m: "(if int n < rb_w b1 - rb_r b1 then int n else rb_w b1 - rb_r b1) = ilen (unread b1)" "ilen (unread b1) < int n" using lu by simp_all
    from True st lu obtain e where e: "rb_err b1 = Some e" by auto
    with g1 have fin: "e = fin (rb_rd b1)" "content (rb_rd b1) = []" by (simp_all add: rb_good_def)
    then have u: "unread b1 = pending content b" using p1 by (simp add: pending_def)
    have "go_slice (rb_buf b1) (rb_r b1) (rb_r b1 + ilen (unread b1)) = ret (unread b1)"
      using unread_advance(2) [OF wf, of "length (unread b1)"] wf lu by (simp add: rb_wf_def)
    then have "Reader_Peek rd b (int n) = ret (unread b1, Some e, b1\<lparr>rb_err := None\<rparr>)"
      using l assms(2) m e by (simp add: Reader_Peek_def Reader_readErr_def Let_def)
    with u m(2) fin f g1 show ?thesis by (auto simp: fills_def rb_good_def pending_def)
  qed
qed

subsubsection \<open>Bytes\<close>

lemma ReadByte_loop_spec:
  assumes "good_b b"
  shows "\<exists>b'. ReadByte_loop rd b = ReadByte_loop rd b' \<and> fills_b b b' \<and> \<not> (rb_w b' = rb_r b' \<and> rb_err b' = None)"
proof (rule fill_loop [where N = "length (rb_buf b)"])
  show "ReadByte_loop rd b = (if rb_w b = rb_r b \<and> rb_err b = None then gobind (Reader_fill rd b) (ReadByte_loop rd) else ReadByte_loop rd b)" for b
    by (subst ReadByte_loop.simps) (simp add: ReadByte_loop.simps)
  show "length (unread c) < length (rb_buf b)" if "good_b c" "length (rb_buf c) = length (rb_buf b)" "rb_w c = rb_r c" for c
    using that unread_Nil [of c] by (auto simp: rb_good_def rb_wf_def)
qed (use assms in simp_all)

text \<open>
  \<^verbatim>\<open>ReadByte\<close> takes the next byte, or reports the end of the stream, and \<^verbatim>\<open>UnreadByte\<close> behind it puts the byte back.
\<close>

lemma ReadByte_spec:
  assumes "good_b b"
  shows "\<exists>b'. Reader_ReadByte rd b = ret ((case pending content b of [] \<Rightarrow> (0, Some (fin (rb_rd b))) | c # _ \<Rightarrow> (c, None)), b') \<and>
    good_b b' \<and> pending content b' = tl (pending content b) \<and> fin (rb_rd b') = fin (rb_rd b) \<and>
    (pending content b \<noteq> [] \<longrightarrow> rb_TotalRead b' = rb_TotalRead b + 1 \<and> rb_lastByte b' = uint (hd (pending content b)) \<and>
       0 < rb_r b' \<and> rb_buf b' ! nat (rb_r b' - 1) = hd (pending content b))"
proof -
  let ?b = "b\<lparr>rb_lastRuneSize := - 1\<rparr>"
  have pb: "pending content ?b = pending content b" "fin (rb_rd ?b) = fin (rb_rd b)" "rb_TotalRead ?b = rb_TotalRead b" by (simp_all add: pending_def)
  have "good_b ?b" using assms by (simp add: rb_good_def)
  from ReadByte_loop_spec [OF this] obtain b1 where l: "ReadByte_loop rd ?b = ReadByte_loop rd b1" and f: "fills_b ?b b1"
    and st: "\<not> (rb_w b1 = rb_r b1 \<and> rb_err b1 = None)" by blast
  have g1: "good_b b1" and p1: "pending content b1 = pending content b" and k1: "fin (rb_rd b1) = fin (rb_rd b)" "rb_TotalRead b1 = rb_TotalRead b"
    using f pb by (simp_all add: fills_def)
  then have wf: "rb_wf b1" by (simp add: rb_good_def)
  show ?thesis
  proof (cases "unread b1")
    case Nil
    then have w: "rb_w b1 = rb_r b1" using unread_Nil [OF wf] by simp
    with st obtain e where e: "rb_err b1 = Some e" by auto
    with g1 have fin: "e = fin (rb_rd b1)" "content (rb_rd b1) = []" by (simp_all add: rb_good_def)
    then have "pending content b = []" using p1 Nil by (simp add: pending_def)
    moreover have "Reader_ReadByte rd b = ret ((0, Some e), b1\<lparr>rb_err := None\<rparr>)"
      unfolding Reader_ReadByte_def l by (subst ReadByte_loop.simps) (simp add: w e Reader_readErr_def)
    ultimately show ?thesis using fin k1 g1 Nil by (auto simp: rb_good_def pending_def)
  next
    case (Cons c cs)
    have w: "rb_w b1 \<noteq> rb_r b1" using unread_Nil [OF wf] Cons by simp
    have ix: "go_index (rb_buf b1) (rb_r b1) = ret c" using unread_nth [OF wf, of 0] Cons by simp
    have "int 1 \<le> rb_w b1 - rb_r b1" using w wf by (simp add: rb_wf_def)
    note adv = unread_advance [OF wf this]
    have "Reader_ReadByte rd b = ret ((c, None), b1\<lparr>rb_r := rb_r b1 + 1, rb_lastByte := uint c, rb_TotalRead := rb_TotalRead b1 + 1\<rparr>)"
      unfolding Reader_ReadByte_def l by (subst ReadByte_loop.simps) (simp add: w ix)
    moreover have "rb_buf b1 ! nat (rb_r b1) = c" using ix by (simp add: go_index_def split: if_splits)
    moreover have "pending content b = c # cs @ content (rb_rd b1)" unfolding p1 [symmetric] by (simp add: pending_def Cons)
    ultimately show ?thesis using adv g1 k1 Cons wf by (auto simp: rb_good_def pending_def rb_wf_def)
  qed
qed

lemma UnreadByte_spec:
  assumes "good_b b" "0 < rb_r b" "rb_lastByte b = uint c" "rb_buf b ! nat (rb_r b - 1) = c" "0 < rb_TotalRead b"
  shows "\<exists>b'. Reader_UnreadByte b = ret (None, b') \<and> good_b b' \<and> pending content b' = c # pending content b \<and>
    fin (rb_rd b') = fin (rb_rd b) \<and> rb_TotalRead b' = rb_TotalRead b - 1"
proof -
  have wf: "rb_wf b" using assms(1) by (simp add: rb_good_def)
  show ?thesis
  proof (cases "rb_r b = rb_w b")
    case True
    let ?b' = "b\<lparr>rb_lastRuneSize := - 1, rb_w := 1, rb_r := 0, rb_buf := (rb_buf b)[0 := c], rb_lastByte := - 1, rb_TotalRead := rb_TotalRead b - 1\<rparr>"
    have ne: "rb_buf b \<noteq> []" using wf by (simp add: rb_wf_def)
    then have "Reader_UnreadByte b = ret (None, ?b')"
      using assms True by (simp add: Reader_UnreadByte_def Let_def)
    moreover have "unread ?b' = [c]" using ne by (cases "rb_buf b") (simp_all add: unread_def seg_0)
    moreover have "unread b = []" using True unread_Nil [OF wf] by simp
    moreover have "rb_wf ?b'" using ne wf by (cases "rb_buf b") (simp_all add: rb_wf_def)
    ultimately show ?thesis using assms(1) by (auto simp: rb_good_def pending_def)
  next
    case False
    let ?b' = "b\<lparr>rb_lastRuneSize := - 1, rb_r := rb_r b - 1, rb_lastByte := - 1, rb_TotalRead := rb_TotalRead b - 1\<rparr>"
    have "Reader_UnreadByte b = ret (None, ?b')" using assms False by (simp add: Reader_UnreadByte_def Let_def)
    moreover have wf': "rb_wf ?b'" using wf assms(2) by (simp add: rb_wf_def)
    moreover have "unread ?b' = c # unread b"
    proof -
      have "int 1 \<le> rb_w ?b' - rb_r ?b'" using wf by (simp add: rb_wf_def)
      from unread_advance(1) [OF wf' this] have "unread b = drop 1 (unread ?b')" by (simp add: unread_def)
      moreover have "unread ?b' ! 0 = c" "unread ?b' \<noteq> []"
        using unread_nth [OF wf', of 0] unread_Nil [OF wf'] assms(2,4) wf by (auto simp: rb_wf_def)
      ultimately show ?thesis by (cases "unread ?b'") auto
    qed
    ultimately show ?thesis using assms(1) by (auto simp: rb_good_def pending_def)
  qed
qed

end

text \<open>A reader over a connection, as the code makes them.\<close>

interpretation tcp_buf: buffered conn_Read conn_content c_fin "\<lambda>_. True" conn_left
  by unfold_locales (simp add: conn_Read_def)

end
