(* ===== verification/Bufio_Lines.thy ===== *)
theory Bufio_Lines
  imports Bufio_Reader
begin

text \<open>
  The delimiter-oriented half of \<^verbatim>\<open>Reader\<close>: what \<^verbatim>\<open>ReadSlice\<close>, \<^verbatim>\<open>ReadBytes\<close>, \<^verbatim>\<open>ReadString\<close>, \<^verbatim>\<open>ReadLine\<close>, \<^verbatim>\<open>ReadRune\<close>
  and \<^verbatim>\<open>WriteTo\<close> do to the pending bytes.  All of them are proved inside \<open>buffered\<close>, so they hold of a reader over
  every source that keeps the contract of a byte stream.
\<close>

lemma IndexByte_None: "IndexByte xs c = None \<longleftrightarrow> c \<notin> set xs"
  by (induction xs) auto

lemma IndexByte_Some: "IndexByte xs c = Some i \<Longrightarrow> i < length xs \<and> xs ! i = c \<and> c \<notin> set (take i xs)"
  by (induction xs arbitrary: i) (auto split: if_splits)

text \<open>The bytes up to and with the first delimiter, or all of them.\<close>

definition first_line :: "byte \<Rightarrow> bytes \<Rightarrow> bytes" where
  "first_line delim xs = (if delim \<in> set xs then takeWhile (\<lambda>x. x \<noteq> delim) xs @ [delim] else xs)"

lemma first_line_found: "delim \<notin> set xs \<Longrightarrow> first_line delim (xs @ delim # zs) = xs @ [delim]"
  by (auto simp: first_line_def takeWhile_append)

lemma first_line_skip: "delim \<notin> set xs \<Longrightarrow> first_line delim (xs @ zs) = xs @ first_line delim zs"
  by (auto simp: first_line_def takeWhile_append)

text \<open>The pieces are put one behind the other.\<close>

lemma foldl_overwrite:
  assumes "int n + ilen (concat ps) \<le> ilen buf"
  shows "\<exists>buf'. foldl (\<lambda>(buf, n) p. (overwrite buf n p, n + ilen p)) (buf, int n) ps = (buf', int (n + length (concat ps))) \<and>
    length buf' = length buf \<and> take (n + length (concat ps)) buf' = take n buf @ concat ps"
  using assms
proof (induction ps arbitrary: buf n)
  case (Cons p ps)
  let ?buf = "overwrite buf (int n) p"
  have "take (n + length p) ?buf = take n buf @ p" "length ?buf = length buf" using Cons.prems by (simp_all add: overwrite_def)
  then show ?case using Cons.IH [of "n + length p" ?buf] Cons.prems by (auto simp: add.assoc)
qed simp

lemma copy_pieces_concat: "copy_pieces full frag = concat full @ frag"
proof -
  let ?m = "sum_list (map length full)"
  have m: "?m = length (concat full)" by (simp add: length_concat)
  from foldl_overwrite [of 0 full "replicate (?m + length frag) 0"] m obtain buf where
    "foldl (\<lambda>(buf, n) p. (overwrite buf n p, n + ilen p)) (replicate (?m + length frag) 0, 0) full = (buf, ilen (concat full))"
    "length buf = ?m + length frag" "take (length (concat full)) buf = concat full" by auto
  then show ?thesis using m by (simp add: copy_pieces_def overwrite_def)
qed

text \<open>
  The three ways \<^verbatim>\<open>ReadSlice\<close> returns: with a line that ends in the first delimiter, with a full buffer that has none,
  or at the end of the stream with what was left.
\<close>

definition slice_result ::
  "('s \<Rightarrow> bytes) \<Rightarrow> ('s \<Rightarrow> goerr) \<Rightarrow> ('s \<Rightarrow> bool) \<Rightarrow> 's Reader \<Rightarrow> byte \<Rightarrow> bytes \<Rightarrow> goerr option \<Rightarrow> 's Reader \<Rightarrow> bool"
where
  "slice_result content fin good b delim line e b' \<longleftrightarrow>
     rb_good content fin good b' \<and> pending content b = line @ pending content b' \<and> fin (rb_rd b') = fin (rb_rd b) \<and>
     length (rb_buf b') = length (rb_buf b) \<and>
     (e = None \<and> (\<exists>xs. line = xs @ [delim] \<and> delim \<notin> set xs) \<or>
      e = Some ErrBufferFull \<and> delim \<notin> set line \<and> length line = length (rb_buf b) \<and> rb_r b' = ilen line \<and> rb_buf b' = line \<and> rb_w b' = rb_r b' \<or>
      e = Some (fin (rb_rd b)) \<and> delim \<notin> set line \<and> pending content b' = [])"

lemma slice_result_cong:
  assumes "pending content b = pending content c" "fin (rb_rd b) = fin (rb_rd c)" "length (rb_buf b) = length (rb_buf c)"
  shows "slice_result content fin good b = slice_result content fin good c"
  using assms by (intro ext) (simp add: slice_result_def)

text \<open>A line without its end, \<^verbatim>\<open>\n\<close> or \<^verbatim>\<open>\r\n\<close>.\<close>

definition strip_eol :: "bytes \<Rightarrow> bytes" where
  "strip_eol line =
     (if line \<noteq> [] \<and> last line = LF then
        (if 1 < length line \<and> last (butlast line) = CR then butlast (butlast line) else butlast line)
      else line)"

lemma strip_eol_append:
  assumes "LF \<notin> set line" "fl = [LF] \<longrightarrow> line = [] \<or> last line \<noteq> CR"
  shows "strip_eol (line @ fl) = line @ strip_eol fl"
proof (cases fl rule: rev_cases)
  case Nil
  have "line \<noteq> [] \<Longrightarrow> last line \<noteq> LF" using assms(1) last_in_set [of line] by metis
  then show ?thesis using Nil by (auto simp: strip_eol_def)
next
  case (snoc ys y)
  then show ?thesis using assms by (cases ys rule: rev_cases) (auto simp: strip_eol_def butlast_append)
qed

text \<open>
  A caller of \<^verbatim>\<open>ReadLine\<close> that goes on as long as it is told that the line has more: the fragments it gets, the last
  error and the reader behind them.
\<close>

inductive line_run :: "'s reader_fn \<Rightarrow> 's Reader \<Rightarrow> bytes list \<Rightarrow> goerr option \<Rightarrow> 's Reader \<Rightarrow> bool" for rd where
  last_frag: "Reader_ReadLine rd b = ret (line, False, e, b') \<Longrightarrow> line_run rd b [line] e b'"
| more_frags: "Reader_ReadLine rd b = ret (line, True, e, b1) \<Longrightarrow> line_run rd b1 frags e' b' \<Longrightarrow> line_run rd b (line # frags) e' b'"

inductive_cases line_runE: "line_run rd b frags e b'"

context buffered
begin

abbreviation slice_b :: "'s Reader \<Rightarrow> byte \<Rightarrow> bytes \<Rightarrow> goerr option \<Rightarrow> 's Reader \<Rightarrow> bool" where
  "slice_b \<equiv> slice_result content fin good"

text \<open>A delimiter among the unread bytes.\<close>

lemma slice_found:
  assumes "good_b b" "unread b = ys @ xs" "delim \<notin> set ys" "IndexByte xs delim = Some i"
  shows "\<exists>line. go_slice (rb_buf b) (rb_r b) (rb_r b + (ilen ys + int i + 1)) = ret line \<and>
    slice_b b delim line None (b\<lparr>rb_r := rb_r b + (ilen ys + int i + 1), rb_TotalRead := t\<rparr>)"
proof -
  have wf: "rb_wf b" using assms(1) by (simp add: rb_good_def)
  note ix = IndexByte_Some [OF assms(4)]
  let ?k = "length ys + i + 1"
  have ik: "ilen ys + int i + 1 = int ?k" by simp
  have k: "int ?k \<le> rb_w b - rb_r b" using ix assms(2) length_unread [OF wf] by simp
  note adv = unread_advance [OF wf k]
  have line: "take ?k (unread b) = (ys @ take i xs) @ [delim]" using assms(2) ix by (simp add: take_Suc_conv_app_nth)
  have "go_slice (rb_buf b) (rb_r b) (rb_r b + int ?k) = ret (take ?k (unread b))" using adv(2) k wf by (simp add: rb_wf_def)
  moreover have "pending content b = take ?k (unread b) @ pending content (b\<lparr>rb_r := rb_r b + int ?k, rb_TotalRead := t\<rparr>)"
    using adv(1) by (simp add: pending_def)
  moreover have "good_b (b\<lparr>rb_r := rb_r b + int ?k, rb_TotalRead := t\<rparr>)" using adv(3) assms(1) by (simp add: rb_good_def)
  ultimately show ?thesis unfolding ik line using assms(3) ix by (auto simp: slice_result_def)
qed

lemma slice_full:
  assumes "good_b b" "rb_r b = 0" "ilen (rb_buf b) \<le> rb_w b" "delim \<notin> set (unread b)"
  shows "slice_b b delim (rb_buf b) (Some ErrBufferFull) (b\<lparr>rb_TotalRead := t, rb_r := rb_w b\<rparr>)"
proof -
  have wf: "rb_wf b" using assms(1) by (simp add: rb_good_def)
  then have "rb_w b = ilen (rb_buf b)" "rb_buf b \<noteq> []" using assms(3) by (simp_all add: rb_wf_def)
  moreover from this assms(2) have "unread b = rb_buf b" by (simp add: unread_def)
  ultimately show ?thesis using assms by (auto simp: slice_result_def rb_good_def pending_def rb_wf_def unread_def)
qed

lemma ReadSlice_loop_end:
  assumes "good_b b" "delim \<notin> set (unread b)" "rb_err b \<noteq> None"
  shows "\<exists>line e b'. ReadSlice_loop rd b delim = ret (line, e, b') \<and> slice_b b delim line e b'"
proof -
  have wf: "rb_wf b" using assms(1) by (simp add: rb_good_def)
  let ?b' = "b\<lparr>rb_TotalRead := rb_TotalRead b + (rb_w b - rb_r b), rb_r := rb_w b, rb_err := None\<rparr>"
  have "unread ?b' = []" by (simp add: unread_def)
  moreover have "ReadSlice_loop rd b delim = ret (unread b, rb_err b, ?b')"
    using assms(3) wf by (subst ReadSlice_loop.simps) (simp add: Reader_readErr_def rb_wf_def unread_def)
  moreover have "rb_wf ?b'" using wf by (simp add: rb_wf_def)
  ultimately show ?thesis using assms by (auto simp: slice_result_def rb_good_def pending_def)
qed

text \<open>The part of the buffer that one \<open>fill\<close> added is what the loop searches.\<close>

lemma fill_fresh:
  assumes "good_b b"
  obtains b1 xs where "Reader_fill rd b = ret b1" "good_b b1" "slice_b b1 = slice_b b" "rb_r b1 = 0" "unread b1 = unread b @ xs"
    "Reader_Buffered b = ilen (unread b)" "go_slice (rb_buf b1) (Reader_Buffered b) (rb_w b1) = ret xs"
    "Reader_Buffered b1 < ilen (rb_buf b1) \<and> rb_err b1 = None \<longrightarrow> left (rb_rd b1) < left (rb_rd b)"
proof -
  obtain b1 where b1: "Reader_fill rd b = ret b1" "fills_b b b1" "rb_r b1 = 0"
    "rb_err b1 = None \<and> length (unread b) < length (rb_buf b) \<longrightarrow> left (rb_rd b1) < left (rb_rd b)"
    using fillE [OF assms] by blast
  have g1: "good_b b1" and same: "slice_b b1 = slice_b b" and lb: "length (rb_buf b1) = length (rb_buf b)"
    using b1(2) by (auto simp: fills_def intro!: slice_result_cong)
  then have wf1: "rb_wf b1" by (simp add: rb_good_def)
  obtain xs where xs: "unread b1 = unread b @ xs" using b1(2) by (auto simp: fills_def)
  have n: "Reader_Buffered b = ilen (unread b)" using assms by (simp add: rb_good_def Reader_Buffered_def length_unread)
  have w: "rb_w b1 = ilen (unread b) + ilen xs" using length_unread [OF wf1] b1(3) xs by simp
  have "seg (rb_buf b1) (ilen (unread b)) (rb_w b1) = xs"
    using unread_advance(1) [OF wf1, of "length (unread b)"] w b1(3) xs by (simp add: unread_def)
  then have "go_slice (rb_buf b1) (Reader_Buffered b) (rb_w b1) = ret xs" using n w wf1 by (simp add: rb_wf_def)
  moreover have "Reader_Buffered b1 < ilen (rb_buf b1) \<Longrightarrow> length (unread b) < length (rb_buf b)"
    using w lb b1(3) by (simp add: Reader_Buffered_def)
  ultimately show ?thesis using that b1 g1 same xs n by blast
qed

lemma ReadSlice_loop_spec:
  assumes "good_b b" "delim \<notin> set (unread b)"
  shows "\<exists>line e b'. ReadSlice_loop rd b delim = ret (line, e, b') \<and> slice_b b delim line e b'"
  using assms
proof (induction "left (rb_rd b)" arbitrary: b rule: less_induct)
  case less
  show ?case
  proof (cases "rb_err b = None")
    case False
    from ReadSlice_loop_end [OF less.prems False] show ?thesis .
  next
    case True
    obtain b1 xs where b1: "Reader_fill rd b = ret b1" "good_b b1" "slice_b b1 = slice_b b" "rb_r b1 = 0" "unread b1 = unread b @ xs"
      "Reader_Buffered b = ilen (unread b)" "go_slice (rb_buf b1) (Reader_Buffered b) (rb_w b1) = ret xs"
      "Reader_Buffered b1 < ilen (rb_buf b1) \<and> rb_err b1 = None \<longrightarrow> left (rb_rd b1) < left (rb_rd b)"
      using fill_fresh [OF less.prems(1)] by blast
    note loop = ReadSlice_loop.simps [of rd b delim] True b1(1,7)
    show ?thesis
    proof (cases "IndexByte xs delim")
      case (Some i)
      from slice_found [OF b1(2,5) less.prems(2) Some, of "rb_TotalRead b1 + (int i + 1)"] obtain line where
        "go_slice (rb_buf b1) 0 (ilen (unread b) + int i + 1) = ret line"
        "slice_b b delim line None (b1\<lparr>rb_r := ilen (unread b) + int i + 1, rb_TotalRead := rb_TotalRead b1 + (int i + 1)\<rparr>)"
        using b1(3,4) by auto
      then show ?thesis using loop Some b1(6) by (auto simp: Let_def)
    next
      case None
      then have nd: "delim \<notin> set (unread b1)" using less.prems(2) b1(5) by (simp add: IndexByte_None)
      consider (full) "ilen (rb_buf b1) \<le> Reader_Buffered b1" | (err) "Reader_Buffered b1 < ilen (rb_buf b1)" "rb_err b1 \<noteq> None"
        | (again) "Reader_Buffered b1 < ilen (rb_buf b1)" "rb_err b1 = None" by linarith
      then show ?thesis
      proof cases
        case full
        then have "ilen (rb_buf b1) \<le> rb_w b1" using b1(4) by (simp add: Reader_Buffered_def)
        from slice_full [OF b1(2,4) this nd] show ?thesis using loop None full b1(3) by (auto simp: Let_def)
      next
        case err
        then have step: "ReadSlice_loop rd b delim = ReadSlice_loop rd b1 delim" using loop None by (simp add: Let_def)
        from ReadSlice_loop_end [OF b1(2) nd err(2)] show ?thesis unfolding step b1(3) .
      next
        case again
        then have step: "ReadSlice_loop rd b delim = ReadSlice_loop rd b1 delim" using loop None by (simp add: Let_def)
        from less.hyps [OF _ b1(2) nd] b1(8) again show ?thesis unfolding step b1(3) by blast
      qed
    qed
  qed
qed

lemma ReadSlice_spec:
  assumes "good_b b"
  shows "\<exists>line e b'. Reader_ReadSlice rd b delim = ret (line, e, b') \<and> slice_b b delim line e b'"
proof -
  have "rb_wf b" using assms by (simp add: rb_good_def)
  then have u: "go_slice (rb_buf b) (rb_r b) (rb_w b) = ret (unread b)" by (simp add: unread_def rb_wf_def)
  show ?thesis
  proof (cases "IndexByte (unread b) delim")
    case None
    then have "Reader_ReadSlice rd b delim = ReadSlice_loop rd b delim" using u by (simp add: Reader_ReadSlice_def)
    then show ?thesis using ReadSlice_loop_spec [OF assms] None by (simp add: IndexByte_None)
  next
    case (Some i)
    have "\<exists>line. go_slice (rb_buf b) (rb_r b) (rb_r b + int i + 1) = ret line \<and>
        slice_b b delim line None (b\<lparr>rb_r := rb_r b + (int i + 1), rb_TotalRead := rb_TotalRead b + (int i + 1)\<rparr>)"
      using slice_found [OF assms _ _ Some, of "[]"] by (simp add: add.assoc)
    then show ?thesis using u Some by (auto simp: Reader_ReadSlice_def)
  qed
qed

text \<open>
  \<^verbatim>\<open>ReadBytes\<close> returns the pending bytes up to and with the first delimiter, however many buffers they fill, or all
  of them and the final error when there is none.  Its loop ends because every full buffer shortens what is pending.
\<close>

lemma ReadBytes_loop_spec:
  assumes "good_b b" "fin (rb_rd b) \<noteq> ErrBufferFull"
  shows "\<exists>more frag b'. ReadBytes_loop rd b delim full =
      ret (full @ more, frag, if delim \<in> set (pending content b) then None else Some (fin (rb_rd b)), b') \<and>
    concat more @ frag = first_line delim (pending content b) \<and> good_b b' \<and>
    pending content b = first_line delim (pending content b) @ pending content b' \<and> fin (rb_rd b') = fin (rb_rd b)"
  using assms
proof (induction "length (pending content b)" arbitrary: b full rule: less_induct)
  case less
  from ReadSlice_spec [OF less.prems(1), of delim] obtain line e b1 where
    rs: "Reader_ReadSlice rd b delim = ret (line, e, b1)" and sl: "slice_b b delim line e b1" by blast
  have b1: "good_b b1" "pending content b = line @ pending content b1" "fin (rb_rd b1) = fin (rb_rd b)" using sl by (simp_all add: slice_result_def)
  consider (line) xs where "e = None" "line = xs @ [delim]" "delim \<notin> set xs"
    | (full) "e = Some ErrBufferFull" "delim \<notin> set line" "line \<noteq> []"
    | (fin) "e = Some (fin (rb_rd b))" "delim \<notin> set line" "pending content b1 = []"
    using sl less.prems(1) by (fastforce simp: slice_result_def rb_good_def rb_wf_def)
  then show ?case
  proof cases
    case line
    then have "ReadBytes_loop rd b delim full = ret (full @ [], line, None, b1)" using rs by (subst ReadBytes_loop.simps) simp
    then show ?thesis using line b1 first_line_found [OF line(3), of "pending content b1"] by force
  next
    case fin
    then have "ReadBytes_loop rd b delim full = ret (full @ [], line, Some (fin (rb_rd b)), b1)"
      using rs less.prems(2) by (subst ReadBytes_loop.simps) simp
    then show ?thesis using fin b1 by (force simp: first_line_def)
  next
    case full
    have lt: "length (pending content b1) < length (pending content b)" using b1(2) full(3) by simp
    have "fin (rb_rd b1) \<noteq> ErrBufferFull" using b1(3) less.prems(2) by simp
    from less.hyps [OF lt b1(1) this, of "full @ [line]"] obtain more frag b' where
      "ReadBytes_loop rd b1 delim (full @ [line]) =
        ret (full @ line # more, frag, if delim \<in> set (pending content b1) then None else Some (fin (rb_rd b1)), b')"
      "concat more @ frag = first_line delim (pending content b1)" "good_b b'"
      "pending content b1 = first_line delim (pending content b1) @ pending content b'" "fin (rb_rd b') = fin (rb_rd b1)" by auto
    moreover have "ReadBytes_loop rd b delim full = ReadBytes_loop rd b1 delim (full @ [line])"
      using rs full by (subst ReadBytes_loop.simps) simp
    ultimately show ?thesis using full(2) b1 first_line_skip [OF full(2), of "pending content b1"]
      by (intro exI [of _ "line # more"] exI [of _ frag] exI [of _ b']) auto
  qed
qed

lemma ReadBytes_spec:
  assumes "good_b b" "fin (rb_rd b) \<noteq> ErrBufferFull"
  shows "\<exists>b'. Reader_ReadBytes rd b delim =
      ret (first_line delim (pending content b), if delim \<in> set (pending content b) then None else Some (fin (rb_rd b)), b') \<and>
    good_b b' \<and> pending content b = first_line delim (pending content b) @ pending content b' \<and> fin (rb_rd b') = fin (rb_rd b)"
  using ReadBytes_loop_spec [OF assms, of delim "[]"] by (auto simp: Reader_ReadBytes_def copy_pieces_concat)

subsubsection \<open>Lines\<close>

lemma ReadLine_spec:
  assumes "good_b b" "fin (rb_rd b) \<noteq> ErrBufferFull"
  shows "\<exists>line pre e b'. Reader_ReadLine rd b = ret (line, pre, e, b') \<and> good_b b' \<and> fin (rb_rd b') = fin (rb_rd b) \<and> length (rb_buf b') = length (rb_buf b) \<and>
    (if pre then pending content b = line @ pending content b' \<and> LF \<notin> set line \<and> length (rb_buf b) \<le> length line + 1 \<and> e = None \<and>
       (line \<noteq> [] \<and> last line = CR \<longrightarrow> (\<exists>zs. pending content b' = CR # zs))
     else line = strip_eol (first_line LF (pending content b)) \<and> pending content b = first_line LF (pending content b) @ pending content b' \<and>
       e = (if pending content b = [] then Some (fin (rb_rd b)) else None))"
proof -
  from ReadSlice_spec [OF assms(1), of LF] obtain line e b1 where
    rs: "Reader_ReadSlice rd b LF = ret (line, e, b1)" and sl: "slice_b b LF line e b1" by blast
  have b1: "good_b b1" "pending content b = line @ pending content b1" "fin (rb_rd b1) = fin (rb_rd b)" "length (rb_buf b1) = length (rb_buf b)"
    using sl by (simp_all add: slice_result_def)
  consider (line) xs where "e = None" "line = xs @ [LF]" "LF \<notin> set xs"
    | (full) "e = Some ErrBufferFull" "LF \<notin> set line" "length line = length (rb_buf b)" "rb_r b1 = ilen line" "rb_buf b1 = line" "rb_w b1 = rb_r b1"
    | (fin) "e = Some (fin (rb_rd b))" "LF \<notin> set line" "pending content b1 = []"
    using sl by (auto simp: slice_result_def)
  then show ?thesis
  proof cases
    case line
    have "xs \<noteq> [] \<Longrightarrow> (xs @ [LF]) ! (length xs - Suc 0) = last xs" by (simp add: nth_append last_conv_nth)
    with line have "Reader_ReadLine rd b = ret (strip_eol line, False, None, b1)"
      using rs by (auto simp: Reader_ReadLine_def strip_eol_def Let_def butlast_conv_take)
    then show ?thesis using line b1 first_line_found [OF line(3), of "pending content b1"] by auto
  next
    case fin
    then have "line \<noteq> [] \<Longrightarrow> line ! (length line - Suc 0) \<noteq> LF" "line \<noteq> [] \<Longrightarrow> last line \<noteq> LF"
      by (metis last_conv_nth last_in_set One_nat_def)+
    with fin have "Reader_ReadLine rd b = ret (strip_eol line, False, if line = [] then Some (fin (rb_rd b)) else None, b1)"
      using rs assms(2) by (auto simp: Reader_ReadLine_def strip_eol_def Let_def)
    then show ?thesis using fin b1 by (auto simp: first_line_def)
  next
    case full
    have lc: "line \<noteq> [] \<Longrightarrow> line ! (length line - Suc 0) = last line" by (simp add: last_conv_nth)
    show ?thesis
    proof (cases "line \<noteq> [] \<and> last line = CR")
      case False
      then have "Reader_ReadLine rd b = ret (line, True, None, b1)"
        using rs full(1) lc by (auto simp: Reader_ReadLine_def)
      then show ?thesis using full(2,3) b1 False by (intro exI [of _ line] exI [of _ True] exI [of _ None] exI [of _ b1]) auto
    next
      case True
      let ?b' = "b1\<lparr>rb_r := rb_r b1 - 1\<rparr>"
      have "Reader_ReadLine rd b = ret (butlast line, True, None, ?b')"
        using rs full(1,4) True lc by (auto simp: Reader_ReadLine_def butlast_conv_take)
      moreover have "unread ?b' = [CR]"
      proof -
        have "drop (length line - 1) line = [CR]" using True by (metis append_butlast_last_id append_eq_conv_conj length_butlast)
        moreover have "nat (ilen line - 1) = length line - 1" by simp
        moreover have "0 \<le> ilen line - 1" using True by (cases line) auto
        ultimately show ?thesis using full(4,5,6) seg_to_end [of "ilen line - 1" line] by (simp add: unread_def)
      qed
      moreover from this have "pending content b = butlast line @ pending content ?b'"
        using b1(2) full True by (simp add: pending_def unread_def) (metis append_butlast_last_id append.assoc append_Cons append_Nil)
      moreover have "good_b ?b'" using b1(1) full True by (auto simp: rb_good_def rb_wf_def Suc_le_eq)
      moreover have "LF \<notin> set (butlast line)" using full(2) in_set_butlastD by fast
      moreover from \<open>unread ?b' = [CR]\<close> have "\<exists>zs. pending content ?b' = CR # zs" by (simp add: pending_def)
      moreover have "length (rb_buf b) \<le> length (butlast line) + 1" using full(3) by simp
      ultimately show ?thesis using b1(3,4)
        by (intro exI [of _ "butlast line"] exI [of _ True] exI [of _ None] exI [of _ ?b']) simp
    qed
  qed
qed

text \<open>
  The fragments of a line, put together, are the line without its end: it does not matter where the buffer cut it,
  not even between \<^verbatim>\<open>\r\<close> and \<^verbatim>\<open>\n\<close>.
\<close>

lemma line_run_spec:
  assumes "good_b b" "fin (rb_rd b) \<noteq> ErrBufferFull" "2 \<le> length (rb_buf b)"
  shows "\<exists>frags e b'. line_run rd b frags e b' \<and> concat frags = strip_eol (first_line LF (pending content b)) \<and> good_b b' \<and>
    pending content b = first_line LF (pending content b) @ pending content b' \<and> (pending content b = [] \<longrightarrow> e = Some (fin (rb_rd b)))"
  using assms
proof (induction "length (pending content b)" arbitrary: b rule: less_induct)
  case less
  from ReadLine_spec [OF less.prems(1,2)] obtain line pre e b1 where
    rl: "Reader_ReadLine rd b = ret (line, pre, e, b1)" and b1: "good_b b1" "fin (rb_rd b1) = fin (rb_rd b)" "length (rb_buf b1) = length (rb_buf b)"
    and r: "if pre then pending content b = line @ pending content b1 \<and> LF \<notin> set line \<and> length (rb_buf b) \<le> length line + 1 \<and> e = None \<and>
       (line \<noteq> [] \<and> last line = CR \<longrightarrow> (\<exists>zs. pending content b1 = CR # zs))
     else line = strip_eol (first_line LF (pending content b)) \<and> pending content b = first_line LF (pending content b) @ pending content b1 \<and>
       e = (if pending content b = [] then Some (fin (rb_rd b)) else None)" by blast
  show ?case
  proof (cases pre)
    case False
    then show ?thesis using rl r b1 line_run.last_frag [of rd b line e b1]
      by (intro exI [of _ "[line]"] exI [of _ e] exI [of _ b1]) auto
  next
    case True
    then have p: "pending content b = line @ pending content b1" "LF \<notin> set line" "length (rb_buf b) \<le> length line + 1" using r by simp_all
    have ne: "line \<noteq> []" using p(3) less.prems(3) by auto
    then have "length (pending content b1) < length (pending content b)" using p(1) by simp
    from less.hyps [OF this b1(1)] b1(2,3) less.prems(2,3) obtain frags e' b' where run: "line_run rd b1 frags e' b'"
      and c: "concat frags = strip_eol (first_line LF (pending content b1))" and b': "good_b b'"
      "pending content b1 = first_line LF (pending content b1) @ pending content b'" by auto
    have "first_line LF (pending content b1) = [LF] \<longrightarrow> last line \<noteq> CR"
      using r True ne by (auto simp: first_line_def LF_def CR_def)
    then have "strip_eol (first_line LF (pending content b)) = line @ strip_eol (first_line LF (pending content b1))"
      using p(1,2) by (simp add: first_line_skip strip_eol_append)
    moreover have "line_run rd b (line # frags) e' b'" using line_run.more_frags [OF _ run] rl True by simp
    ultimately show ?thesis using c b' p ne first_line_skip [OF p(2), of "pending content b1"]
      by (intro exI [of _ "line # frags"] exI [of _ e'] exI [of _ b']) simp
  qed
qed

subsubsection \<open>Runes\<close>

lemma ReadRune_loop_spec:
  assumes "good_b b" "4 \<le> length (rb_buf b)"
  shows "\<exists>b'. ReadRune_loop rd b = ret b' \<and> fills_b b b' \<and> \<not> ((rb_w b' < rb_r b' + UTFMax \<and> \<not> FullRune (unread b')) \<and> rb_err b' = None)"
proof (rule fill_loop [where N = "length (rb_buf b)"])
  show "ReadRune_loop rd b = (if (rb_w b < rb_r b + UTFMax \<and> \<not> FullRune (unread b)) \<and> rb_err b = None
      then gobind (Reader_fill rd b) (ReadRune_loop rd) else ret b)" if "good_b b" for b
    using that by (subst ReadRune_loop.simps) (simp add: rb_good_def rb_wf_def unread_def)
  show "length (unread c) < length (rb_buf b)" if "good_b c" "length (rb_buf c) = length (rb_buf b)" "rb_w c < rb_r c + UTFMax \<and> \<not> FullRune (unread c)" for c
    using that assms(2) length_unread [of c] by (simp add: rb_good_def UTFMax_def)
qed (use assms in simp_all)

text \<open>\<^verbatim>\<open>ReadRune\<close> takes the rune whose encoding comes next, however the source cuts it.\<close>

lemma ReadRune_spec:
  assumes "good_b b" "4 \<le> length (rb_buf b)" "valid_rune r" "pending content b = EncodeRune r @ rest"
  shows "\<exists>b'. Reader_ReadRune rd b = ret (r, ilen (EncodeRune r), None, b') \<and> good_b b' \<and> pending content b' = rest \<and>
    rb_TotalRead b' = rb_TotalRead b + ilen (EncodeRune r) \<and> rb_lastRuneSize b' = ilen (EncodeRune r) \<and> ilen (EncodeRune r) \<le> rb_r b' \<and>
    seg (rb_buf b') (rb_r b' - ilen (EncodeRune r)) (rb_r b') = EncodeRune r"
proof -
  let ?e = "EncodeRune r"
  from ReadRune_loop_spec [OF assms(1,2)] obtain b1 where l: "ReadRune_loop rd b = ret b1" and f: "fills_b b b1"
    and st: "\<not> ((rb_w b1 < rb_r b1 + UTFMax \<and> \<not> FullRune (unread b1)) \<and> rb_err b1 = None)" by blast
  have g1: "good_b b1" and p1: "pending content b1 = ?e @ rest" and t1: "rb_TotalRead b1 = rb_TotalRead b"
    using f assms(4) by (simp_all add: fills_def)
  then have wf: "rb_wf b1" by (simp add: rb_good_def)
  have u: "unread b1 = take (length (unread b1)) (?e @ rest)" unfolding p1 [symmetric] by (simp add: pending_def)
  have "length ?e \<le> length (unread b1)"
  proof -
    consider "4 \<le> length (unread b1)" | "FullRune (unread b1)" | "rb_err b1 \<noteq> None"
      using st length_unread [OF wf] by (fastforce simp: UTFMax_def)
    then show ?thesis
    proof cases
      case 1
      with length_EncodeRune(2) [of r] show ?thesis by linarith
    next
      case 2
      with u have "FullRune (take (length (unread b1)) (?e @ rest))" by simp
      with FullRune_EncodeRune [OF assms(3)] show ?thesis by blast
    next
      case 3
      with g1 have "content (rb_rd b1) = []" by (auto simp: rb_good_def)
      then show ?thesis using p1 by (simp add: pending_def)
    qed
  qed
  then obtain xs where xs: "unread b1 = ?e @ xs" using u by (simp add: take_append)
  obtain c cs where c: "?e = c # cs" using length_EncodeRune(1) [of r] by (cases ?e) auto
  note dec = DecodeRune_EncodeRune [OF assms(3), of xs]
  have small: "uint c < RuneSelf \<Longrightarrow> (uint c, 1) = (r, length ?e)"
    using dec c by (simp add: DecodeRune_def first_byte_def RuneSelf_def word_less_alt)
  let ?n = "length ?e"
  have k: "int ?n \<le> rb_w b1 - rb_r b1" using length_unread [OF wf] xs by simp
  note adv = unread_advance [OF wf k]
  have ix: "go_index (rb_buf b1) (rb_r b1) = ret c" using unread_nth [OF wf, of 0] xs c by simp
  have "int ?n - 1 = int (?n - 1)" using c by simp
  then have ix2: "go_index (rb_buf b1) (rb_r b1 + int ?n - 1) = ret (unread b1 ! (?n - 1))"
    using unread_nth [OF wf, of "?n - 1"] xs c by (simp add: add_diff_eq [symmetric])
  have sl: "go_slice (rb_buf b1) (rb_r b1) (rb_w b1) = ret (unread b1)" using wf by (simp add: unread_def rb_wf_def)
  have ne: "rb_r b1 \<noteq> rb_w b1" using unread_Nil [OF wf] xs c by auto
  let ?b' = "b1\<lparr>rb_r := rb_r b1 + int ?n, rb_lastRuneSize := int ?n, rb_lastByte := uint (unread b1 ! (?n - 1)), rb_TotalRead := rb_TotalRead b1 + int ?n\<rparr>"
  have "Reader_ReadRune rd b = ret (r, int ?n, None, ?b')"
  proof (cases "uint c < RuneSelf")
    case True
    then have "uint c = r" "length ?e = 1" "unread b1 ! 0 = c" using small xs c by auto
    then show ?thesis using True l ne ix by (simp add: Reader_ReadRune_def Let_def)
  next
    case False
    then show ?thesis using l ne ix ix2 sl dec xs by (simp add: Reader_ReadRune_def Let_def)
  qed
  moreover have "pending content ?b' = rest" using adv(1) xs p1 by (simp add: pending_def)
  moreover have "seg (rb_buf b1) (rb_r b1) (rb_r b1 + int ?n) = ?e" using adv(2) xs by simp
  moreover have "good_b ?b'" using adv(3) g1 by (simp add: rb_good_def)
  ultimately show ?thesis using t1 wf by (intro exI [of _ ?b']) (simp add: rb_wf_def)
qed

lemma UnreadRune_spec:
  assumes "good_b b" "rb_lastRuneSize b = ilen e" "ilen e \<le> rb_r b" "e \<noteq> []" "ilen e \<le> rb_TotalRead b" "seg (rb_buf b) (rb_r b - ilen e) (rb_r b) = e"
  shows "\<exists>b'. Reader_UnreadRune b = (None, b') \<and> good_b b' \<and> pending content b' = e @ pending content b \<and> rb_TotalRead b' = rb_TotalRead b - ilen e"
proof -
  have wf: "rb_wf b" using assms(1) by (simp add: rb_good_def)
  let ?b' = "b\<lparr>rb_r := rb_r b - ilen e, rb_TotalRead := rb_TotalRead b - ilen e, rb_lastByte := - 1, rb_lastRuneSize := - 1\<rparr>"
  have "rb_r b \<noteq> 0" using assms(3,4) by (cases e) auto
  then have "Reader_UnreadRune b = (None, ?b')" using assms(2,3,5) by (simp add: Reader_UnreadRune_def)
  moreover have "unread ?b' = e @ unread b"
    using seg_append_seg [of "rb_r b - ilen e" "rb_r b" "rb_w b" "rb_buf b"] assms(3,6) wf by (simp add: unread_def rb_wf_def)
  moreover have "rb_wf ?b'" using wf assms(3) by (simp add: rb_wf_def)
  ultimately show ?thesis using assms(1) by (auto simp: rb_good_def pending_def)
qed

end

subsection \<open>WriteTo\<close>

lemma take_drop_split: "take k xs @ take j (drop k xs) = take (k + j) xs" "drop j (drop k xs) = drop (k + j) xs"
  by (simp add: take_add) (simp add: add.commute)

text \<open>
  A buffered reader that is drained into a sink.  \<open>busy\<close> is what \<^verbatim>\<open>WriteTo\<close> needs of its source beyond the contract of
  a stream: a read into a slice with room never gives nothing without an error, because \<^verbatim>\<open>WriteTo\<close> takes that for the
  end.
\<close>

locale buffered_drain = buffered rd content fin good left + sink: byte_sink wr sent usable
  for rd :: "'s reader_fn" and content fin good left and wr :: "'w writer_fn" and sent usable +
  assumes busy: "good s \<Longrightarrow> p \<noteq> [] \<Longrightarrow> rd s p \<noteq> ret (0, p', None, s')"
begin

lemma writeBuf_spec:
  assumes "good_b b" "usable w"
  shows "\<exists>k e b' w'. Reader_writeBuf wr b w = ret (int k, e, b', w') \<and> good_b b' \<and> usable w' \<and> sent w' = sent w @ take k (unread b) \<and>
    unread b' = drop k (unread b) \<and> rb_rd b' = rb_rd b \<and> rb_err b' = rb_err b \<and> k \<le> length (unread b) \<and> (e = None \<longrightarrow> k = length (unread b))"
proof -
  have wf: "rb_wf b" using assms(1) by (simp add: rb_good_def)
  from sink.write_spec [OF assms(2), of "unread b"] obtain k e w' where wr: "wr w (unread b) = ret (int k, e, w')" "usable w'"
    and k: "k \<le> length (unread b)" "sent w' = sent w @ take k (unread b)" "k < length (unread b) \<longrightarrow> e \<noteq> None"
    by (auto simp: write_step_def)
  have ki: "int k \<le> rb_w b - rb_r b" using k(1) length_unread [OF wf] by simp
  let ?b = "b\<lparr>rb_r := rb_r b + int k\<rparr>"
  let ?b' = "if 0 < k then ?b\<lparr>rb_TotalRead := rb_TotalRead b + int k\<rparr> else ?b"
  have "go_slice (rb_buf b) (rb_r b) (rb_w b) = ret (unread b)" using wf by (simp add: unread_def rb_wf_def)
  then have "Reader_writeBuf wr b w = ret (int k, e, ?b', w')" using wr by (simp add: Reader_writeBuf_def Let_def)
  moreover note unread_advance [OF wf ki]
  ultimately show ?thesis using wr k assms(1) by (intro exI [of _ k] exI [of _ e] exI [of _ ?b'] exI [of _ w']) (auto simp: rb_good_def)
qed

text \<open>A fill that leaves the buffer empty was at the end of the stream.\<close>

lemma fill_nothing:
  assumes "good_b b" "unread b = []" "Reader_fill rd b = ret b1" "unread b1 = []"
  shows "rb_err b1 = Some (fin (rb_rd b)) \<and> pending content b = []"
proof -
  have wf: "rb_wf b" using assms(1) by (simp add: rb_good_def)
  from fill_spec [OF assms(1)] assms(3) obtain k where f: "filled_by content fin good left b k b1"
    and r: "rb_err b1 = None \<and> length (unread b) < length (rb_buf b) \<longrightarrow> (\<exists>p p'. p \<noteq> [] \<and> rd (rb_rd b) p = ret (int k, p', None, rb_rd b1))" by auto
  have "k = 0" using filled_pending(2) [OF f] assms(4) by simp
  moreover have "length (unread b) < length (rb_buf b)" "good (rb_rd b)" using assms(1,2) by (auto simp: rb_good_def rb_wf_def)
  ultimately have "rb_err b1 \<noteq> None" using r busy [of "rb_rd b"] by fastforce
  then show ?thesis using f filled_pending(1) [OF f] assms(4) by (auto simp: filled_by_def rb_good_def pending_def)
qed

text \<open>
  What a drain of \<open>k\<close> bytes leaves: the bytes that went out are the first \<open>k\<close> pending ones, the others are still
  pending, and without an error there is none of them.
\<close>

lemma WriteTo_loop_spec:
  assumes "good_b b" "usable w" "unread b = []"
  shows "\<exists>k e b' w'. Reader_WriteTo_loop rd wr b w n = ret (n + int k, e, b', w') \<and> good_b b' \<and> usable w' \<and>
    sent w' = sent w @ take k (pending content b) \<and> pending content b' = drop k (pending content b) \<and> k \<le> length (pending content b) \<and>
    (e = None \<longrightarrow> k = length (pending content b) \<and> fin (rb_rd b) = EOF)"
  using assms
proof (induction "length (pending content b)" arbitrary: b w n rule: less_induct)
  case less
  obtain b1 where b1: "Reader_fill rd b = ret b1" "fills_b b b1" using fillE [OF less.prems(1)] by blast
  then have g1: "good_b b1" "pending content b1 = pending content b" "fin (rb_rd b1) = fin (rb_rd b)" by (simp_all add: fills_def)
  have wf1: "rb_wf b1" using g1(1) by (simp add: rb_good_def)
  have rw: "rb_r b1 < rb_w b1 \<longleftrightarrow> unread b1 \<noteq> []" using unread_Nil [OF wf1] wf1 by (auto simp: rb_wf_def)
  show ?case
  proof (cases "unread b1 = []")
    case True
    from fill_nothing [OF less.prems(1,3) b1(1) True] have e: "rb_err b1 = Some (fin (rb_rd b))" "pending content b = []" by simp_all
    let ?b' = "b1\<lparr>rb_err := None\<rparr>"
    have "Reader_WriteTo_loop rd wr b w n = ret (n + int 0, if fin (rb_rd b) = EOF then None else Some (fin (rb_rd b)), ?b', w)"
      using b1(1) rw True e(1) by (subst Reader_WriteTo_loop.simps) (simp add: Reader_readErr_def Let_def)
    moreover have "good_b ?b'" "pending content ?b' = []" using g1 e(2) by (simp_all add: rb_good_def pending_def)
    ultimately show ?thesis using e(2) less.prems(2)
      by (intro exI [of _ 0] exI [of _ "if fin (rb_rd b) = EOF then None else Some (fin (rb_rd b))"] exI [of _ ?b'] exI [of _ w]) simp
  next
    case False
    from writeBuf_spec [OF g1(1) less.prems(2)] obtain k e b2 w2 where wb: "Reader_writeBuf wr b1 w = ret (int k, e, b2, w2)"
      and g2: "good_b b2" "usable w2" "sent w2 = sent w @ take k (unread b1)" "unread b2 = drop k (unread b1)" "rb_rd b2 = rb_rd b1"
      "k \<le> length (unread b1)" "e = None \<longrightarrow> k = length (unread b1)" by blast
    have p2: "pending content b2 = drop k (pending content b)" "take k (unread b1) = take k (pending content b)" "k \<le> length (pending content b)"
      using g2 unfolding g1(2) [symmetric] by (simp_all add: pending_def)
    show ?thesis
    proof (cases "e = None")
      case e: False
      then have "Reader_WriteTo_loop rd wr b w n = ret (n + int k, e, b2, w2)"
        using b1(1) rw False wb by (subst Reader_WriteTo_loop.simps) simp
      then show ?thesis using g2 p2 e by (intro exI [of _ k] exI [of _ e] exI [of _ b2] exI [of _ w2]) auto
    next
      case True
      then have u2: "unread b2 = []" "k \<noteq> 0" using g2 False by simp_all
      then have lt: "length (pending content b2) < length (pending content b)" using p2 by simp
      from less.hyps [OF lt g2(1,2) u2(1), of "n + int k"] obtain j e' b' w' where
        "Reader_WriteTo_loop rd wr b2 w2 (n + int k) = ret (n + int k + int j, e', b', w')" "good_b b'" "usable w'"
        "sent w' = sent w2 @ take j (pending content b2)" "pending content b' = drop j (pending content b2)" "j \<le> length (pending content b2)"
        "e' = None \<longrightarrow> j = length (pending content b2) \<and> fin (rb_rd b2) = EOF" by blast
      moreover have "Reader_WriteTo_loop rd wr b w n = Reader_WriteTo_loop rd wr b2 w2 (n + int k)"
        using b1(1) rw False wb True by (subst Reader_WriteTo_loop.simps) simp
      ultimately show ?thesis using p2 g2(3,5) g1(3) take_drop_split [where k = k and j = j and xs = "pending content b"]
        by (intro exI [of _ "k + j"] exI [of _ e'] exI [of _ b'] exI [of _ w']) auto
    qed
  qed
qed

lemma WriteTo_spec:
  assumes "good_b b" "usable w"
  shows "\<exists>k e b' w'. Reader_WriteTo rd None wr b w = ret (int k, e, b', w') \<and> good_b b' \<and> usable w' \<and>
    sent w' = sent w @ take k (pending content b) \<and> pending content b' = drop k (pending content b) \<and> k \<le> length (pending content b) \<and>
    (e = None \<longrightarrow> k = length (pending content b) \<and> fin (rb_rd b) = EOF)"
proof -
  from writeBuf_spec [OF assms] obtain k e b2 w2 where wb: "Reader_writeBuf wr b w = ret (int k, e, b2, w2)"
    and g2: "good_b b2" "usable w2" "sent w2 = sent w @ take k (unread b)" "unread b2 = drop k (unread b)" "rb_rd b2 = rb_rd b"
    "k \<le> length (unread b)" "e = None \<longrightarrow> k = length (unread b)" by blast
  have p2: "pending content b2 = drop k (pending content b)" "take k (unread b) = take k (pending content b)" "k \<le> length (pending content b)"
    using g2 by (simp_all add: pending_def)
  show ?thesis
  proof (cases "e = None")
    case False
    then have "Reader_WriteTo rd None wr b w = ret (int k, e, b2, w2)" using wb by (simp add: Reader_WriteTo_def)
    then show ?thesis using g2 p2 False by (intro exI [of _ k] exI [of _ e] exI [of _ b2] exI [of _ w2]) auto
  next
    case True
    then have "unread b2 = []" using g2 by simp
    from WriteTo_loop_spec [OF g2(1,2) this, of "int k"] obtain j e' b' w' where
      "Reader_WriteTo_loop rd wr b2 w2 (int k) = ret (int k + int j, e', b', w')" "good_b b'" "usable w'"
      "sent w' = sent w2 @ take j (pending content b2)" "pending content b' = drop j (pending content b2)" "j \<le> length (pending content b2)"
      "e' = None \<longrightarrow> j = length (pending content b2) \<and> fin (rb_rd b2) = EOF" by blast
    moreover have "Reader_WriteTo rd None wr b w = Reader_WriteTo_loop rd wr b2 w2 (int k)" using wb True by (simp add: Reader_WriteTo_def)
    ultimately show ?thesis using p2 g2(3,5) take_drop_split [where k = k and j = j and xs = "pending content b"]
      by (intro exI [of _ "k + j"] exI [of _ e'] exI [of _ b'] exI [of _ w']) auto
  qed
qed

end

text \<open>A connection whose segments all have bytes.\<close>

interpretation tcp_drain: buffered_drain conn_Read conn_content c_fin "\<lambda>c. [] \<notin> set (c_in c)" conn_left conn_Write c_out "\<lambda>_. True"
proof
  show "\<exists>k p' e s'. conn_Read s p = ret (int k, p', e, s') \<and> [] \<notin> set (c_in s') \<and> read_step conn_content c_fin conn_left s p k p' e s'"
    if "[] \<notin> set (c_in s)" "p \<noteq> []" for s p
    using tcp.read_spec [of p s] that by (auto simp: conn_Read_def Let_def split: list.splits if_splits)
  show "\<exists>e s'. conn_Read s [] = ret (0, [], e, s') \<and> [] \<notin> set (c_in s') \<and> conn_content s' = conn_content s \<and> c_fin s' = c_fin s \<and>
      conn_left s' \<le> conn_left s \<and> (\<forall>x. e = Some x \<longrightarrow> x = c_fin s \<and> conn_content s' = [])" if "[] \<notin> set (c_in s)" for s
    using that by (simp add: conn_Read_def)
  show "conn_Read s p \<noteq> ret (0, p', None, s')" if "[] \<notin> set (c_in s)" "p \<noteq> []" for s p p' s'
    using that by (auto simp: conn_Read_def Let_def min_def split: list.splits)
qed

end
