(* ===== verification/Bufio_Writer.thy ===== *)
theory Bufio_Writer
  imports Go_IO Go_Utf8
begin

text \<open>
  \<^verbatim>\<open>Writer\<close> of \<^verbatim>\<open>m_bufio/bufio.go\<close>: a buffer behind which an \<^verbatim>\<open>io.Writer\<close> sits.  The first \<open>n\<close> bytes of \<open>buf\<close> wait to be
  written, and \<open>err\<close> is the first error of the underlying writer; it sticks.

  Over a \<open>byte_sink\<close> a \<^verbatim>\<open>Writer\<close> is a \<open>byte_sink\<close> again (locale \<open>write_buffered\<close>), whose output is what has been sent and what
  waits.
\<close>

record 'w Writer =
  wb_err :: "goerr option"
  wb_buf :: bytes
  wb_n :: int
  wb_wr :: 'w
  wb_TotalWrite :: int

definition defaultWriteSize :: int where "defaultWriteSize = 4096"

text \<open>
  The argument of \<^verbatim>\<open>NewWriterSize\<close> is a \<^verbatim>\<open>*Writer\<close> (\<open>Inl\<close>) or some other writer; the result is that writer itself or a new
  one in front of the argument.
\<close>

definition new_Writer :: "'v \<Rightarrow> int \<Rightarrow> 'v Writer" where
  "new_Writer w sz = \<lparr>wb_err = None, wb_buf = replicate (nat (if sz \<le> 0 then defaultWriteSize else sz)) 0, wb_n = 0, wb_wr = w, wb_TotalWrite = 0\<rparr>"

definition NewWriterSize :: "'w Writer + 'w \<Rightarrow> int \<Rightarrow> 'w Writer + ('w Writer + 'w) Writer" where
  "NewWriterSize w sz =
     (case w of
        Inl b \<Rightarrow> if sz \<le> ilen (wb_buf b) then Inl b else Inr (new_Writer w sz)
      | Inr _ \<Rightarrow> Inr (new_Writer w sz))"

definition NewWriter :: "'w Writer + 'w \<Rightarrow> 'w Writer + ('w Writer + 'w) Writer" where
  "NewWriter w = NewWriterSize w defaultWriteSize"

definition Writer_Reset :: "'v Writer \<Rightarrow> 'w \<Rightarrow> 'w Writer" where
  "Writer_Reset b w = \<lparr>wb_err = None, wb_buf = wb_buf b, wb_n = 0, wb_wr = w, wb_TotalWrite = 0\<rparr>"

definition Writer_flush :: "'w writer_fn \<Rightarrow> 'w Writer \<Rightarrow> (goerr option \<times> 'w Writer) go" where
  "Writer_flush wr b =
     (if wb_err b \<noteq> None then ret (wb_err b, b)
      else if wb_n b = 0 then ret (None, b)
      else
        gobind (go_slice (wb_buf b) 0 (wb_n b)) (\<lambda>p.
        gobind (wr (wb_wr b) p) (\<lambda>(n, err, w).
        let b = b\<lparr>wb_wr := w\<rparr>;
            err = (if n < wb_n b \<and> err = None then Some ErrShortWrite else err) in
        if err \<noteq> None then
          gobind
            (if 0 < n \<and> n < wb_n b then
               gobind (go_slice (wb_buf b) 0 (wb_n b - n)) (\<lambda>_.
               gobind (go_slice (wb_buf b) n (wb_n b)) (\<lambda>rest. ret (overwrite (wb_buf b) 0 rest)))
             else ret (wb_buf b)) (\<lambda>buf.
          ret (err, b\<lparr>wb_buf := buf, wb_n := wb_n b - n, wb_err := err\<rparr>))
        else ret (None, b\<lparr>wb_n := 0\<rparr>))))"

definition Writer_Flush :: "'w writer_fn \<Rightarrow> 'w Writer \<Rightarrow> (goerr option \<times> 'w Writer) go" where
  "Writer_Flush wr b = Writer_flush wr b"

definition Writer_Available :: "'w Writer \<Rightarrow> int" where
  "Writer_Available b = ilen (wb_buf b) - wb_n b"

definition Writer_Buffered :: "'w Writer \<Rightarrow> int" where
  "Writer_Buffered b = wb_n b"

text \<open>\<^verbatim>\<open>n = copy(b.buf[b.n:], p); b.n += n\<close>\<close>

definition Writer_append :: "'w Writer \<Rightarrow> bytes \<Rightarrow> (int \<times> 'w Writer) go" where
  "Writer_append b p =
     gobind (go_slice (wb_buf b) (wb_n b) (ilen (wb_buf b))) (\<lambda>_.
     let n = copy_len (wb_buf b) (wb_n b) p
     in ret (n, b\<lparr>wb_buf := overwrite (wb_buf b) (wb_n b) p, wb_n := wb_n b + n\<rparr>))"

partial_function (option) Writer_Write_loop :: "'w writer_fn \<Rightarrow> 'w Writer \<Rightarrow> bytes \<Rightarrow> int \<Rightarrow> (bytes \<times> int \<times> 'w Writer) go" where
  "Writer_Write_loop wr b p nn =
     (if Writer_Available b < ilen p \<and> wb_err b = None then
        gobind
          (if Writer_Buffered b = 0 then gobind (wr (wb_wr b) p) (\<lambda>(n, err, w). ret (n, b\<lparr>wb_wr := w, wb_err := err\<rparr>))
           else gobind (Writer_append b p) (\<lambda>(n, b). gobind (Writer_flush wr b) (\<lambda>(_, b). ret (n, b)))) (\<lambda>(n, b).
        gobind (go_slice p n (ilen p)) (\<lambda>p. Writer_Write_loop wr b p (nn + n)))
      else ret (p, nn, b))"

definition Writer_finish :: "'w Writer \<Rightarrow> bytes \<Rightarrow> int \<Rightarrow> (int \<times> goerr option \<times> 'w Writer) go" where
  "Writer_finish b p nn =
     (if wb_err b \<noteq> None then ret (nn, wb_err b, b\<lparr>wb_TotalWrite := wb_TotalWrite b + nn\<rparr>)
      else
        gobind (Writer_append b p) (\<lambda>(n, b).
        ret (nn + n, None, b\<lparr>wb_TotalWrite := wb_TotalWrite b + (nn + n)\<rparr>)))"

definition Writer_Write :: "'w writer_fn \<Rightarrow> 'w Writer writer_fn" where
  "Writer_Write wr b p = gobind (Writer_Write_loop wr b p 0) (\<lambda>(p, nn, b). Writer_finish b p nn)"

definition Writer_WriteByte :: "'w writer_fn \<Rightarrow> 'w Writer \<Rightarrow> byte \<Rightarrow> (goerr option \<times> 'w Writer) go" where
  "Writer_WriteByte wr b c =
     (if wb_err b \<noteq> None then ret (wb_err b, b)
      else
        gobind (if Writer_Available b \<le> 0 then Writer_flush wr b else ret (None, b)) (\<lambda>(err, b).
        if err \<noteq> None then ret (wb_err b, b)
        else
          gobind (go_store (wb_buf b) (wb_n b) c) (\<lambda>buf.
          ret (None, b\<lparr>wb_buf := buf, wb_n := wb_n b + 1, wb_TotalWrite := wb_TotalWrite b + 1\<rparr>))))"

partial_function (option) Writer_WriteString_loop :: "'w writer_fn \<Rightarrow> 'w Writer \<Rightarrow> bytes \<Rightarrow> int \<Rightarrow> (bytes \<times> int \<times> 'w Writer) go" where
  "Writer_WriteString_loop wr b s nn =
     (if Writer_Available b < ilen s \<and> wb_err b = None then
        gobind (Writer_append b s) (\<lambda>(n, b).
        gobind (go_slice s n (ilen s)) (\<lambda>s.
        gobind (Writer_flush wr b) (\<lambda>(_, b). Writer_WriteString_loop wr b s (nn + n))))
      else ret (s, nn, b))"

text \<open>The bytes of the string are what is written.\<close>

definition Writer_WriteString :: "'w writer_fn \<Rightarrow> 'w Writer \<Rightarrow> bytes \<Rightarrow> (int \<times> goerr option \<times> 'w Writer) go" where
  "Writer_WriteString wr b s = gobind (Writer_WriteString_loop wr b s 0) (\<lambda>(s, nn, b). Writer_finish b s nn)"

text \<open>\<^verbatim>\<open>utf8.EncodeRune\<close> into the buffer panics when the encoding does not fit.\<close>

definition Writer_WriteRune :: "'w writer_fn \<Rightarrow> 'w Writer \<Rightarrow> rune \<Rightarrow> (int \<times> goerr option \<times> 'w Writer) go" where
  "Writer_WriteRune wr b r =
     (if r < RuneSelf then
        gobind (Writer_WriteByte wr b (word_of_int r)) (\<lambda>(err, b). ret (if err \<noteq> None then 0 else 1, err, b))
      else if wb_err b \<noteq> None then ret (0, wb_err b, b)
      else
        gobind (if Writer_Available b < UTFMax then gobind (Writer_flush wr b) (\<lambda>(_, b). ret b) else ret b) (\<lambda>b'.
        if Writer_Available b < UTFMax \<and> wb_err b' \<noteq> None then ret (0, wb_err b', b')
        else if Writer_Available b < UTFMax \<and> Writer_Available b' < UTFMax then Writer_WriteString wr b' (EncodeRune r)
        else
          let sz = ilen (EncodeRune r) in
          gobind (go_slice (wb_buf b') (wb_n b') (ilen (wb_buf b'))) (\<lambda>room.
          if ilen room < sz then throw IndexBounds
          else ret (sz, None, b'\<lparr>wb_buf := overwrite (wb_buf b') (wb_n b') (EncodeRune r), wb_TotalWrite := wb_TotalWrite b' + sz, wb_n := wb_n b' + sz\<rparr>))))"

subsection \<open>ReadFrom\<close>

text \<open>The loop ends with an error of its own flush (\<open>Inl\<close>) or with what the last read gave (\<open>Inr\<close>).\<close>

partial_function (option) Writer_ReadFrom_loop ::
  "'w writer_fn \<Rightarrow> 's reader_fn \<Rightarrow> 'w Writer \<Rightarrow> 's \<Rightarrow> int \<Rightarrow> (int \<times> (goerr option + goerr option) \<times> 'w Writer \<times> 's) go" where
  "Writer_ReadFrom_loop wr rd b s n =
     gobind (if Writer_Available b = 0 then Writer_flush wr b else ret (None, b)) (\<lambda>(err1, b).
     if err1 \<noteq> None then ret (n, Inl err1, b, s)
     else
       gobind (go_slice (wb_buf b) (wb_n b) (ilen (wb_buf b))) (\<lambda>p.
       gobind (rd s p) (\<lambda>(m, p', err, s).
       let b = b\<lparr>wb_buf := overwrite (wb_buf b) (wb_n b) p'\<rparr> in
       if m = 0 then ret (n, Inr err, b, s)
       else
         let b = b\<lparr>wb_n := wb_n b + m\<rparr> in
         if err \<noteq> None then ret (n + m, Inr err, b, s) else Writer_ReadFrom_loop wr rd b s (n + m))))"

text \<open>\<open>rf\<close> is the \<^verbatim>\<open>ReadFrom\<close> method of the underlying writer, when it has one.\<close>

definition Writer_ReadFrom ::
  "'w writer_fn \<Rightarrow> ('w \<Rightarrow> 's \<Rightarrow> (int \<times> goerr option \<times> 'w \<times> 's) go) option \<Rightarrow> 's reader_fn \<Rightarrow> 'w Writer \<Rightarrow> 's \<Rightarrow>
   (int \<times> goerr option \<times> 'w Writer \<times> 's) go" where
  "Writer_ReadFrom wr rf rd b s =
     (case (if Writer_Buffered b = 0 then rf else None) of
        Some f \<Rightarrow>
          gobind (f (wb_wr b) s) (\<lambda>(n, err, w, s).
          ret (n, err, b\<lparr>wb_wr := w, wb_TotalWrite := wb_TotalWrite b + n\<rparr>, s))
      | None \<Rightarrow>
          gobind (Writer_ReadFrom_loop wr rd b s 0) (\<lambda>(n, end, b, s).
          case end of
            Inl err1 \<Rightarrow> ret (n, err1, b, s)
          | Inr err \<Rightarrow>
              gobind
                (if err = Some EOF then (if Writer_Available b = 0 then Writer_flush wr b else ret (None, b)) else ret (err, b)) (\<lambda>(err, b).
              ret (n, err, b\<lparr>wb_TotalWrite := wb_TotalWrite b + n\<rparr>, s))))"

subsection \<open>The invariant, and what has been accepted\<close>

definition wb_wf :: "('w \<Rightarrow> bool) \<Rightarrow> 'w Writer \<Rightarrow> bool" where
  "wb_wf usable b \<longleftrightarrow> usable (wb_wr b) \<and> 0 \<le> wb_n b \<and> wb_n b \<le> ilen (wb_buf b) \<and> wb_buf b \<noteq> []"

definition waiting :: "'w Writer \<Rightarrow> bytes" where
  "waiting b = take (nat (wb_n b)) (wb_buf b)"

definition accepted :: "('w \<Rightarrow> bytes) \<Rightarrow> 'w Writer \<Rightarrow> bytes" where
  "accepted sent b = sent (wb_wr b) @ waiting b"

lemma length_waiting: "wb_wf usable b \<Longrightarrow> ilen (waiting b) = wb_n b"
  by (auto simp: wb_wf_def waiting_def)

lemma wb_TotalWrite_simps [simp]:
  "wb_wf usable (b\<lparr>wb_TotalWrite := t\<rparr>) = wb_wf usable b" "waiting (b\<lparr>wb_TotalWrite := t\<rparr>) = waiting b"
  by (simp_all add: wb_wf_def waiting_def)

text \<open>What no operation but \<^verbatim>\<open>Reset\<close> changes.\<close>

definition wb_same :: "'w Writer \<Rightarrow> 'w Writer \<Rightarrow> bool" where
  "wb_same b b' \<longleftrightarrow> length (wb_buf b') = length (wb_buf b) \<and> wb_TotalWrite b' = wb_TotalWrite b"

lemma Writer_append_spec:
  assumes "wb_wf usable b"
  shows "\<exists>k b'. Writer_append b p = ret (int k, b') \<and> wb_wf usable b' \<and> waiting b' = waiting b @ take k p \<and> wb_wr b' = wb_wr b \<and>
    wb_err b' = wb_err b \<and> wb_same b b' \<and> k \<le> length p \<and> int k = min (Writer_Available b) (ilen p) \<and> wb_n b' = wb_n b + int k"
proof -
  let ?k = "min (length (wb_buf b) - nat (wb_n b)) (length p)"
  have n: "0 \<le> wb_n b" "nat (wb_n b) \<le> length (wb_buf b)" using assms by (simp_all add: wb_wf_def nat_le_iff)
  then have k: "copy_len (wb_buf b) (wb_n b) p = int ?k" by (simp add: copy_len_def of_nat_diff)
  let ?b' = "b\<lparr>wb_buf := overwrite (wb_buf b) (wb_n b) p, wb_n := wb_n b + int ?k\<rparr>"
  have lb: "length (overwrite (wb_buf b) (wb_n b) p) = length (wb_buf b)" using assms by (simp add: wb_wf_def)
  have "Writer_append b p = ret (int ?k, ?b')" using assms k by (simp add: Writer_append_def Let_def wb_wf_def)
  moreover have "waiting ?b' = waiting b @ take ?k p"
    using n by (simp add: waiting_def overwrite_def nat_add_distrib min_def)
  moreover have "wb_wf usable ?b'" using assms lb n by (auto simp: wb_wf_def simp flip: length_greater_0_conv)
  ultimately show ?thesis using lb n by (intro exI [of _ ?k] exI [of _ ?b']) (simp add: wb_same_def Writer_Available_def of_nat_diff)
qed

locale write_buffered = byte_sink wr sent usable
  for wr :: "'w writer_fn" and sent :: "'w \<Rightarrow> bytes" and usable :: "'w \<Rightarrow> bool"
begin

abbreviation wf_b :: "'w Writer \<Rightarrow> bool" where
  "wf_b \<equiv> wb_wf usable"

text \<open>\<open>flush\<close> sends what waits; what it could not send still waits, and the error sticks.\<close>

lemma flush_spec:
  assumes "wf_b b"
  shows "\<exists>b'. Writer_flush wr b = ret (wb_err b', b') \<and> wf_b b' \<and> accepted sent b' = accepted sent b \<and> wb_same b b' \<and> (wb_err b' = None \<longrightarrow> wb_n b' = 0)"
proof (cases "wb_err b = None \<and> wb_n b \<noteq> 0")
  case False
  then show ?thesis using assms by (auto simp: Writer_flush_def wb_same_def)
next
  case True
  have u: "usable (wb_wr b)" and n: "0 < wb_n b" "wb_n b \<le> ilen (wb_buf b)" using assms True by (auto simp: wb_wf_def)
  from write_spec [OF u, of "waiting b"] obtain k e w' where wr: "wr (wb_wr b) (waiting b) = ret (int k, e, w')" and w': "usable w'"
    and k: "k \<le> length (waiting b)" "sent w' = sent (wb_wr b) @ take k (waiting b)" "k < length (waiting b) \<longrightarrow> e \<noteq> None"
    by (auto simp: write_step_def)
  have lw: "ilen (waiting b) = wb_n b" using length_waiting [OF assms] .
  have p: "go_slice (wb_buf b) 0 (wb_n b) = ret (waiting b)" using n by (simp add: waiting_def seg_0)
  have e1: "(if int k < wb_n b \<and> e = None then Some ErrShortWrite else e) = e" using k lw by auto
  show ?thesis
  proof (cases "e = None")
    case none: True
    then have "Writer_flush wr b = ret (None, b\<lparr>wb_wr := w', wb_n := 0\<rparr>)"
      using True p wr e1 k lw by (simp add: Writer_flush_def Let_def)
    moreover have "take k (waiting b) = waiting b" using k none by simp
    ultimately show ?thesis using True w' k(2) n assms
      by (intro exI [of _ "b\<lparr>wb_wr := w', wb_n := 0\<rparr>"]) (simp add: accepted_def waiting_def wb_wf_def wb_same_def)
  next
    case False
    let ?rest = "drop k (waiting b)"
    define buf where "buf = (if 0 < k \<and> int k < wb_n b then overwrite (wb_buf b) 0 ?rest else wb_buf b)"
    let ?b' = "b\<lparr>wb_wr := w', wb_buf := buf, wb_n := wb_n b - int k, wb_err := e\<rparr>"
    have "seg (wb_buf b) (int k) (wb_n b) = ?rest" using n seg_nat [of "wb_buf b" k "nat (wb_n b)"] by (simp add: waiting_def)
    then have "Writer_flush wr b = ret (e, ?b')"
      using True False p wr e1 k(1) lw n by (simp add: Writer_flush_def Let_def buf_def)
    moreover have "take (nat (wb_n b - int k)) buf = ?rest"
      using k(1) lw n by (auto simp: buf_def take_overwrite_0 waiting_def overwrite_def nat_diff_distrib)
    moreover have "length buf = length (wb_buf b)" by (simp add: buf_def)
    moreover from this have "buf \<noteq> []" using assms by (metis length_0_conv wb_wf_def)
    moreover from calculation(2) have "accepted sent ?b' = accepted sent b"
      using k(2) by (simp add: accepted_def waiting_def [of ?b'])
    moreover have "int k \<le> wb_n b" using k(1) lw by simp
    ultimately show ?thesis using w' n False by (intro exI [of _ ?b']) (auto simp: wb_wf_def wb_same_def)
  qed
qed

text \<open>An encoding fits where four bytes do.\<close>

definition put_rune :: "'w Writer \<Rightarrow> rune \<Rightarrow> 'w Writer" where
  "put_rune b r = b\<lparr>wb_buf := overwrite (wb_buf b) (wb_n b) (EncodeRune r), wb_TotalWrite := wb_TotalWrite b + ilen (EncodeRune r),
     wb_n := wb_n b + ilen (EncodeRune r)\<rparr>"

lemma encode_room:
  assumes "wf_b b" "UTFMax \<le> Writer_Available b"
  shows "\<exists>room. go_slice (wb_buf b) (wb_n b) (ilen (wb_buf b)) = ret room \<and> ilen (EncodeRune r) \<le> ilen room"
  using assms length_EncodeRune(2) [of r] by (auto simp: wb_wf_def UTFMax_def Writer_Available_def length_seg)

lemma put_rune_spec:
  assumes "wf_b b" "UTFMax \<le> Writer_Available b"
  shows "wf_b (put_rune b r)" "accepted sent (put_rune b r) = accepted sent b @ EncodeRune r" "wb_err (put_rune b r) = wb_err b"
proof -
  let ?e = "EncodeRune r"
  have n: "0 \<le> wb_n b" "nat (wb_n b) + length ?e \<le> length (wb_buf b)"
    using assms length_EncodeRune(2) [of r] unfolding wb_wf_def UTFMax_def Writer_Available_def by linarith+
  then have "waiting (put_rune b r) = waiting b @ ?e" by (auto simp: waiting_def put_rune_def overwrite_def nat_add_distrib)
  then show "accepted sent (put_rune b r) = accepted sent b @ ?e" by (simp add: accepted_def) (simp add: put_rune_def)
  have lb: "length (overwrite (wb_buf b) (wb_n b) ?e) = length (wb_buf b)" using assms(1) by (simp add: wb_wf_def)
  then have "overwrite (wb_buf b) (wb_n b) ?e \<noteq> []" using assms(1) by (metis length_0_conv wb_wf_def)
  then show "wf_b (put_rune b r)" using assms(1) n lb by (simp add: wb_wf_def put_rune_def)
qed (simp add: put_rune_def)

text \<open>
  The loop of \<^verbatim>\<open>Write\<close> and of \<^verbatim>\<open>WriteString\<close>: as long as the rest does not fit and no error came, a step takes a prefix of it.
  A step that takes nothing empties the buffer, so the loop ends.
\<close>

definition taken :: "'w Writer \<Rightarrow> bytes \<Rightarrow> nat \<Rightarrow> 'w Writer \<Rightarrow> bool" where
  "taken b p k b' \<longleftrightarrow> k \<le> length p \<and> wf_b b' \<and> accepted sent b' = accepted sent b @ take k p \<and> wb_same b b'"

lemma taken_trans:
  assumes "taken b p j b1" "taken b1 (drop j p) k b2"
  shows "taken b p (j + k) b2"
  using assms by (auto simp: taken_def wb_same_def take_add)

lemma accept_loop:
  assumes F: "\<And>b p nn. wf_b b \<Longrightarrow> F b p nn = (if Writer_Available b < ilen p \<and> wb_err b = None
        then gobind (step b p) (\<lambda>(n, b). gobind (go_slice p n (ilen p)) (\<lambda>p. F b p (nn + n))) else ret (p, nn, b))"
    and step: "\<And>b p. wf_b b \<Longrightarrow> Writer_Available b < ilen p \<Longrightarrow> wb_err b = None \<Longrightarrow>
        \<exists>k b1. step b p = ret (int k, b1) \<and> taken b p k b1 \<and> (wb_err b1 = None \<longrightarrow> wb_n b1 = 0 \<and> (k = 0 \<longrightarrow> wb_n b \<noteq> 0))"
    and "wf_b b"
  shows "\<exists>k b'. F b p nn = ret (drop k p, nn + int k, b') \<and> taken b p k b' \<and> (wb_err b' = None \<longrightarrow> ilen (drop k p) \<le> Writer_Available b')"
  using assms(3)
proof (induction "2 * length p + (if wb_n b = 0 then 0 else 1)" arbitrary: b p nn rule: less_induct)
  case less
  show ?case
  proof (cases "Writer_Available b < ilen p \<and> wb_err b = None")
    case False
    then have "F b p nn = ret (drop 0 p, nn + int 0, b)" by (subst F [OF less.prems]) auto
    moreover have "taken b p 0 b" using less.prems by (simp add: taken_def wb_same_def)
    ultimately show ?thesis using False by (intro exI [of _ 0] exI [of _ b]) auto
  next
    case True
    from step [OF less.prems conjunct1 [OF True] conjunct2 [OF True]] obtain j b1 where st: "step b p = ret (int j, b1)" "taken b p j b1"
      "wb_err b1 = None \<longrightarrow> wb_n b1 = 0 \<and> (j = 0 \<longrightarrow> wb_n b \<noteq> 0)" by (elim exE conjE) (rule that)
    have j: "j \<le> length p" "wf_b b1" using st(2) by (simp_all add: taken_def)
    have Fb: "F b p nn = F b1 (drop j p) (nn + int j)" using True st(1) j(1) by (subst F [OF less.prems]) (simp add: seg_to_end)
    show ?thesis
    proof (cases "wb_err b1 = None")
      case None: True
      then have "2 * length (drop j p) + (if wb_n b1 = 0 then 0 else 1) < 2 * length p + (if wb_n b = 0 then 0 else 1)"
        using st(3) j(1) True by (cases "j = 0") auto
      from less.hyps [OF this j(2), of "nn + int j"] obtain k b' where "F b1 (drop j p) (nn + int j) = ret (drop k (drop j p), nn + int j + int k, b')"
        "taken b1 (drop j p) k b'" "wb_err b' = None \<longrightarrow> ilen (drop k (drop j p)) \<le> Writer_Available b'" by (elim exE conjE) (rule that)
      then show ?thesis using Fb taken_trans [OF st(2), of k b']
        by (intro exI [of _ "j + k"] exI [of _ b']) (simp add: add.commute add.left_commute)
    next
      case False
      then have "F b p nn = ret (drop j p, nn + int j, b1)" unfolding Fb by (subst F [OF j(2)]) auto
      then show ?thesis using st(2) False by (intro exI [of _ j] exI [of _ b1]) auto
    qed
  qed
qed

text \<open>Both loops put as much as fits into the buffer and flush it.\<close>

lemma append_flush:
  assumes "wf_b b" "Writer_Available b < ilen p"
  shows "\<exists>k b1 b2. Writer_append b p = ret (int k, b1) \<and> Writer_flush wr b1 = ret (wb_err b2, b2) \<and> taken b p k b2 \<and> int k \<le> ilen p \<and>
    (wb_err b2 = None \<longrightarrow> wb_n b2 = 0 \<and> (k = 0 \<longrightarrow> wb_n b \<noteq> 0))"
proof -
  from Writer_append_spec [OF assms(1), of p] obtain k b1 where a: "Writer_append b p = ret (int k, b1)" "wf_b b1" "waiting b1 = waiting b @ take k p"
    "wb_wr b1 = wb_wr b" "wb_same b b1" "k \<le> length p" "int k = min (Writer_Available b) (ilen p)" by blast
  from flush_spec [OF a(2)] obtain b2 where f: "Writer_flush wr b1 = ret (wb_err b2, b2)" "wf_b b2" "accepted sent b2 = accepted sent b1"
    "wb_same b1 b2" "wb_err b2 = None \<longrightarrow> wb_n b2 = 0" by (elim exE conjE) (rule that)
  have "int k = ilen (wb_buf b) - wb_n b" using a(7) assms(2) by (simp add: Writer_Available_def)
  moreover have "0 < ilen (wb_buf b)" using assms(1) by (simp add: wb_wf_def)
  ultimately have "k = 0 \<longrightarrow> wb_n b \<noteq> 0" by linarith
  moreover have "taken b p k b2" using a f by (simp add: taken_def accepted_def wb_same_def)
  ultimately show ?thesis using a(1,6) f(1,5) by auto
qed

lemma Write_loop_spec:
  assumes "wf_b b"
  shows "\<exists>k b'. Writer_Write_loop wr b p nn = ret (drop k p, nn + int k, b') \<and> taken b p k b' \<and> (wb_err b' = None \<longrightarrow> ilen (drop k p) \<le> Writer_Available b')"
proof (rule accept_loop [OF _ _ assms])
  let ?step = "\<lambda>b p. if Writer_Buffered b = 0 then gobind (wr (wb_wr b) p) (\<lambda>(n, err, w). ret (n, b\<lparr>wb_wr := w, wb_err := err\<rparr>))
           else gobind (Writer_append b p) (\<lambda>(n, b). gobind (Writer_flush wr b) (\<lambda>(_, b). ret (n, b)))"
  show "Writer_Write_loop wr b p nn = (if Writer_Available b < ilen p \<and> wb_err b = None
      then gobind (?step b p) (\<lambda>(n, b). gobind (go_slice p n (ilen p)) (\<lambda>p. Writer_Write_loop wr b p (nn + n))) else ret (p, nn, b))" for b p nn
    by (rule Writer_Write_loop.simps)
  show "\<exists>k b1. ?step b p = ret (int k, b1) \<and> taken b p k b1 \<and> (wb_err b1 = None \<longrightarrow> wb_n b1 = 0 \<and> (k = 0 \<longrightarrow> wb_n b \<noteq> 0))"
    if b: "wf_b b" "Writer_Available b < ilen p" "wb_err b = None" for b p
  proof (cases "Writer_Buffered b = 0")
    case False
    then show ?thesis using append_flush [OF b(1,2)] by auto
  next
    case True
    have u: "usable (wb_wr b)" using b(1) by (simp add: wb_wf_def)
    from write_spec [OF u, of p] obtain k e w' where w: "wr (wb_wr b) p = ret (int k, e, w')" "usable w'" "write_step sent (wb_wr b) p k e w'" by blast
    have "wb_n b = 0" using True by (simp add: Writer_Buffered_def)
    moreover have "taken b p k (b\<lparr>wb_wr := w', wb_err := e\<rparr>)"
      using w(2,3) b(1) calculation by (simp add: taken_def write_step_def wb_wf_def accepted_def waiting_def wb_same_def)
    moreover have "e = None \<longrightarrow> k \<noteq> 0" using w(3) b by (auto simp: write_step_def Writer_Available_def wb_wf_def)
    ultimately show ?thesis using True w(1) by (intro exI [of _ k] exI [of _ "b\<lparr>wb_wr := w', wb_err := e\<rparr>"]) auto
  qed
qed

lemma WriteString_loop_spec:
  assumes "wf_b b"
  shows "\<exists>k b'. Writer_WriteString_loop wr b p nn = ret (drop k p, nn + int k, b') \<and> taken b p k b' \<and> (wb_err b' = None \<longrightarrow> ilen (drop k p) \<le> Writer_Available b')"
proof (rule accept_loop [OF _ _ assms])
  let ?step = "\<lambda>b p. gobind (Writer_append b p) (\<lambda>(n, b). gobind (Writer_flush wr b) (\<lambda>(_, b). ret (n, b)))"
  show "Writer_WriteString_loop wr b p nn = (if Writer_Available b < ilen p \<and> wb_err b = None
      then gobind (?step b p) (\<lambda>(n, b). gobind (go_slice p n (ilen p)) (\<lambda>p. Writer_WriteString_loop wr b p (nn + n))) else ret (p, nn, b))"
    if "wf_b b" for b p nn
  proof (cases "Writer_Available b < ilen p \<and> wb_err b = None")
    case True
    with append_flush [OF that, of p] obtain k b1 b2 where "Writer_append b p = ret (int k, b1)" "Writer_flush wr b1 = ret (wb_err b2, b2)" "int k \<le> ilen p"
      by blast
    with True show ?thesis by (subst Writer_WriteString_loop.simps) simp
  qed (subst Writer_WriteString_loop.simps, auto)
  show "\<exists>k b1. ?step b p = ret (int k, b1) \<and> taken b p k b1 \<and> (wb_err b1 = None \<longrightarrow> wb_n b1 = 0 \<and> (k = 0 \<longrightarrow> wb_n b \<noteq> 0))"
    if "wf_b b" "Writer_Available b < ilen p" for b p
    using append_flush [OF that] by auto
qed

lemma finish_spec:
  assumes "taken b p j b1" "wb_err b1 = None \<longrightarrow> ilen (drop j p) \<le> Writer_Available b1"
  shows "\<exists>k e b'. Writer_finish b1 (drop j p) (int j) = ret (int k, e, b') \<and> wf_b b' \<and> write_step (accepted sent) b p k e b' \<and> e = wb_err b' \<and>
    wb_TotalWrite b' = wb_TotalWrite b + int k \<and> length (wb_buf b') = length (wb_buf b)"
proof (cases "wb_err b1 = None")
  case False
  then show ?thesis using assms(1)
    by (intro exI [of _ j] exI [of _ "wb_err b1"] exI [of _ "b1\<lparr>wb_TotalWrite := wb_TotalWrite b1 + int j\<rparr>"])
      (auto simp: Writer_finish_def taken_def write_step_def accepted_def wb_same_def)
next
  case True
  have wf1: "wf_b b1" using assms(1) by (simp add: taken_def)
  from Writer_append_spec [OF wf1, of "drop j p"] obtain k b2 where a: "Writer_append b1 (drop j p) = ret (int k, b2)" "wf_b b2"
    "waiting b2 = waiting b1 @ take k (drop j p)" "wb_wr b2 = wb_wr b1" "wb_err b2 = wb_err b1" "wb_same b1 b2"
    "int k = min (Writer_Available b1) (ilen (drop j p))" by blast
  have k: "k = length (drop j p)" using a(7) assms(2) True by auto
  let ?b' = "b2\<lparr>wb_TotalWrite := wb_TotalWrite b2 + (int j + int k)\<rparr>"
  have jk: "j + k = length p" using k assms(1) by (simp add: taken_def)
  have "accepted sent ?b' = accepted sent b1 @ drop j p" using a(3,4) k by (simp add: accepted_def)
  then have "accepted sent ?b' = accepted sent b @ p" using assms(1) by (simp add: taken_def)
  moreover have "Writer_finish b1 (drop j p) (int j) = ret (int (j + k), None, ?b')" using True a(1) by (simp add: Writer_finish_def)
  ultimately show ?thesis using a(2,5,6) assms(1) True jk
    by (intro exI [of _ "j + k"] exI [of _ None] exI [of _ ?b']) (simp add: write_step_def taken_def wb_same_def)
qed

lemma Write_spec:
  assumes "wf_b b"
  shows "\<exists>k e b'. Writer_Write wr b p = ret (int k, e, b') \<and> wf_b b' \<and> write_step (accepted sent) b p k e b' \<and> e = wb_err b' \<and>
    wb_TotalWrite b' = wb_TotalWrite b + int k \<and> length (wb_buf b') = length (wb_buf b)"
proof -
  from Write_loop_spec [OF assms, of p 0] obtain j b1 where "Writer_Write_loop wr b p 0 = ret (drop j p, int j, b1)"
    and t: "taken b p j b1" "wb_err b1 = None \<longrightarrow> ilen (drop j p) \<le> Writer_Available b1" by auto
  then show ?thesis using finish_spec [OF t] by (simp add: Writer_Write_def)
qed

lemma WriteString_spec:
  assumes "wf_b b"
  shows "\<exists>k e b'. Writer_WriteString wr b p = ret (int k, e, b') \<and> wf_b b' \<and> write_step (accepted sent) b p k e b' \<and> e = wb_err b' \<and>
    wb_TotalWrite b' = wb_TotalWrite b + int k \<and> length (wb_buf b') = length (wb_buf b)"
proof -
  from WriteString_loop_spec [OF assms, of p 0] obtain j b1 where "Writer_WriteString_loop wr b p 0 = ret (drop j p, int j, b1)"
    and t: "taken b p j b1" "wb_err b1 = None \<longrightarrow> ilen (drop j p) \<le> Writer_Available b1" by auto
  then show ?thesis using finish_spec [OF t] by (simp add: Writer_WriteString_def)
qed

lemma WriteByte_spec:
  assumes "wf_b b"
  shows "\<exists>e b'. Writer_WriteByte wr b c = ret (e, b') \<and> wf_b b' \<and> e = wb_err b' \<and>
    accepted sent b' = accepted sent b @ (if e = None then [c] else []) \<and>
    (e = None \<longrightarrow> wb_TotalWrite b' = wb_TotalWrite b + 1)"
proof (cases "wb_err b = None")
  case False
  then show ?thesis using assms by (auto simp: Writer_WriteByte_def)
next
  case True
  from flush_spec [OF assms] obtain b2 where f: "Writer_flush wr b = ret (wb_err b2, b2)" "wf_b b2" "accepted sent b2 = accepted sent b" "wb_same b b2"
    "wb_err b2 = None \<longrightarrow> wb_n b2 = 0" by (elim exE conjE) (rule that)
  define b1 where "b1 = (if Writer_Available b \<le> 0 then b2 else b)"
  have b1: "(if Writer_Available b \<le> 0 then Writer_flush wr b else ret (None, b)) = ret (wb_err b1, b1)" "wf_b b1" "accepted sent b1 = accepted sent b"
    "wb_TotalWrite b1 = wb_TotalWrite b" "wb_err b1 = None \<longrightarrow> wb_n b1 < ilen (wb_buf b1)"
    using f assms True by (auto simp: b1_def wb_same_def Writer_Available_def wb_wf_def)
  show ?thesis
  proof (cases "wb_err b1 = None")
    case False
    then show ?thesis using True b1 by (auto simp: Writer_WriteByte_def)
  next
    case ok: True
    let ?b' = "b1\<lparr>wb_buf := (wb_buf b1)[nat (wb_n b1) := c], wb_n := wb_n b1 + 1, wb_TotalWrite := wb_TotalWrite b1 + 1\<rparr>"
    have n: "0 \<le> wb_n b1" "wb_n b1 < ilen (wb_buf b1)" using b1 ok by (simp_all add: wb_wf_def)
    then have "Writer_WriteByte wr b c = ret (None, ?b')" using True b1(1) ok by (simp add: Writer_WriteByte_def)
    moreover have "waiting ?b' = waiting b1 @ [c]" using n by (simp add: waiting_def nat_add_distrib take_Suc_conv_app_nth nat_less_iff)
    moreover have "wf_b ?b'" using b1(2) n by (simp add: wb_wf_def)
    ultimately show ?thesis using b1(3,4) ok by (intro exI [of _ None] exI [of _ ?b']) (simp add: accepted_def)
  qed
qed

text \<open>\<^verbatim>\<open>WriteRune\<close> writes the encoding of the rune, through the buffer or, when the buffer is smaller than an encoding, through \<^verbatim>\<open>WriteString\<close>.\<close>

lemma WriteRune_spec:
  assumes "wf_b b" "0 \<le> r"
  shows "\<exists>k e b'. Writer_WriteRune wr b r = ret (int k, e, b') \<and> wf_b b' \<and> e = wb_err b' \<and>
    accepted sent b' = accepted sent b @ take k (EncodeRune r) \<and> k \<le> length (EncodeRune r) \<and> (e = None \<longrightarrow> k = length (EncodeRune r))"
proof -
  consider (ascii) "r < RuneSelf" | (err) "RuneSelf \<le> r" "wb_err b \<noteq> None" | (fits) "RuneSelf \<le> r" "wb_err b = None" "UTFMax \<le> Writer_Available b"
    | (flush) "RuneSelf \<le> r" "wb_err b = None" "Writer_Available b < UTFMax" by linarith
  then show ?thesis
  proof cases
    case ascii
    then have enc: "EncodeRune r = [word_of_int r]" using assms(2) by (simp add: EncodeRune_def RuneSelf_def)
    from WriteByte_spec [OF assms(1), of "word_of_int r"] obtain e b' where
      "Writer_WriteByte wr b (word_of_int r) = ret (e, b')" "wf_b b'" "e = wb_err b'"
      "accepted sent b' = accepted sent b @ (if e = None then [word_of_int r] else [])" by blast
    then show ?thesis using ascii enc
      by (intro exI [of _ "if e = None then 1 else 0"] exI [of _ e] exI [of _ b']) (auto simp: Writer_WriteRune_def)
  next
    case err
    then show ?thesis using assms by (intro exI [of _ 0] exI [of _ "wb_err b"] exI [of _ b]) (auto simp: Writer_WriteRune_def)
  next
    case fits
    then have "Writer_WriteRune wr b r = ret (ilen (EncodeRune r), None, put_rune b r)"
      using encode_room [OF assms(1) fits(3), of r] by (auto simp: Writer_WriteRune_def put_rune_def Let_def)
    then show ?thesis using put_rune_spec [OF assms(1) fits(3)] fits(2)
      by (intro exI [of _ "length (EncodeRune r)"] exI [of _ None] exI [of _ "put_rune b r"]) simp
  next
    case flush
    from flush_spec [OF assms(1)] obtain b2 where f: "Writer_flush wr b = ret (wb_err b2, b2)" "wf_b b2" "accepted sent b2 = accepted sent b"
      "wb_same b b2" "wb_err b2 = None \<longrightarrow> wb_n b2 = 0" by (elim exE conjE) (rule that)
    consider "wb_err b2 \<noteq> None" | (small) "wb_err b2 = None" "Writer_Available b2 < UTFMax" | (room) "wb_err b2 = None" "UTFMax \<le> Writer_Available b2" by linarith
    then show ?thesis
    proof cases
      case 1
      then show ?thesis using flush f by (intro exI [of _ 0] exI [of _ "wb_err b2"] exI [of _ b2]) (auto simp: Writer_WriteRune_def)
    next
      case small
      then have "Writer_WriteRune wr b r = Writer_WriteString wr b2 (EncodeRune r)" using flush f by (simp add: Writer_WriteRune_def)
      then show ?thesis using WriteString_spec [OF f(2), of "EncodeRune r"] f(3) by (fastforce simp: write_step_def)
    next
      case room
      then have "Writer_WriteRune wr b r = ret (ilen (EncodeRune r), None, put_rune b2 r)"
        using flush f(1) encode_room [OF f(2) room(2), of r] by (auto simp: Writer_WriteRune_def put_rune_def Let_def)
      then show ?thesis using put_rune_spec [OF f(2) room(2)] room(1) f(3)
        by (intro exI [of _ "length (EncodeRune r)"] exI [of _ None] exI [of _ "put_rune b2 r"]) simp
    qed
  qed
qed

end

sublocale write_buffered \<subseteq> wbuf: byte_sink "Writer_Write wr" "accepted sent" "wb_wf usable"
  using Write_spec by unfold_locales blast

interpretation tcp_wbuf: write_buffered conn_Write c_out "\<lambda>_. True"
  by unfold_locales

subsection \<open>ReadFrom\<close>

text \<open>
  A writer that copies a source.  As with the other copying loops, a source that gives nothing without an error would be
  taken for one that has ended.
\<close>

locale write_buffered_copy = write_buffered wr sent usable + src: stream_reader rd content fin good left
  for wr :: "'w writer_fn" and sent usable and rd :: "'s reader_fn" and content fin good left +
  assumes busy: "good s \<Longrightarrow> p \<noteq> [] \<Longrightarrow> rd s p \<noteq> ret (0, p', None, s')"
begin

text \<open>One read of the source into the free part of the buffer.\<close>

lemma read_into:
  assumes "wf_b b" "Writer_Available b \<noteq> 0" "good s"
  shows "\<exists>p k p' e s' b'. go_slice (wb_buf b) (wb_n b) (ilen (wb_buf b)) = ret p \<and> rd s p = ret (int k, p', e, s') \<and> good s' \<and>
    content s = take k (content s) @ content s' \<and> k \<le> length (content s) \<and> fin s' = fin s \<and> (e = None \<longrightarrow> left s' < left s \<and> k \<noteq> 0) \<and>
    (\<forall>x. e = Some x \<longrightarrow> x = fin s \<and> content s' = []) \<and>
    b' = b\<lparr>wb_buf := overwrite (wb_buf b) (wb_n b) p', wb_n := wb_n b + int k\<rparr> \<and> wf_b b' \<and> accepted sent b' = accepted sent b @ take k (content s)"
proof -
  let ?p = "drop (nat (wb_n b)) (wb_buf b)"
  have n: "0 \<le> wb_n b" "nat (wb_n b) < length (wb_buf b)" using assms(1,2) by (auto simp: wb_wf_def Writer_Available_def)
  then have p: "go_slice (wb_buf b) (wb_n b) (ilen (wb_buf b)) = ret ?p" "?p \<noteq> []" by (simp_all add: seg_to_end)
  obtain k p' e s' where r: "rd s ?p = ret (int k, p', e, s')" "good s'" "k \<le> length ?p" "length p' = length ?p" "content s = take k p' @ content s'"
    "fin s' = fin s" "left s' \<le> left s" "e = None \<longrightarrow> left s' < left s" "\<forall>x. e = Some x \<longrightarrow> x = fin s \<and> content s' = []"
    by (rule src.readE [OF assms(3) p(2)])
  have k0: "e = None \<longrightarrow> k \<noteq> 0" using busy [OF assms(3) p(2)] r(1) by auto
  let ?b' = "b\<lparr>wb_buf := overwrite (wb_buf b) (wb_n b) p', wb_n := wb_n b + int k\<rparr>"
  have tk: "take k (content s) = take k p'" "k \<le> length (content s)" using r(3-5) by auto
  have lb: "length (overwrite (wb_buf b) (wb_n b) p') = length (wb_buf b)" using n by simp
  then have "overwrite (wb_buf b) (wb_n b) p' \<noteq> []" using assms(1) by (metis length_0_conv wb_wf_def)
  then have wf': "wf_b ?b'" using assms(1) lb r(3) n by (auto simp: wb_wf_def)
  have "waiting ?b' = waiting b @ take k p'" using n r(3,4) by (simp add: waiting_def overwrite_def nat_add_distrib)
  then have acc: "accepted sent ?b' = accepted sent b @ take k (content s)" using tk(1) by (simp add: accepted_def)
  have c: "content s = take k (content s) @ content s'" using r(5) tk(1) by simp
  have "e = None \<longrightarrow> left s' < left s \<and> k \<noteq> 0" using r(8) k0 by blast
  with p(1) r(1,2,6,9) c tk(2) wf' acc show ?thesis by blast
qed

lemma make_room:
  assumes "wf_b b"
  shows "\<exists>b1. (if Writer_Available b = 0 then Writer_flush wr b else ret (None, b)) = ret (if Writer_Available b = 0 then wb_err b1 else None, b1) \<and>
    wf_b b1 \<and> accepted sent b1 = accepted sent b \<and> (Writer_Available b = 0 \<longrightarrow> wb_err b1 = None \<longrightarrow> Writer_Available b1 \<noteq> 0) \<and> (Writer_Available b \<noteq> 0 \<longrightarrow> b1 = b)"
proof (cases "Writer_Available b = 0")
  case True
  from flush_spec [OF assms] obtain b2 where f: "Writer_flush wr b = ret (wb_err b2, b2)" "wf_b b2" "accepted sent b2 = accepted sent b"
    "wb_same b b2" "wb_err b2 = None \<longrightarrow> wb_n b2 = 0" by (elim exE conjE) (rule that)
  have "wb_err b2 = None \<longrightarrow> Writer_Available b2 \<noteq> 0" using f(2,5) by (auto simp: Writer_Available_def wb_wf_def)
  with True f(1-3) show ?thesis by (intro exI [of _ b2]) simp
qed (use assms in auto)

lemma ReadFrom_loop_spec:
  assumes "wf_b b" "good s"
  shows "\<exists>k fe b' s'. Writer_ReadFrom_loop wr rd b s n = ret (n + int k, fe, b', s') \<and> wf_b b' \<and> good s' \<and> k \<le> length (content s) \<and>
    accepted sent b' = accepted sent b @ take k (content s) \<and> content s' = drop k (content s) \<and>
    (case fe of Inl e \<Rightarrow> e \<noteq> None | Inr e \<Rightarrow> e = Some (fin s) \<and> k = length (content s))"
  using assms
proof (induction "left s" arbitrary: b s n rule: less_induct)
  case less
  from make_room [OF less.prems(1)] obtain b1 where
    m: "(if Writer_Available b = 0 then Writer_flush wr b else ret (None, b)) = ret (if Writer_Available b = 0 then wb_err b1 else None, b1)"
    and b1: "wf_b b1" "accepted sent b1 = accepted sent b" "Writer_Available b = 0 \<longrightarrow> wb_err b1 = None \<longrightarrow> Writer_Available b1 \<noteq> 0"
      "Writer_Available b \<noteq> 0 \<longrightarrow> b1 = b" by (elim exE conjE) (rule that)
  note loop = Writer_ReadFrom_loop.simps [of wr rd b s n, unfolded m]
  show ?case
  proof (cases "Writer_Available b = 0 \<and> wb_err b1 \<noteq> None")
    case True
    then have "Writer_ReadFrom_loop wr rd b s n = ret (n + int 0, Inl (wb_err b1), b1, s)" using loop by auto
    then show ?thesis using True b1 less.prems by (intro exI [of _ 0] exI [of _ "Inl (wb_err b1)"] exI [of _ b1] exI [of _ s]) auto
  next
    case False
    then have av: "Writer_Available b1 \<noteq> 0" and ne: "(if Writer_Available b = 0 then wb_err b1 else None) = None" using b1(3,4) by auto
    from read_into [OF b1(1) av less.prems(2)] obtain p k p' e s1 b2 where
      r: "go_slice (wb_buf b1) (wb_n b1) (ilen (wb_buf b1)) = ret p" "rd s p = ret (int k, p', e, s1)"
      and s1: "good s1" "content s = take k (content s) @ content s1" "k \<le> length (content s)" "fin s1 = fin s" "e = None \<longrightarrow> left s1 < left s \<and> k \<noteq> 0"
        "\<forall>x. e = Some x \<longrightarrow> x = fin s \<and> content s1 = []"
      and b2: "b2 = b1\<lparr>wb_buf := overwrite (wb_buf b1) (wb_n b1) p', wb_n := wb_n b1 + int k\<rparr>" "wf_b b2" "accepted sent b2 = accepted sent b1 @ take k (content s)"
      by (elim exE conjE) (rule that)
    have d: "content s1 = drop k (content s)" using s1(2,3) by (metis append_eq_conv_conj length_take min.absorb2)
    have same: "k = 0 \<Longrightarrow> b1\<lparr>wb_buf := overwrite (wb_buf b1) (wb_n b1) p'\<rparr> = b2" unfolding b2(1) by (cases b1) simp
    have step: "Writer_ReadFrom_loop wr rd b s n = (if e \<noteq> None then ret (n + int k, Inr e, b2, s1) else Writer_ReadFrom_loop wr rd b2 s1 (n + int k))"
      unfolding loop ne using r same s1(5) by (cases "k = 0") (auto simp: Let_def b2(1) [symmetric])
    show ?thesis
    proof (cases e)
      case (Some x)
      then have "e = Some (fin s)" "k = length (content s)" using s1(3,6) d by auto
      then show ?thesis using step b1(2) b2(2,3) s1(1) d
        by (intro exI [of _ k] exI [of _ "Inr e"] exI [of _ b2] exI [of _ s1]) simp
    next
      case None
      with s1(5) have "left s1 < left s" by simp
      from less.hyps [OF this b2(2) s1(1), of "n + int k"] obtain j fe b' s' where
        ih: "Writer_ReadFrom_loop wr rd b2 s1 (n + int k) = ret (n + int k + int j, fe, b', s')" "wf_b b'" "good s'" "j \<le> length (content s1)"
        "accepted sent b' = accepted sent b2 @ take j (content s1)" "content s' = drop j (content s1)"
        "case fe of Inl e \<Rightarrow> e \<noteq> None | Inr e \<Rightarrow> e = Some (fin s1) \<and> j = length (content s1)" by (elim exE conjE) (rule that)
      have "accepted sent b' = accepted sent b @ take (k + j) (content s)" using ih(5) b2(3) b1(2) d by (simp add: take_add)
      moreover have "content s' = drop (k + j) (content s)" using ih(6) d by (simp add: add.commute)
      moreover have "case fe of Inl e \<Rightarrow> e \<noteq> None | Inr e \<Rightarrow> e = Some (fin s) \<and> k + j = length (content s)"
        using ih(7) s1(3,4) d by (auto split: sum.splits)
      ultimately show ?thesis using step None ih(1-4) s1(3) d
        by (intro exI [of _ "k + j"] exI [of _ fe] exI [of _ b'] exI [of _ s']) auto
    qed
  qed
qed

lemma ReadFrom_spec:
  assumes "wf_b b" "good s"
  shows "\<exists>k e b' s'. Writer_ReadFrom wr None rd b s = ret (int k, e, b', s') \<and> wf_b b' \<and> good s' \<and> k \<le> length (content s) \<and>
    accepted sent b' = accepted sent b @ take k (content s) \<and> content s' = drop k (content s) \<and>
    (e = None \<longrightarrow> k = length (content s) \<and> fin s = EOF)"
proof -
  from ReadFrom_loop_spec [OF assms, of 0] obtain k fe b1 s' where
    l: "Writer_ReadFrom_loop wr rd b s 0 = ret (int k, fe, b1, s')" and b1: "wf_b b1" "good s'" "k \<le> length (content s)"
    "accepted sent b1 = accepted sent b @ take k (content s)" "content s' = drop k (content s)"
    and fe: "case fe of Inl e \<Rightarrow> e \<noteq> None | Inr e \<Rightarrow> e = Some (fin s) \<and> k = length (content s)" by auto
  show ?thesis
  proof (cases fe)
    case (Inl e)
    then show ?thesis using l b1 fe by (intro exI [of _ k] exI [of _ e] exI [of _ b1] exI [of _ s']) (auto simp: Writer_ReadFrom_def)
  next
    case (Inr e)
    then have e: "e = Some (fin s)" "k = length (content s)" using fe by simp_all
    from make_room [OF b1(1)] obtain b2 where
      m: "(if Writer_Available b1 = 0 then Writer_flush wr b1 else ret (None, b1)) = ret (if Writer_Available b1 = 0 then wb_err b2 else None, b2)"
      "wf_b b2" "accepted sent b2 = accepted sent b1" by blast
    let ?b' = "\<lambda>b. b\<lparr>wb_TotalWrite := wb_TotalWrite b + int k\<rparr>"
    show ?thesis
    proof (cases "fin s = EOF")
      case True
      then have "Writer_ReadFrom wr None rd b s = ret (int k, if Writer_Available b1 = 0 then wb_err b2 else None, ?b' b2, s')"
        using l Inr e m(1) by (simp add: Writer_ReadFrom_def)
      then show ?thesis using True e m(2,3) b1
        by (intro exI [of _ k] exI [of _ "if Writer_Available b1 = 0 then wb_err b2 else None"] exI [of _ "?b' b2"] exI [of _ s']) (simp add: accepted_def)
    next
      case False
      then have "Writer_ReadFrom wr None rd b s = ret (int k, e, ?b' b1, s')" using l Inr e by (simp add: Writer_ReadFrom_def)
      then show ?thesis using e b1 by (intro exI [of _ k] exI [of _ e] exI [of _ "?b' b1"] exI [of _ s']) (simp add: accepted_def)
    qed
  qed
qed

end

interpretation tcp_wcopy: write_buffered_copy conn_Write c_out "\<lambda>_. True" buffer_Read "\<lambda>bs. bs" "\<lambda>_. EOF" "\<lambda>_. True" length
  by unfold_locales (auto simp: buffer_Read_def Let_def min_def)

end
