(* ===== verification/Bufio.thy ===== *)
theory Bufio
  imports Bufio_Lines Bufio_Writer
begin

text \<open>
  \<^verbatim>\<open>m_bufio\<close> over TCP connections: the properties of \<^verbatim>\<open>Reader\<close> and \<^verbatim>\<open>Writer\<close> with the network connections of the program below
  them, obtained from the interpretations of \<open>buffered\<close> and \<open>write_buffered\<close>, and the runs in which the code does not do what
  it means to.
\<close>


subsection \<open>ReadWriter\<close>

record ('s, 'w) ReadWriter =
  rw_Reader :: "'s Reader"
  rw_Writer :: "'w Writer"

definition NewReadWriter :: "'s Reader \<Rightarrow> 'w Writer \<Rightarrow> ('s, 'w) ReadWriter" where
  "NewReadWriter r w = \<lparr>rw_Reader = r, rw_Writer = w\<rparr>"

subsection \<open>Where the counters and the unread operations go wrong\<close>

text \<open>A connection that delivers \<^verbatim>\<open>"a"\<close> and \<^verbatim>\<open>"b\n"\<close> in two segments, and a fresh reader on it with the smallest buffer.\<close>

definition slow_line :: conn where
  "slow_line = \<lparr>c_in = [[97], [98, 10]], c_fin = EOF, c_out = [], c_room = None, c_werr = EOF\<rparr>"

definition slow_reader :: "conn Reader" where
  "slow_reader = Reader_reset (replicate 16 0) slow_line"

lemmas run_reader = Reader_fill_def conn_Read_def overwrite_def seg_def Let_def LF_def Reader_Buffered_def

text \<open>
  \<^verbatim>\<open>ReadSlice\<close> returns three bytes and counts two: the bytes that were in the buffer before the last fill are left out of
  \<^verbatim>\<open>TotalRead\<close>.
\<close>

lemma ReadSlice_undercounts:
  "\<exists>b'. Reader_ReadSlice conn_Read slow_reader LF = ret ([97, 98, 10], None, b') \<and> rb_TotalRead slow_reader = 0 \<and> rb_TotalRead b' = 2"
proof -
  let ?b1 = "slow_reader\<lparr>rb_rd := slow_line\<lparr>c_in := [[98, 10]]\<rparr>, rb_buf := 97 # replicate 15 0, rb_w := 1\<rparr>"
  have "Reader_ReadSlice conn_Read slow_reader LF = ReadSlice_loop conn_Read slow_reader LF"
    by (simp add: Reader_ReadSlice_def slow_reader_def Reader_reset_def)
  also have "\<dots> = ReadSlice_loop conn_Read ?b1 LF"
    by (subst ReadSlice_loop.simps) (simp add: run_reader slow_reader_def slow_line_def Reader_reset_def)
  finally show ?thesis
    by (simp only: ReadSlice_loop.simps [of _ ?b1]) (simp add: run_reader slow_reader_def slow_line_def Reader_reset_def)
qed

text \<open>
  \<^verbatim>\<open>ReadSlice\<close> leaves the records of the last read as they were.  \<^verbatim>\<open>ReadByte\<close>, \<^verbatim>\<open>ReadSlice\<close>, \<^verbatim>\<open>UnreadByte\<close>: the byte that comes back is
  the one \<^verbatim>\<open>ReadByte\<close> returned, not the delimiter read last.
\<close>

definition after_byte :: "conn Reader" where
  "after_byte = slow_reader\<lparr>rb_rd := slow_line\<lparr>c_in := [[98, 10]]\<rparr>, rb_buf := 97 # replicate 15 0, rb_w := 1, rb_r := 1, rb_lastByte := 97, rb_TotalRead := 1\<rparr>"

definition after_slice :: "conn Reader" where
  "after_slice = after_byte\<lparr>rb_rd := slow_line\<lparr>c_in := []\<rparr>, rb_buf := 98 # 10 # replicate 14 0, rb_r := 2, rb_w := 2, rb_TotalRead := 3\<rparr>"

lemma UnreadByte_stale:
  "Reader_ReadByte conn_Read slow_reader = ret ((97, None), after_byte) \<and>
   Reader_ReadSlice conn_Read after_byte LF = ret ([98, 10], None, after_slice) \<and>
   (\<exists>b'. Reader_UnreadByte after_slice = ret (None, b') \<and> unread b' = [97])"
proof (intro conjI)
  show "Reader_ReadByte conn_Read slow_reader = ret ((97, None), after_byte)"
    unfolding Reader_ReadByte_def
    by (subst ReadByte_loop.simps, simp add: run_reader slow_reader_def slow_line_def Reader_reset_def)
      (subst ReadByte_loop.simps, simp add: run_reader slow_reader_def slow_line_def Reader_reset_def after_byte_def)
  show "Reader_ReadSlice conn_Read after_byte LF = ret ([98, 10], None, after_slice)"
    unfolding Reader_ReadSlice_def
    by (subst ReadSlice_loop.simps) (simp add: run_reader slow_reader_def slow_line_def Reader_reset_def after_byte_def after_slice_def)
  show "\<exists>b'. Reader_UnreadByte after_slice = ret (None, b') \<and> unread b' = [97]"
    by (simp add: Reader_UnreadByte_def after_slice_def after_byte_def slow_reader_def Reader_reset_def Let_def unread_def seg_def)
qed

text \<open>
  \<^verbatim>\<open>ReadRune\<close> of a three-byte rune, \<^verbatim>\<open>ReadSlice\<close>, \<^verbatim>\<open>UnreadRune\<close>: the read position is moved below the start of the buffer, and
  the next \<^verbatim>\<open>Peek\<close> panics.
\<close>

definition euro_line :: conn where
  "euro_line = slow_line\<lparr>c_in := [[0xE2, 0x82, 0xAC], [98, 10]]\<rparr>"

definition after_rune :: "conn Reader" where
  "after_rune = \<lparr>rb_buf = 0xE2 # 0x82 # 0xAC # replicate 13 0, rb_rd = slow_line\<lparr>c_in := [[98, 10]]\<rparr>, rb_r = 3, rb_w = 3, rb_err = None,
     rb_lastByte = 0xAC, rb_lastRuneSize = 3, rb_TotalRead = 3\<rparr>"

definition after_rune_slice :: "conn Reader" where
  "after_rune_slice = after_rune\<lparr>rb_rd := slow_line\<lparr>c_in := []\<rparr>, rb_buf := 98 # 10 # 0xAC # replicate 13 0, rb_r := 2, rb_w := 2, rb_TotalRead := 5\<rparr>"

lemma UnreadRune_underflow:
  "Reader_ReadRune conn_Read (Reader_reset (replicate 16 0) euro_line) = ret (0x20AC, 3, None, after_rune) \<and>
   Reader_ReadSlice conn_Read after_rune LF = ret ([98, 10], None, after_rune_slice) \<and>
   fst (Reader_UnreadRune after_rune_slice) = None \<and> rb_r (snd (Reader_UnreadRune after_rune_slice)) = - 1 \<and>
   Reader_Peek conn_Read (snd (Reader_UnreadRune after_rune_slice)) 1 = throw SliceBounds"
proof (intro conjI)
  show "Reader_ReadRune conn_Read (Reader_reset (replicate 16 0) euro_line) = ret (0x20AC, 3, None, after_rune)"
    unfolding Reader_ReadRune_def
    by (subst ReadRune_loop.simps, simp add: run_reader euro_line_def slow_line_def Reader_reset_def UTFMax_def FullRune_def)
      (subst ReadRune_loop.simps, simp add: run_reader slow_line_def after_rune_def UTFMax_def FullRune_def RuneSelf_def DecodeRune_def first_byte_def is_tail_def rune_bits_def)
  show "Reader_ReadSlice conn_Read after_rune LF = ret ([98, 10], None, after_rune_slice)"
    unfolding Reader_ReadSlice_def
    by (subst ReadSlice_loop.simps) (simp add: run_reader slow_line_def after_rune_def after_rune_slice_def)
  show "fst (Reader_UnreadRune after_rune_slice) = None" "rb_r (snd (Reader_UnreadRune after_rune_slice)) = - 1"
    by (simp_all add: Reader_UnreadRune_def after_rune_slice_def after_rune_def)
  show "Reader_Peek conn_Read (snd (Reader_UnreadRune after_rune_slice)) 1 = throw SliceBounds"
    by (simp add: Reader_Peek_def Peek_loop.simps Reader_UnreadRune_def after_rune_slice_def after_rune_def Let_def go_slice_def)
qed

text \<open>
  A source that gives nothing without an error ends \<^verbatim>\<open>WriteTo\<close> and \<^verbatim>\<open>ReadFrom\<close> without an error, and the bytes behind it are
  not copied.
\<close>

definition stuttering :: conn where
  "stuttering = slow_line\<lparr>c_in := [[], [98]]\<rparr>"

lemma WriteTo_stops_early:
  "\<exists>b'. Reader_WriteTo conn_Read None conn_Write (Reader_reset (replicate 16 0) stuttering) slow_line = ret (0, None, b', slow_line) \<and>
    pending conn_content b' = [98]"
  unfolding Reader_WriteTo_def
  by (subst Reader_WriteTo_loop.simps)
    (simp add: run_reader Reader_writeBuf_def stuttering_def slow_line_def Reader_reset_def conn_Write_def Reader_readErr_def pending_def unread_def conn_content_def)

subsection \<open>A writer in use\<close>

text \<open>
  The calls a client makes on a \<^verbatim>\<open>Writer\<close>, each with the bytes it reported as written.
\<close>

inductive writer_step :: "'w writer_fn \<Rightarrow> 'w Writer \<Rightarrow> bytes \<Rightarrow> 'w Writer \<Rightarrow> bool" for wr where
  do_Write: "Writer_Write wr b p = ret (n, e, b') \<Longrightarrow> writer_step wr b (take (nat n) p) b'"
| do_WriteString: "Writer_WriteString wr b p = ret (n, e, b') \<Longrightarrow> writer_step wr b (take (nat n) p) b'"
| do_WriteByte: "Writer_WriteByte wr b c = ret (e, b') \<Longrightarrow> writer_step wr b (if e = None then [c] else []) b'"
| do_WriteRune: "0 \<le> r \<Longrightarrow> Writer_WriteRune wr b r = ret (n, e, b') \<Longrightarrow> writer_step wr b (take (nat n) (EncodeRune r)) b'"
| do_Flush: "Writer_Flush wr b = ret (e, b') \<Longrightarrow> writer_step wr b [] b'"

inductive writer_run :: "'w writer_fn \<Rightarrow> 'w Writer \<Rightarrow> bytes \<Rightarrow> 'w Writer \<Rightarrow> bool" for wr where
  run_Nil: "writer_run wr b [] b"
| run_Cons: "writer_step wr b out b1 \<Longrightarrow> writer_run wr b1 outs b' \<Longrightarrow> writer_run wr b (out @ outs) b'"

inductive_cases writer_stepE: "writer_step wr b out b'"

context write_buffered
begin

lemma writer_step_accepts:
  assumes "writer_step wr b out b'" "wf_b b"
  shows "wf_b b' \<and> accepted sent b' = accepted sent b @ out"
  using assms(1)
proof (cases rule: writer_step.cases)
  case (do_Write p n e)
  with Write_spec [OF assms(2), of p] show ?thesis by (auto simp: write_step_def)
next
  case (do_WriteString p n e)
  with WriteString_spec [OF assms(2), of p] show ?thesis by (auto simp: write_step_def)
next
  case (do_WriteByte c e)
  with WriteByte_spec [OF assms(2), of c] show ?thesis by auto
next
  case (do_WriteRune r n e)
  with WriteRune_spec [OF assms(2), of r] show ?thesis by auto
next
  case (do_Flush e)
  with flush_spec [OF assms(2)] show ?thesis by (auto simp: Writer_Flush_def)
qed

lemma writer_run_accepts: "writer_run wr b out b' \<Longrightarrow> wf_b b \<Longrightarrow> wf_b b' \<and> accepted sent b' = accepted sent b @ out"
  by (induction rule: writer_run.induct) (auto dest!: writer_step_accepts)

lemma flushed:
  assumes "writer_run wr b out b1" "wf_b b" "Writer_Flush wr b1 = ret (None, b')"
  shows "wf_b b' \<and> waiting b' = [] \<and> sent (wb_wr b') = accepted sent b @ out"
  using writer_run_accepts [OF assms(1,2)] flush_spec [of b1] assms(3) by (auto simp: Writer_Flush_def accepted_def waiting_def)

end

subsection \<open>Properties\<close>

text \<open>
  C39: Whatever calls are made on a \<^verbatim>\<open>Writer\<close> over a connection, once a \<^verbatim>\<open>Flush\<close> returns without an error the connection has
  received, behind what it and the buffer had before, exactly the bytes the calls reported as written, in the order of the
  calls; nothing waits any more.
\<close>

theorem Writer_delivers:
  assumes "wb_wf (\<lambda>_. True) b" "writer_run conn_Write b out b1" "Writer_Flush conn_Write b1 = ret (None, b')"
  shows "c_out (wb_wr b') = c_out (wb_wr b) @ waiting b @ out \<and> waiting b' = []"
  using tcp_wbuf.flushed [OF assms(2,1,3)] by (simp add: accepted_def)

text \<open>
  C37: \<^verbatim>\<open>ReadBytes\<close> on a reader over a connection always returns, however the network cuts the stream into segments and however
  many buffers the line fills: the result is the stream up to and with the first delimiter, or the whole rest of the stream
  and its final error when there is none; the bytes behind stay pending.
\<close>

theorem ReadBytes_total:
  assumes "rb_good conn_content c_fin (\<lambda>_. True) b" "c_fin (rb_rd b) \<noteq> ErrBufferFull"
  shows "\<exists>b'. Reader_ReadBytes conn_Read b delim =
      ret (first_line delim (pending conn_content b), if delim \<in> set (pending conn_content b) then None else Some (c_fin (rb_rd b)), b') \<and>
    pending conn_content b = first_line delim (pending conn_content b) @ pending conn_content b' \<and> rb_good conn_content c_fin (\<lambda>_. True) b'"
  using tcp_buf.ReadBytes_spec [OF assms] by blast

text \<open>
  C38: The fragments that successive \<^verbatim>\<open>ReadLine\<close> calls return for one line, put together, are the line without its \<^verbatim>\<open>\n\<close> or
  \<^verbatim>\<open>\r\n\<close>, wherever the buffer cut it, also between \<^verbatim>\<open>\r\<close> and \<^verbatim>\<open>\n\<close>; the stream behind the line stays pending.
\<close>

theorem ReadLine_fragments:
  assumes "rb_good conn_content c_fin (\<lambda>_. True) b" "c_fin (rb_rd b) \<noteq> ErrBufferFull" "2 \<le> length (rb_buf b)"
  shows "\<exists>frags e b'. line_run conn_Read b frags e b' \<and> concat frags = strip_eol (first_line LF (pending conn_content b)) \<and>
    pending conn_content b = first_line LF (pending conn_content b) @ pending conn_content b'"
  using tcp_buf.line_run_spec [OF assms] by blast

text \<open>
  C40: A rune written with \<^verbatim>\<open>WriteRune\<close> is the rune \<^verbatim>\<open>ReadRune\<close> reads on the other side: when the connection delivers what the
  writer sent, in whatever segments, the reader gets the rune back, reports the size that was written, and \<^verbatim>\<open>UnreadRune\<close> puts
  it back.
\<close>

theorem rune_roundtrip:
  assumes "valid_rune r" "wb_wf (\<lambda>_. True) b" "waiting b = []"
    and "Writer_WriteRune conn_Write b r = ret (n, None, b1)" "Writer_Flush conn_Write b1 = ret (None, b2)"
    and "rb_good conn_content c_fin (\<lambda>_. True) rd" "4 \<le> length (rb_buf rd)" "0 \<le> rb_TotalRead rd"
    and "c_out (wb_wr b) @ pending conn_content rd = c_out (wb_wr b2) @ rest"
  shows "\<exists>rd1 rd2. Reader_ReadRune conn_Read rd = ret (r, n, None, rd1) \<and> pending conn_content rd1 = rest \<and>
    Reader_UnreadRune rd1 = (None, rd2) \<and> pending conn_content rd2 = pending conn_content rd"
proof -
  let ?e = "EncodeRune r"
  have "0 \<le> r" using assms(1) by (simp add: valid_rune_def)
  with tcp_wbuf.WriteRune_spec [OF assms(2), of r] assms(4) have n: "n = ilen ?e" by auto
  have "writer_run conn_Write b (take (nat n) ?e @ []) b1"
    using writer_run.run_Cons [OF writer_step.do_WriteRune [OF \<open>0 \<le> r\<close> assms(4)] writer_run.run_Nil] .
  with tcp_wbuf.flushed [OF _ assms(2,5)] have "c_out (wb_wr b2) = c_out (wb_wr b) @ ?e" using n assms(3) by (simp add: accepted_def)
  then have p: "pending conn_content rd = ?e @ rest" using assms(9) by simp
  from tcp_buf.ReadRune_spec [OF assms(6,7,1) p] obtain rd1 where r1: "Reader_ReadRune conn_Read rd = ret (r, ilen ?e, None, rd1)"
    and g: "rb_good conn_content c_fin (\<lambda>_. True) rd1" "pending conn_content rd1 = rest" "rb_TotalRead rd1 = rb_TotalRead rd + ilen ?e"
      "rb_lastRuneSize rd1 = ilen ?e" "ilen ?e \<le> rb_r rd1" "seg (rb_buf rd1) (rb_r rd1 - ilen ?e) (rb_r rd1) = ?e" by blast
  have "?e \<noteq> []" using length_EncodeRune(1) [of r] by auto
  from tcp_buf.UnreadRune_spec [OF g(1,4,5) this _ g(6)] g(2,3) assms(8) p r1 n show ?thesis by auto
qed

subsection \<open>Concrete runs\<close>

definition quick_writer :: "conn Writer" where
  "quick_writer = new_Writer slow_line 4"

lemmas run_writer = new_Writer_def quick_writer_def slow_line_def Writer_finish_def Writer_append_def Writer_Available_def
  Writer_Buffered_def Writer_flush_def conn_Write_def overwrite_def copy_len_def seg_def Let_def

definition quick1 :: "conn Writer" where
  "quick1 = quick_writer\<lparr>wb_buf := [1, 2, 3, 0], wb_n := 3, wb_TotalWrite := 3\<rparr>"

definition quick2 :: "conn Writer" where
  "quick2 = quick_writer\<lparr>wb_buf := [5, 2, 3, 4], wb_n := 1, wb_wr := slow_line\<lparr>c_out := [1, 2, 3, 4]\<rparr>, wb_TotalWrite := 5\<rparr>"

lemma quick_write:
  "Writer_Write conn_Write quick_writer [1, 2, 3] = ret (3, None, quick1)"
  "Writer_WriteString conn_Write quick1 [4, 5] = ret (2, None, quick2)"
  "Writer_Flush conn_Write quick2 = ret (None, quick2\<lparr>wb_n := 0, wb_wr := slow_line\<lparr>c_out := [1, 2, 3, 4, 5]\<rparr>\<rparr>)"
proof -
  show "Writer_Write conn_Write quick_writer [1, 2, 3] = ret (3, None, quick1)"
    unfolding Writer_Write_def by (subst Writer_Write_loop.simps) (simp add: run_writer quick1_def)
  show "Writer_WriteString conn_Write quick1 [4, 5] = ret (2, None, quick2)"
    unfolding Writer_WriteString_def
    by (subst Writer_WriteString_loop.simps, simp add: run_writer quick1_def)
      (subst Writer_WriteString_loop.simps, simp add: run_writer quick2_def)
  show "Writer_Flush conn_Write quick2 = ret (None, quick2\<lparr>wb_n := 0, wb_wr := slow_line\<lparr>c_out := [1, 2, 3, 4, 5]\<rparr>\<rparr>)"
    by (simp add: Writer_Flush_def run_writer quick2_def)
qed

theorem Writer_delivers_witness:
  "writer_run conn_Write quick_writer [1, 2, 3, 4, 5] quick2 \<and>
   (\<exists>b'. Writer_Flush conn_Write quick2 = ret (None, b') \<and> c_out (wb_wr b') = [1, 2, 3, 4, 5] \<and> waiting b' = [])"
proof -
  from writer_run.run_Cons [OF do_Write [OF quick_write(1)] writer_run.run_Cons [OF do_WriteString [OF quick_write(2)] writer_run.run_Nil]]
  have r: "writer_run conn_Write quick_writer [1, 2, 3, 4, 5] quick2" by simp
  have "wb_wf (\<lambda>_. True) quick_writer" "c_out (wb_wr quick_writer) = []" "waiting quick_writer = []" by (simp_all add: run_writer wb_wf_def waiting_def)
  with Writer_delivers [OF this(1) r quick_write(3)] show ?thesis using r quick_write(3) by simp
qed

lemma slow_reader_good:
  "rb_good conn_content c_fin (\<lambda>_. True) slow_reader" "pending conn_content slow_reader = [97, 98, 10]" "c_fin (rb_rd slow_reader) = EOF"
  by (simp_all add: slow_reader_def Reader_reset_def rb_good_def rb_wf_def pending_def unread_def conn_content_def slow_line_def)

theorem ReadBytes_total_witness:
  "\<exists>b'. Reader_ReadBytes conn_Read slow_reader 98 = ret ([97, 98], None, b') \<and> pending conn_content b' = [10]"
  using ReadBytes_total [of slow_reader 98] slow_reader_good by (auto simp: first_line_def)

text \<open>A reader with a buffer of two bytes in front of \<^verbatim>\<open>"a\r\nb"\<close>.\<close>

definition split_reader :: "conn Reader" where
  "split_reader = Reader_reset [0, 0] (slow_line\<lparr>c_in := [[97, 13], [10, 98]]\<rparr>)"

theorem ReadLine_fragments_witness:
  "\<exists>frags e b'. line_run conn_Read split_reader frags e b' \<and> concat frags = [97] \<and> pending conn_content b' = [98]"
proof -
  have "rb_good conn_content c_fin (\<lambda>_. True) split_reader" "pending conn_content split_reader = [97, 13, 10, 98]"
    "c_fin (rb_rd split_reader) = EOF" "length (rb_buf split_reader) = 2"
    by (simp_all add: split_reader_def Reader_reset_def rb_good_def rb_wf_def pending_def unread_def conn_content_def slow_line_def)
  moreover from calculation obtain frags e b' where "line_run conn_Read split_reader frags e b'"
    "concat frags = strip_eol (first_line LF [97, 13, 10, 98])" "[97, 13, 10, 98] = first_line LF [97, 13, 10, 98] @ pending conn_content b'"
    using ReadLine_fragments [of split_reader] by auto
  ultimately show ?thesis by (intro exI [of _ frags] exI [of _ e] exI [of _ b']) (simp add: first_line_def strip_eol_def LF_def CR_def)
qed

text \<open>The euro sign, written through a fresh writer and delivered in two segments.\<close>

definition euro_reader :: "conn Reader" where
  "euro_reader = Reader_reset (replicate 16 0) (slow_line\<lparr>c_in := [[0xE2], [0x82, 0xAC]]\<rparr>)"

lemma euro_bytes: "EncodeRune 0x20AC = [0xE2, 0x82, 0xAC]"
  by (simp add: EncodeRune_def encode3_def tail_byte_def valid_rune_def)

lemma quick_rune: "\<exists>b1. Writer_WriteRune conn_Write quick_writer 0x20AC = ret (3, None, b1) \<and>
    (\<exists>b2. Writer_Flush conn_Write b1 = ret (None, b2) \<and> c_out (wb_wr b2) = [0xE2, 0x82, 0xAC])"
  by (simp add: Writer_WriteRune_def Writer_Flush_def RuneSelf_def UTFMax_def euro_bytes run_writer)

theorem rune_roundtrip_witness:
  "\<exists>rd1 rd2. Reader_ReadRune conn_Read euro_reader = ret (0x20AC, 3, None, rd1) \<and> pending conn_content rd1 = [] \<and>
     Reader_UnreadRune rd1 = (None, rd2) \<and> pending conn_content rd2 = [0xE2, 0x82, 0xAC]"
proof -
  from quick_rune obtain b1 b2 where w: "Writer_WriteRune conn_Write quick_writer 0x20AC = ret (3, None, b1)"
    "Writer_Flush conn_Write b1 = ret (None, b2)" "c_out (wb_wr b2) = [0xE2, 0x82, 0xAC]" by blast
  have q: "wb_wf (\<lambda>_. True) quick_writer" "waiting quick_writer = []" "c_out (wb_wr quick_writer) = []" by (simp_all add: run_writer wb_wf_def waiting_def)
  have r: "rb_good conn_content c_fin (\<lambda>_. True) euro_reader" "pending conn_content euro_reader = [0xE2, 0x82, 0xAC]"
    "4 \<le> length (rb_buf euro_reader)" "0 \<le> rb_TotalRead euro_reader"
    by (simp_all add: euro_reader_def Reader_reset_def rb_good_def rb_wf_def pending_def unread_def conn_content_def slow_line_def)
  have "valid_rune 0x20AC" by (simp add: valid_rune_def)
  from rune_roundtrip [OF this q(1,2) w(1,2) r(1,3,4), of "[]"] q(3) w(3) r(2) show ?thesis by simp
qed

end
