(* ===== verification/Socks_Handler.thy ===== *)
theory Socks_Handler
  imports Socks_Handshake
begin

text \<open>
  \<^verbatim>\<open>m_socks/handler.go\<close>: the older SOCKS5 handler, which takes each message of the client from a single \<^verbatim>\<open>Read\<close> and relays
  with two goroutines.  A panic of the logger is a \<open>throw\<close>; \<^verbatim>\<open>Serv\<close> recovers from every panic of its stages and closes the
  connections.  The two goroutines of \<^verbatim>\<open>Relay\<close> are the components of an interleaving step relation: a step is one read or one
  write of one of them.
\<close>

subsection \<open>Requests\<close>

definition STATUS_VERIFY :: nat where "STATUS_VERIFY = 0"
definition STATUS_CONNECT :: nat where "STATUS_CONNECT = 1"
definition CONNECT :: nat where "CONNECT = 0"
definition BIND :: nat where "BIND = 1"
definition UDPASSOCIATE :: nat where "UDPASSOCIATE = 2"

record 'c request =
  rq_conn :: 'c
  rq_version :: nat
  rq_command :: nat
  rq_host :: string
  rq_port :: string

definition NewRequest :: "'c \<Rightarrow> 'c request" where
  "NewRequest conn = \<lparr>rq_conn = conn, rq_version = 0, rq_command = 0, rq_host = '''', rq_port = ''''\<rparr>"

text \<open>The second message: command, address and port out of the array \<open>b\<close>, of which \<open>n\<close> bytes were read.\<close>

definition Resolve_connect :: "bytes \<Rightarrow> int \<Rightarrow> 'c request \<Rightarrow> 'c request go" where
  "Resolve_connect b n r =
     (let r = (if b ! 1 = 1 then r\<lparr>rq_command := CONNECT\<rparr>
               else if b ! 1 = 2 then r\<lparr>rq_command := BIND\<rparr>
               else if b ! 1 = 3 then r\<lparr>rq_command := UDPASSOCIATE\<rparr> else r) in
      gobind
        (if b ! 3 = 1 then ret (r\<lparr>rq_host := IP_String (IPv4 (b ! 4) (b ! 5) (b ! 6) (b ! 7))\<rparr>)
         else if b ! 3 = 3 then gobind (go_slice b 5 (n - 2)) (\<lambda>h. ret (r\<lparr>rq_host := bytes_str h\<rparr>))
         else if b ! 3 = 4 then ret (r\<lparr>rq_host := IP_String (seg b 4 20)\<rparr>)
         else ret r) (\<lambda>r.
      gobind (port_text b (n - 2)) (\<lambda>port. ret (r\<lparr>rq_port := port\<rparr>))))"

definition Resolve :: "'c reader_fn \<Rightarrow> nat \<Rightarrow> 'c request \<Rightarrow> (bool \<times> 'c request) go" where
  "Resolve rd status r =
     gobind (rd (rq_conn r) (replicate 1024 0)) (\<lambda>(n, b, err, c).
     let r = r\<lparr>rq_conn := c\<rparr> in
     if err \<noteq> None then throw (PanicMsg ''read'')
     else if n < 3 then throw (PanicMsg ''m_socks request read byte length small'')
     else
       gobind
         (if status = STATUS_VERIFY then
            (if b ! 0 = 5 then ret (r\<lparr>rq_version := 5\<rparr>) else throw (PanicMsg ''m_socks request other version protocol''))
          else ret r) (\<lambda>r.
       gobind (if status = STATUS_CONNECT then Resolve_connect b n r else ret r) (\<lambda>r. ret (True, r))))"

definition ResponseVerify :: "'c writer_fn \<Rightarrow> 'c request \<Rightarrow> 'c request go" where
  "ResponseVerify wr r =
     (if rq_version r = 5 then gobind (wr (rq_conn r) [5, 0]) (\<lambda>(_, _, c). ret (r\<lparr>rq_conn := c\<rparr>)) else ret r)"

definition ResponseConnect :: "'c writer_fn \<Rightarrow> 'c request \<Rightarrow> 'c request go" where
  "ResponseConnect wr r =
     gobind (wr (rq_conn r) [5, 0, 0, 1, 0, 0, 0, 0, 0, 0]) (\<lambda>(_, _, c). ret (r\<lparr>rq_conn := c\<rparr>))"

text \<open>\<open>dial\<close> is \<^verbatim>\<open>net.Dial("tcp", _)\<close>.\<close>

definition connect :: "(string \<Rightarrow> goerr + 'c) \<Rightarrow> 'c request \<Rightarrow> 'c go" where
  "connect dial r =
     (case dial (JoinHostPort (rq_host r) (rq_port r)) of
        Inl e \<Rightarrow> throw (PanicMsg ''connect remote failed'')
      | Inr c \<Rightarrow> ret c)"

definition request_read :: "'c reader_fn \<Rightarrow> 'c \<Rightarrow> (bytes \<times> goerr option \<times> 'c) go" where
  "request_read rd conn =
     gobind (rd conn (replicate 50 0)) (\<lambda>(nr, bs, err, c).
     if err \<noteq> None then ret ([], err, c) else gobind (go_slice bs 0 nr) (\<lambda>buf. ret (buf, None, c)))"

subsection \<open>Relay\<close>

text \<open>Where a goroutine stands: about to read, about to write what it read, or at its end.\<close>

datatype relay_pc = Reading | Writing bytes | Done

record 'c relay_state =
  rl_local :: 'c
  rl_remote :: 'c
  rl_down :: relay_pc
  rl_up :: relay_pc

definition Relay_start :: "'c \<Rightarrow> 'c \<Rightarrow> 'c relay_state" where
  "Relay_start local remote = \<lparr>rl_local = local, rl_remote = remote, rl_down = Reading, rl_up = Reading\<rparr>"

definition after_read :: "bytes \<Rightarrow> goerr option \<Rightarrow> relay_pc" where
  "after_read bs err = (if err \<noteq> None then Done else if bs = [] then Reading else Writing bs)"

definition after_write :: "goerr option \<Rightarrow> relay_pc" where
  "after_write err = (if err \<noteq> None then Done else Reading)"

text \<open>\<open>down\<close> is the goroutine that reads the remote side and writes the local one, \<open>up\<close> the other.\<close>

inductive relay_step :: "'c reader_fn \<Rightarrow> 'c writer_fn \<Rightarrow> 'c relay_state \<Rightarrow> 'c relay_state \<Rightarrow> bool" for rd wr where
  down_read: "rl_down s = Reading \<Longrightarrow> request_read rd (rl_remote s) = ret (bs, err, c) \<Longrightarrow>
    relay_step rd wr s (s\<lparr>rl_remote := c, rl_down := after_read bs err\<rparr>)"
| down_write: "rl_down s = Writing bs \<Longrightarrow> wr (rl_local s) bs = ret (n, err, c) \<Longrightarrow>
    relay_step rd wr s (s\<lparr>rl_local := c, rl_down := after_write err\<rparr>)"
| up_read: "rl_up s = Reading \<Longrightarrow> request_read rd (rl_local s) = ret (bs, err, c) \<Longrightarrow>
    relay_step rd wr s (s\<lparr>rl_local := c, rl_up := after_read bs err\<rparr>)"
| up_write: "rl_up s = Writing bs \<Longrightarrow> wr (rl_remote s) bs = ret (n, err, c) \<Longrightarrow>
    relay_step rd wr s (s\<lparr>rl_remote := c, rl_up := after_write err\<rparr>)"

inductive_cases relay_stepE: "relay_step rd wr s s'"

text \<open>\<^verbatim>\<open>wg.Wait()\<close>: \<^verbatim>\<open>Relay\<close> returns when both goroutines are done.\<close>

definition relay_done :: "'c relay_state \<Rightarrow> bool" where
  "relay_done s \<longleftrightarrow> rl_down s = Done \<and> rl_up s = Done"

definition Relay :: "'c reader_fn \<Rightarrow> 'c writer_fn \<Rightarrow> 'c \<Rightarrow> 'c \<Rightarrow> 'c relay_state \<Rightarrow> bool" where
  "Relay rd wr local remote s \<longleftrightarrow> (relay_step rd wr)\<^sup>*\<^sup>* (Relay_start local remote) s \<and> relay_done s"

subsection \<open>Serv\<close>

text \<open>
  When a stage panics, \<^verbatim>\<open>Serv\<close> recovers and closes the connection.  A panic of \<^verbatim>\<open>Resolve\<close> leaves it behind the message that was read; the
  other stages panic before they do anything to it.
\<close>

definition Resolve_left :: "'c reader_fn \<Rightarrow> 'c request \<Rightarrow> 'c request" where
  "Resolve_left rd r = (case rd (rq_conn r) (replicate 1024 0) of Some (Val (_, _, _, c)) \<Rightarrow> r\<lparr>rq_conn := c\<rparr> | _ \<Rightarrow> r)"

definition go_try :: "'a go \<Rightarrow> ('a \<Rightarrow> 'b go) \<Rightarrow> (panic \<Rightarrow> 'b go) \<Rightarrow> 'b go" where
  "go_try m f h = (case m of None \<Rightarrow> None | Some (Val x) \<Rightarrow> f x | Some (Panic p) \<Rightarrow> h p)"

lemma go_try_simps [simp]: "go_try (ret x) f h = f x" "go_try (throw p) f h = h p" "go_try None f h = None"
  by (simp_all add: go_try_def ret_def throw_def)

datatype 'c setup_result = Recovered "'c request" panic | Finished "'c request" | Relaying "'c request" 'c

definition Serv_setup :: "'c reader_fn \<Rightarrow> 'c writer_fn \<Rightarrow> (string \<Rightarrow> goerr + 'c) \<Rightarrow> 'c request \<Rightarrow> 'c setup_result go" where
  "Serv_setup rd wr dial r =
     go_try (Resolve rd STATUS_VERIFY r)
       (\<lambda>(ok, r).
          go_try (if ok then ResponseVerify wr r else ret r)
            (\<lambda>r.
               go_try (Resolve rd STATUS_CONNECT r)
                 (\<lambda>(ok, r).
                    if ok then
                      go_try (ResponseConnect wr r)
                        (\<lambda>r. go_try (connect dial r) (\<lambda>remote. ret (Relaying r remote)) (\<lambda>p. ret (Recovered r p)))
                        (\<lambda>p. ret (Recovered r p))
                    else ret (Finished r))
                 (\<lambda>p. ret (Recovered (Resolve_left rd r) p)))
            (\<lambda>p. ret (Recovered r p)))
       (\<lambda>p. ret (Recovered (Resolve_left rd r) p))"

text \<open>The connections as they are when \<^verbatim>\<open>Serv\<close> has closed them, and the panic it recovered from.\<close>

inductive Serv :: "'c reader_fn \<Rightarrow> 'c writer_fn \<Rightarrow> (string \<Rightarrow> goerr + 'c) \<Rightarrow> 'c request \<Rightarrow> 'c \<Rightarrow> 'c option \<Rightarrow> panic option \<Rightarrow> bool" for rd wr dial where
  serv_recovered: "Serv_setup rd wr dial r = ret (Recovered r' p) \<Longrightarrow> Serv rd wr dial r (rq_conn r') None (Some p)"
| serv_finished: "Serv_setup rd wr dial r = ret (Finished r') \<Longrightarrow> Serv rd wr dial r (rq_conn r') None None"
| serv_relayed: "Serv_setup rd wr dial r = ret (Relaying r' remote) \<Longrightarrow> Relay rd wr (rq_conn r') remote s \<Longrightarrow>
    Serv rd wr dial r (rl_local s) (Some (rl_remote s)) None"

subsection \<open>One direction of the relay\<close>

text \<open>
  \<open>C\<close> is what the source had to give, \<open>S\<close> what the destination had received before.  \<open>j\<close> bytes have arrived and \<open>k\<close> have been
  read; the goroutine holds what is between.  When it is done on a working destination (\<open>live\<close>), everything has arrived.
\<close>

definition dir_ok :: "bool \<Rightarrow> bytes \<Rightarrow> bytes \<Rightarrow> bytes \<Rightarrow> bytes \<Rightarrow> relay_pc \<Rightarrow> bool" where
  "dir_ok live S C arrived rest pc \<longleftrightarrow>
     (\<exists>j k. j \<le> k \<and> k \<le> length C \<and> arrived = S @ take j C \<and> rest = drop k C \<and>
        (case pc of Reading \<Rightarrow> j = k | Writing bs \<Rightarrow> bs = drop j (take k C) | Done \<Rightarrow> live \<longrightarrow> j = length C))"

lemma dir_ok_start: "dir_ok live S C S C Reading"
  unfolding dir_ok_def by (intro exI [of _ 0]) simp

lemma dir_ok_read:
  assumes "dir_ok live S C arrived (bs @ rest) Reading"
  shows "dir_ok live S C arrived rest (if bs = [] then Reading else Writing bs)"
proof -
  from assms obtain j where j: "j \<le> length C" "arrived = S @ take j C" "bs @ rest = drop j C" by (auto simp: dir_ok_def)
  then have C: "C = take j C @ bs @ rest" by simp
  then have "rest = drop (j + length bs) C" "bs = drop j (take (j + length bs) C)" "j + length bs \<le> length C"
    using j by (metis append_eq_conv_conj drop_drop add.commute, metis append_eq_conv_conj drop_take add_diff_cancel_left',
      metis j(3) length_append length_drop le_add1 le_diff_conv2 add.commute j(1))
  with j show ?thesis unfolding dir_ok_def by (intro exI [of _ j] exI [of _ "j + length bs"]) auto
qed

lemma dir_ok_read_end:
  assumes "dir_ok live S C arrived [] Reading"
  shows "dir_ok live S C arrived [] Done"
proof -
  from assms have "arrived = S @ take (length C) C" by (auto simp: dir_ok_def)
  then show ?thesis unfolding dir_ok_def by (intro exI [of _ "length C"]) simp
qed

lemma dir_ok_write:
  assumes "dir_ok live S C arrived rest (Writing bs)" "m \<le> length bs" "err = None \<longrightarrow> m = length bs" "live \<longrightarrow> err = None"
  shows "dir_ok live S C (arrived @ take m bs) rest (after_write err)"
proof -
  from assms(1) obtain j k where j: "j \<le> k" "k \<le> length C" "arrived = S @ take j C" "rest = drop k C" "bs = drop j (take k C)"
    by (auto simp: dir_ok_def)
  have m: "j + m \<le> k" "err = None \<longrightarrow> j + m = k" using assms(2,3) j(1,2,5) by auto
  then have "take j C @ take m bs = take (j + m) C" using j(5) by (simp add: take_add drop_take min_absorb1)
  with j m assms(4) show ?thesis unfolding dir_ok_def after_write_def
    by (intro exI [of _ "j + m"] exI [of _ k]) auto
qed

lemma dir_ok_Done: "dir_ok True S C arrived rest Done \<Longrightarrow> arrived = S @ C"
  by (auto simp: dir_ok_def)

lemma dir_ok_prefix: "dir_ok live S C arrived rest pc \<Longrightarrow> \<exists>j \<le> length C. arrived = S @ take j C"
  unfolding dir_ok_def using le_trans by blast

subsection \<open>The relay of two connections\<close>

text \<open>
  What \<^verbatim>\<open>Relay\<close> needs of its connections beyond two independent directions: writing does not add to what is still to be read,
  and an error of a read comes without bytes, because \<^verbatim>\<open>read\<close> throws the bytes of such a read away.
\<close>

locale relay_conns = duplex rd content fin good left wr sent usable
  for rd :: "'c reader_fn" and content fin good left and wr :: "'c writer_fn" and sent usable +
  assumes write_left: "wr c b = ret (n, e, c') \<Longrightarrow> left c' = left c"
    and quiet_end: "rd c p = ret (n, p', Some x, c') \<Longrightarrow> n = 0"
begin

lemma request_read_spec:
  assumes "good c" "usable c"
  shows "\<exists>bs err c'. request_read rd c = ret (bs, err, c') \<and> good c' \<and> usable c' \<and> sent c' = sent c \<and>
    content c = bs @ content c' \<and> left c' \<le> left c \<and> (err = None \<longrightarrow> left c' < left c) \<and> (err \<noteq> None \<longrightarrow> bs = [] \<and> content c' = [])"
proof -
  have "replicate 50 (0 :: byte) \<noteq> []" by simp
  then obtain k p' e c' where r: "rd c (replicate 50 0) = ret (int k, p', e, c')" "good c'" "k \<le> length (replicate 50 (0 :: byte))"
    "length p' = length (replicate 50 (0 :: byte))" "content c = take k p' @ content c'" "fin c' = fin c"
    "left c' \<le> left c" "e = None \<longrightarrow> left c' < left c" "\<forall>x. e = Some x \<longrightarrow> x = fin c \<and> content c' = []"
    by (rule readE [OF assms(1)])
  note keep = read_keeps [OF r(1)]
  show ?thesis
  proof (cases e)
    case None
    then have "request_read rd c = ret (take k p', None, c')" using r(1,3,4) by (simp add: request_read_def seg_0)
    then show ?thesis using None r keep assms(2) by (intro exI [of _ "take k p'"] exI [of _ None] exI [of _ c']) simp
  next
    case (Some x)
    then have "k = 0" "request_read rd c = ret ([], Some x, c')" using quiet_end [of c "replicate 50 0" "int k" p' x c'] r(1) by (simp_all add: request_read_def)
    then show ?thesis using Some r keep assms(2) by (intro exI [of _ "[]"] exI [of _ "Some x"] exI [of _ c']) auto
  qed
qed

definition relay_inv :: "bool \<Rightarrow> 'c \<Rightarrow> 'c \<Rightarrow> 'c relay_state \<Rightarrow> bool" where
  "relay_inv live l0 r0 s \<longleftrightarrow> good (rl_local s) \<and> good (rl_remote s) \<and> usable (rl_local s) \<and> usable (rl_remote s) \<and>
     dir_ok live (sent l0) (content r0) (sent (rl_local s)) (content (rl_remote s)) (rl_down s) \<and>
     dir_ok live (sent r0) (content l0) (sent (rl_remote s)) (content (rl_local s)) (rl_up s)"

lemma dir_after_read:
  assumes "dir_ok live S C arrived (content c) Reading" "content c = bs @ content c'" "err \<noteq> None \<longrightarrow> bs = [] \<and> content c' = []"
  shows "dir_ok live S C arrived (content c') (after_read bs err)"
proof (cases "err = None")
  case True
  with dir_ok_read [of live S C arrived bs "content c'"] assms(1,2) show ?thesis by (simp add: after_read_def)
next
  case False
  with dir_ok_read_end [of live S C arrived] assms show ?thesis by (simp add: after_read_def)
qed

lemma write_some:
  assumes "usable c" "wr c bs = ret (n, err, c')"
  shows "\<exists>m. m \<le> length bs \<and> sent c' = sent c @ take m bs \<and> (err = None \<longrightarrow> m = length bs) \<and> usable c'"
  using write_spec [OF assms(1), of bs] assms(2) by (auto simp: write_step_def)

definition writes_succeed :: bool where
  "writes_succeed \<longleftrightarrow> (\<forall>c b. usable c \<longrightarrow> (\<exists>c'. wr c b = ret (ilen b, None, c')))"

lemma write_succeeds:
  assumes "writes_succeed" "usable c" "wr c b = ret (n, err, c')"
  shows "err = None"
proof -
  from assms(1,2) obtain d where "wr c b = ret (ilen b, None, d)" unfolding writes_succeed_def by blast
  with assms(3) show ?thesis by simp
qed

lemma relay_step_inv:
  assumes "relay_step rd wr s s'" "relay_inv live l0 r0 s" "live \<longrightarrow> writes_succeed"
  shows "relay_inv live l0 r0 s'"
  using assms(1)
proof (cases rule: relay_step.cases)
  case (down_read bs err c)
  have g: "good (rl_remote s)" "usable (rl_remote s)" using assms(2) by (simp_all add: relay_inv_def)
  from request_read_spec [OF g] down_read have r: "good c" "usable c" "sent c = sent (rl_remote s)" "content (rl_remote s) = bs @ content c"
    "err \<noteq> None \<longrightarrow> bs = [] \<and> content c = []" by auto
  from dir_after_read [OF _ r(4,5), of live "sent l0" "content r0" "sent (rl_local s)"] assms(2) down_read r(1-3) show ?thesis
    by (simp add: relay_inv_def)
next
  case (up_read bs err c)
  have g: "good (rl_local s)" "usable (rl_local s)" using assms(2) by (simp_all add: relay_inv_def)
  from request_read_spec [OF g] up_read have r: "good c" "usable c" "sent c = sent (rl_local s)" "content (rl_local s) = bs @ content c"
    "err \<noteq> None \<longrightarrow> bs = [] \<and> content c = []" by auto
  from dir_after_read [OF _ r(4,5), of live "sent r0" "content l0" "sent (rl_remote s)"] assms(2) up_read r(1-3) show ?thesis
    by (simp add: relay_inv_def)
next
  case (down_write bs n err c)
  have u: "usable (rl_local s)" "good (rl_local s)" using assms(2) by (simp_all add: relay_inv_def)
  from write_some [OF u(1) down_write(3)] obtain m where m: "m \<le> length bs" "sent c = sent (rl_local s) @ take m bs" "err = None \<longrightarrow> m = length bs" "usable c" by blast
  have "live \<longrightarrow> err = None" using assms(3) write_succeeds [OF _ u(1) down_write(3)] by blast
  with m dir_ok_write [OF _ m(1,3)] assms(2) down_write write_keeps [OF u(2) down_write(3)] show ?thesis by (auto simp: relay_inv_def)
next
  case (up_write bs n err c)
  have u: "usable (rl_remote s)" "good (rl_remote s)" using assms(2) by (simp_all add: relay_inv_def)
  from write_some [OF u(1) up_write(3)] obtain m where m: "m \<le> length bs" "sent c = sent (rl_remote s) @ take m bs" "err = None \<longrightarrow> m = length bs" "usable c" by blast
  have "live \<longrightarrow> err = None" using assms(3) write_succeeds [OF _ u(1) up_write(3)] by blast
  with m dir_ok_write [OF _ m(1,3)] assms(2) up_write write_keeps [OF u(2) up_write(3)] show ?thesis by (auto simp: relay_inv_def)
qed

lemma relay_run_inv:
  assumes "(relay_step rd wr)\<^sup>*\<^sup>* s s'" "relay_inv live l0 r0 s" "live \<longrightarrow> writes_succeed"
  shows "relay_inv live l0 r0 s'"
  using assms by (induction rule: rtranclp_induct) (auto intro: relay_step_inv)

text \<open>No goroutine is ever stuck, and every step brings the end nearer.\<close>

fun pc_left :: "nat \<Rightarrow> relay_pc \<Rightarrow> nat" where
  "pc_left n Reading = 2 * n + 1"
| "pc_left n (Writing bs) = 2 * n + 2"
| "pc_left n Done = 0"

definition relay_measure :: "'c relay_state \<Rightarrow> nat" where
  "relay_measure s = pc_left (left (rl_remote s)) (rl_down s) + pc_left (left (rl_local s)) (rl_up s)"

lemma relay_step_measure:
  assumes "relay_step rd wr s s'" "relay_inv live l0 r0 s"
  shows "relay_measure s' < relay_measure s"
proof -
  have g: "good (rl_local s)" "good (rl_remote s)" "usable (rl_local s)" "usable (rl_remote s)" using assms(2) by (simp_all add: relay_inv_def)
  have after: "pc_left n (after_read bs err) < pc_left m Reading" if "err = None \<longrightarrow> n < m" for n m bs err
    using that by (auto simp: after_read_def)
  from assms(1) show ?thesis
  proof (cases rule: relay_step.cases)
    case (down_read bs err c)
    with request_read_spec [OF g(2,4)] after [of err "left c" "left (rl_remote s)" bs] show ?thesis by (simp add: relay_measure_def)
  next
    case (up_read bs err c)
    with request_read_spec [OF g(1,3)] after [of err "left c" "left (rl_local s)" bs] show ?thesis by (simp add: relay_measure_def)
  next
    case (down_write bs n err c)
    with write_left [OF down_write(3)] show ?thesis by (simp add: relay_measure_def after_write_def)
  next
    case (up_write bs n err c)
    with write_left [OF up_write(3)] show ?thesis by (simp add: relay_measure_def after_write_def)
  qed
qed

lemma relay_progress:
  assumes "relay_inv live l0 r0 s" "\<not> relay_done s"
  shows "\<exists>s'. relay_step rd wr s s'"
proof -
  have g: "good (rl_local s)" "good (rl_remote s)" "usable (rl_local s)" "usable (rl_remote s)" using assms(1) by (simp_all add: relay_inv_def)
  consider (dr) "rl_down s = Reading" | (dw) bs where "rl_down s = Writing bs" | (ur) "rl_up s = Reading" | (uw) bs where "rl_up s = Writing bs"
    using assms(2) by (cases "rl_down s"; cases "rl_up s") (auto simp: relay_done_def)
  then show ?thesis
  proof cases
    case dr
    with request_read_spec [OF g(2,4)] show ?thesis by (blast intro: relay_step.down_read)
  next
    case dw
    with write_spec [OF g(3), of bs] show ?thesis by (blast intro: relay_step.down_write)
  next
    case ur
    with request_read_spec [OF g(1,3)] show ?thesis by (blast intro: relay_step.up_read)
  next
    case uw
    with write_spec [OF g(4), of bs] show ?thesis by (blast intro: relay_step.up_write)
  qed
qed

lemma relay_start_inv: "good l \<Longrightarrow> good r \<Longrightarrow> usable l \<Longrightarrow> usable r \<Longrightarrow> relay_inv live l r (Relay_start l r)"
  by (simp add: relay_inv_def Relay_start_def dir_ok_start)

text \<open>Whatever the schedule, the relay comes to its end: from every state it can reach, the remaining runs are finite and end when both goroutines are done.\<close>

lemma relay_ends:
  assumes "relay_inv live l0 r0 s" "live \<longrightarrow> writes_succeed"
  shows "\<exists>s'. (relay_step rd wr)\<^sup>*\<^sup>* s s' \<and> relay_done s'"
  using assms(1)
proof (induction "relay_measure s" arbitrary: s rule: less_induct)
  case less
  show ?case
  proof (cases "relay_done s")
    case False
    with relay_progress [OF less.prems] obtain s1 where s1: "relay_step rd wr s s1" by blast
    from less.hyps [OF relay_step_measure [OF s1 less.prems] relay_step_inv [OF s1 less.prems assms(2)]]
    show ?thesis using s1 by (meson converse_rtranclp_into_rtranclp)
  qed blast
qed

lemma relay_result:
  assumes "good l" "good r" "usable l" "usable r" "writes_succeed" "Relay rd wr l r s"
  shows "sent (rl_local s) = sent l @ content r \<and> sent (rl_remote s) = sent r @ content l"
proof -
  have "relay_inv True l r s" using relay_run_inv [OF _ relay_start_inv [OF assms(1-4)]] assms(5,6) by (simp add: Relay_def)
  then show ?thesis using assms(6) dir_ok_Done by (auto simp: relay_inv_def Relay_def relay_done_def)
qed

lemma relay_prefix:
  assumes "good l" "good r" "usable l" "usable r" "(relay_step rd wr)\<^sup>*\<^sup>* (Relay_start l r) s"
  shows "(\<exists>j \<le> length (content r). sent (rl_local s) = sent l @ take j (content r)) \<and> (\<exists>j \<le> length (content l). sent (rl_remote s) = sent r @ take j (content l))"
  using relay_run_inv [OF assms(5) relay_start_inv [OF assms(1-4), of False]] dir_ok_prefix by (fastforce simp: relay_inv_def)

end

interpretation tcp_relay: relay_conns conn_Read conn_content c_fin "\<lambda>_. True" conn_left conn_Write c_out "\<lambda>_. True"
  by unfold_locales (auto simp: conn_Write_def conn_Read_def conn_left_def Let_def split: option.splits if_splits list.splits)

interpretation live_relay: relay_conns conn_Read conn_content c_fin "\<lambda>_. True" conn_left conn_Write c_out "\<lambda>c. c_room c = None"
  by unfold_locales (auto simp: conn_Write_def conn_Read_def conn_left_def Let_def split: option.splits if_splits list.splits)

lemma live_relay_writes: "live_relay.writes_succeed"
  by (auto simp: live_relay.writes_succeed_def conn_Write_def)

subsection \<open>Reading a request\<close>

lemma port_text_in:
  assumes "b = xs @ [hi, lo] @ pad" "i = ilen xs"
  shows "port_text b i = ret (Itoa (port_num hi lo))"
  using assms by (simp add: port_text_def port_or nth_append nat_add_distrib)

lemma IP_String_v4: "length ip = 4 \<Longrightarrow> IP_String (IPv4 (ip ! 0) (ip ! 1) (ip ! 2) (ip ! 3)) = IP_String ip"
  by (simp add: IP_String_def To4_def IPv4_def v4InV6Prefix_def dotted_def)

text \<open>A complete request in the array gives the host and the port of its address.\<close>

lemma Resolve_connect_addr:
  assumes "addr_wf a" "b = [v, cmd, rsv] @ a @ pad"
  shows "\<exists>r'. Resolve_connect b (3 + ilen a) r = ret r' \<and> rq_conn r' = rq_conn r \<and> rq_version r' = rq_version r \<and>
    Addr_String a = ret (JoinHostPort (rq_host r') (rq_port r'))"
  using assms(1)
proof (cases a rule: addr_wf_cases)
  case (ipv4 ip hi lo)
  have b: "b = ([v, cmd, rsv, 1] @ ip) @ [hi, lo] @ pad" using ipv4 assms(2) by (simp add: ipv4_addr_def atyp_defs)
  have ip: "b ! 4 = ip ! 0" "b ! 5 = ip ! 1" "b ! 6 = ip ! 2" "b ! 7 = ip ! 3" "b ! 3 = 1"
    using ipv4(1) unfolding b by (simp_all add: nth_append nth_Cons' numeral_eq_Suc)
  have "port_text b (3 + ilen a - 2) = ret (Itoa (port_num hi lo))"
    using port_text_in [OF b] ipv4 by (simp add: ipv4_addr_def)
  then show ?thesis using ip ipv4 IP_String_v4 [OF ipv4(1)] String_forms(1) [OF ipv4(1)]
    by (simp add: Resolve_connect_def Let_def)
next
  case (ipv6 ip hi lo)
  have b: "b = ([v, cmd, rsv, 4] @ ip) @ [hi, lo] @ pad" using ipv6 assms(2) by (simp add: ipv6_addr_def atyp_defs)
  have "b ! 3 = 4" "seg b 4 20 = ip" using ipv6(1) unfolding b by (simp_all add: seg_def)
  moreover have "port_text b (3 + ilen a - 2) = ret (Itoa (port_num hi lo))"
    using port_text_in [OF b] ipv6 by (simp add: ipv6_addr_def)
  ultimately show ?thesis using ipv6 String_forms(2) [OF ipv6(1)] by (simp add: Resolve_connect_def Let_def)
next
  case (domain host hi lo)
  have b: "b = ([v, cmd, rsv, 3, of_nat (length host)] @ host) @ [hi, lo] @ pad" using domain assms(2) by (simp add: domain_addr_def atyp_defs)
  have n: "3 + ilen a - 2 = 5 + ilen host" using domain by (simp add: domain_addr_def)
  have "b ! 3 = 3" "go_slice b 5 (5 + ilen host) = ret host" unfolding b by (simp_all add: seg_def)
  moreover have "port_text b (5 + ilen host) = ret (Itoa (port_num hi lo))" using port_text_in [OF b] by simp
  ultimately show ?thesis using domain String_forms(3) [OF domain(1)] n by (simp add: Resolve_connect_def Let_def)
qed

lemma read_segment:
  assumes "c_in c = msg # rest" "length msg \<le> 1024"
  shows "\<exists>pad. conn_Read c (replicate 1024 0) = ret (ilen msg, msg @ pad, None, c\<lparr>c_in := rest\<rparr>)"
  using assms by (simp add: conn_Read_def Let_def overwrite_def min_def)

lemma Resolve_request:
  assumes "c_in (rq_conn r) = ([v, cmd, rsv] @ a) # rest" "addr_wf a"
  shows "\<exists>r'. Resolve conn_Read STATUS_CONNECT r = ret (True, r') \<and> rq_conn r' = (rq_conn r)\<lparr>c_in := rest\<rparr> \<and> rq_version r' = rq_version r \<and>
    Addr_String a = ret (JoinHostPort (rq_host r') (rq_port r'))"
proof -
  have len: "length ([v, cmd, rsv] @ a) \<le> 1024" "4 \<le> length a" using addr_wf_length [OF assms(2)] by (simp_all add: MaxAddrLen_def)
  from read_segment [OF assms(1) len(1)] obtain pad where
    rd: "conn_Read (rq_conn r) (replicate 1024 0) = ret (3 + ilen a, [v, cmd, rsv] @ a @ pad, None, (rq_conn r)\<lparr>c_in := rest\<rparr>)" by auto
  from Resolve_connect_addr [OF assms(2) refl, of v cmd rsv pad "r\<lparr>rq_conn := (rq_conn r)\<lparr>c_in := rest\<rparr>\<rparr>"] rd
  show ?thesis by (auto simp: Resolve_def Let_def STATUS_CONNECT_def STATUS_VERIFY_def)
qed

lemma Resolve_hello:
  assumes "c_in (rq_conn r) = (5 # n # ms) # rest" "1 \<le> length ms" "length ms \<le> 1022"
  shows "Resolve conn_Read STATUS_VERIFY r = ret (True, r\<lparr>rq_conn := (rq_conn r)\<lparr>c_in := rest\<rparr>, rq_version := 5\<rparr>)"
proof -
  from read_segment [OF assms(1)] assms(3) obtain pad where
    "conn_Read (rq_conn r) (replicate 1024 0) = ret (2 + ilen ms, (5 # n # ms) @ pad, None, (rq_conn r)\<lparr>c_in := rest\<rparr>)" by auto
  moreover have "ms \<noteq> []" using assms(2) by auto
  ultimately show ?thesis by (simp add: Resolve_def Let_def STATUS_VERIFY_def STATUS_CONNECT_def)
qed

text \<open>The handler on a client whose two messages arrive in one segment each.\<close>

lemma Serv_setup_ok:
  assumes "c_in c = (5 # n # ms) # ([v, cmd, rsv] @ a) # rest" "1 \<le> length ms" "length ms \<le> 1022" "addr_wf a" "c_room c = None"
    and "Addr_String a = ret target" "dial target = Inr remote"
  shows "\<exists>r'. Serv_setup conn_Read conn_Write dial (NewRequest c) = ret (Relaying r' remote) \<and>
    rq_conn r' = c\<lparr>c_in := rest, c_out := c_out c @ [5, 0] @ [5, 0, 0, 1, 0, 0, 0, 0, 0, 0]\<rparr>"
proof -
  let ?c1 = "c\<lparr>c_in := ([v, cmd, rsv] @ a) # rest\<rparr>"
  let ?r1 = "(NewRequest c)\<lparr>rq_conn := ?c1, rq_version := 5\<rparr>"
  have h: "Resolve conn_Read STATUS_VERIFY (NewRequest c) = ret (True, ?r1)"
    using Resolve_hello [of "NewRequest c", OF _ assms(2,3)] assms(1) by (simp add: NewRequest_def)
  let ?c2 = "?c1\<lparr>c_out := c_out c @ [5, 0]\<rparr>"
  have v: "ResponseVerify conn_Write ?r1 = ret (?r1\<lparr>rq_conn := ?c2\<rparr>)" using assms(5) by (simp add: ResponseVerify_def conn_Write_def)
  from Resolve_request [of "?r1\<lparr>rq_conn := ?c2\<rparr>" v cmd rsv a rest, OF _ assms(4)] obtain r2 where
    r2: "Resolve conn_Read STATUS_CONNECT (?r1\<lparr>rq_conn := ?c2\<rparr>) = ret (True, r2)" "rq_conn r2 = ?c2\<lparr>c_in := rest\<rparr>"
      "JoinHostPort (rq_host r2) (rq_port r2) = target" using assms(6) by auto
  have "ResponseConnect conn_Write r2 = ret (r2\<lparr>rq_conn := c\<lparr>c_in := rest, c_out := c_out c @ [5, 0] @ [5, 0, 0, 1, 0, 0, 0, 0, 0, 0]\<rparr>\<rparr>)"
    using r2(2) assms(5) by (simp add: ResponseConnect_def conn_Write_def)
  moreover have "connect dial (r2\<lparr>rq_conn := x\<rparr>) = ret remote" for x using r2(3) assms(7) by (simp add: connect_def)
  ultimately show ?thesis using h v r2(1) by (simp add: Serv_setup_def)
qed

subsection \<open>Properties\<close>

text \<open>
  C7: The older handler, from end to end: a client whose greeting and request come in one segment each is connected to the address
  that \<^verbatim>\<open>Addr.String\<close> gives for the request; whatever the schedule of the two relaying goroutines, the handler can only end with
  the client having received the two replies and then every byte of the target, and the target every further byte of the client,
  and it does end.
\<close>

theorem Serv_relays:
  assumes "c_in c = (5 # n # ms) # ([v, cmd, rsv] @ a) # rest" "1 \<le> length ms" "length ms \<le> 1022" "addr_wf a" "c_room c = None"
    and "Addr_String a = ret target" "dial target = Inr remote" "c_room remote = None"
  shows "(\<exists>c' remote'. Serv conn_Read conn_Write dial (NewRequest c) c' remote' None) \<and>
    (\<forall>c' remote' p. Serv conn_Read conn_Write dial (NewRequest c) c' remote' p \<longrightarrow>
       p = None \<and> c_out c' = c_out c @ [5, 0] @ [5, 0, 0, 1, 0, 0, 0, 0, 0, 0] @ conn_content remote \<and>
       (\<exists>d. remote' = Some d \<and> c_out d = c_out remote @ concat rest))"
proof -
  from Serv_setup_ok [where dial = dial, OF assms(1-7)] obtain r' where su: "Serv_setup conn_Read conn_Write dial (NewRequest c) = ret (Relaying r' remote)"
    and rc: "rq_conn r' = c\<lparr>c_in := rest, c_out := c_out c @ [5, 0] @ [5, 0, 0, 1, 0, 0, 0, 0, 0, 0]\<rparr>" by blast
  have room: "c_room (rq_conn r') = None" using rc assms(5) by simp
  note inv = live_relay.relay_start_inv [OF TrueI TrueI room assms(8)]
  from live_relay.relay_ends [OF inv [of True]] live_relay_writes obtain s where "Relay conn_Read conn_Write (rq_conn r') remote s"
    by (auto simp: Relay_def)
  then have "\<exists>c' remote'. Serv conn_Read conn_Write dial (NewRequest c) c' remote' None" using Serv.serv_relayed [OF su] by blast
  moreover have "p = None \<and> c_out c' = c_out c @ [5, 0] @ [5, 0, 0, 1, 0, 0, 0, 0, 0, 0] @ conn_content remote \<and>
      (\<exists>d. remote' = Some d \<and> c_out d = c_out remote @ concat rest)"
    if "Serv conn_Read conn_Write dial (NewRequest c) c' remote' p" for c' remote' p
    using that
  proof cases
    case (serv_relayed r2 rem s)
    then have "Relay conn_Read conn_Write (rq_conn r') remote s" using su by auto
    from live_relay.relay_result [OF TrueI TrueI room assms(8) live_relay_writes this] serv_relayed rc show ?thesis
      by (simp add: conn_content_def)
  qed (use su in auto)
  ultimately show ?thesis by blast
qed

text \<open>
  C8: The relaying goroutines of the older handler always come to an end: on any two connections, however they fail, no schedule
  goes on for ever, and as long as one of the two is not done the relay can take a step; at every moment each side has received
  a prefix of what the other one sent.
\<close>

theorem Relay_terminates:
  "(\<nexists>f. f 0 = Relay_start l r \<and> (\<forall>i. relay_step conn_Read conn_Write (f i) (f (Suc i)))) \<and>
   (\<forall>s. (relay_step conn_Read conn_Write)\<^sup>*\<^sup>* (Relay_start l r) s \<longrightarrow>
      (relay_done s \<or> (\<exists>s'. relay_step conn_Read conn_Write s s')) \<and>
      (\<exists>j \<le> length (conn_content r). c_out (rl_local s) = c_out l @ take j (conn_content r)) \<and>
      (\<exists>j \<le> length (conn_content l). c_out (rl_remote s) = c_out r @ take j (conn_content l)))"
proof -
  have "ends_in (relay_step conn_Read conn_Write) (Relay_start l r) relay_done"
    by (rule ends_inI [where R = "measure tcp_relay.relay_measure" and I = "tcp_relay.relay_inv False l r"])
      (use tcp_relay.relay_start_inv tcp_relay.relay_step_inv tcp_relay.relay_step_measure tcp_relay.relay_progress in auto)
  then show ?thesis using tcp_relay.relay_prefix [OF TrueI TrueI TrueI TrueI] unfolding ends_in_def by blast
qed

text \<open>
  Whatever a client of this handler sends and whatever its target does, \<^verbatim>\<open>Serv\<close> comes to its end: it recovers from every panic before the relay.
\<close>

definition ends :: "'a go \<Rightarrow> bool" where "ends m \<longleftrightarrow> m \<noteq> None"

lemma ends_gobind: "ends m \<Longrightarrow> (\<And>x. ends (f x)) \<Longrightarrow> ends (gobind m f)"
  by (auto simp: ends_def gobind_def split: run.splits)

lemma go_try_returns: "ends m \<Longrightarrow> (\<And>x. \<exists>y. f x = ret y) \<Longrightarrow> (\<And>p. \<exists>y. h p = ret y) \<Longrightarrow> \<exists>y. go_try m f h = ret y"
  by (auto simp: ends_def go_try_def split: option.splits run.splits)

lemma ends_basic: "ends (conn_Read c p)" "ends (conn_Write c p)" "ends (ret x)" "ends (throw q)" "ends (go_slice xs lo hi)" "ends (go_index xs i)"
  by (auto simp: ends_def conn_Read_def conn_Write_def go_slice_def go_index_def ret_def throw_def Let_def split: list.split option.split)

lemma ends_stages: "ends (Resolve conn_Read st r)" "ends (ResponseVerify conn_Write r)" "ends (ResponseConnect conn_Write r)" "ends (connect dial r)"
  unfolding Resolve_def Resolve_connect_def port_text_def ResponseVerify_def ResponseConnect_def connect_def Let_def
  by (auto intro!: ends_gobind ends_basic split: prod.split sum.split)

lemma Serv_setup_returns: "\<exists>x. Serv_setup conn_Read conn_Write dial r = ret x"
  unfolding Serv_setup_def by (auto intro!: go_try_returns ends_basic ends_stages split: prod.split)

lemma Serv_returns: "\<exists>c' remote' p. Serv conn_Read conn_Write dial r c' remote' p"
proof -
  from Serv_setup_returns obtain x where x: "Serv_setup conn_Read conn_Write dial r = ret x" by blast
  show ?thesis
  proof (cases x)
    case (Relaying r' remote)
    note inv = tcp_relay.relay_start_inv [OF TrueI TrueI TrueI TrueI, of False "rq_conn r'" remote]
    from tcp_relay.relay_ends [OF inv] obtain s where "Relay conn_Read conn_Write (rq_conn r') remote s" by (auto simp: Relay_def)
    with x Relaying show ?thesis by (blast intro: serv_relayed)
  qed (use x in \<open>blast intro: serv_recovered serv_finished\<close>)+
qed

subsection \<open>Concrete runs\<close>

definition old_client :: conn where
  "old_client = sample_source [[5, 1, 0], [5, 1, 0, 1, 127, 0, 0, 1, 0, 80], [71, 69, 84]]"

lemma sample_source_fields [simp]: "c_in (sample_source s) = s" "c_room (sample_source s) = None" "c_out (sample_source s) = []"
  by (simp_all add: sample_source_def)

lemma sample_target: "Addr_String [1, 127, 0, 0, 1, 0, 80] = ret ''127.0.0.1:80''"
  using String_forms(1) [of "[127, 0, 0, 1]" 0 80]
  by (simp add: ipv4_addr_def ATYPIPv4_def IP_String_def To4_def dotted_def JoinHostPort_def port_num_def Itoa.simps digit_char_def char_of_def bit_0)

theorem Serv_relays_witness:
  "\<exists>c' d. Serv conn_Read conn_Write (\<lambda>_. Inr (sample_source [[72, 73]])) (NewRequest old_client) c' (Some d) None \<and>
     c_out c' = [5, 0, 5, 0, 0, 1, 0, 0, 0, 0, 0, 0, 72, 73] \<and> c_out d = [71, 69, 84]"
proof -
  have "(\<exists>c' remote'. Serv conn_Read conn_Write (\<lambda>_. Inr (sample_source [[72, 73]])) (NewRequest old_client) c' remote' None) \<and>
   (\<forall>c' remote' p. Serv conn_Read conn_Write (\<lambda>_. Inr (sample_source [[72, 73]])) (NewRequest old_client) c' remote' p \<longrightarrow>
      p = None \<and> c_out c' = [5, 0, 5, 0, 0, 1, 0, 0, 0, 0, 0, 0, 72, 73] \<and> (\<exists>d. remote' = Some d \<and> c_out d = [71, 69, 84]))"
    using Serv_relays [of old_client 1 "[0]" 5 1 0 "[1, 127, 0, 0, 1, 0, 80]" "[[71, 69, 84]]" "''127.0.0.1:80''" "\<lambda>_. Inr (sample_source [[72, 73]])" "sample_source [[72, 73]]"]
      sample_addr_wf sample_target by (simp add: old_client_def conn_content_def)
  then show ?thesis by blast
qed

theorem Relay_terminates_witness:
  "\<exists>s. relay_step conn_Read conn_Write (Relay_start (sample_source [[1]]) (sample_source [])) s"
proof -
  have "\<not> relay_done (Relay_start (sample_source [[1]]) (sample_source []))" by (simp add: relay_done_def Relay_start_def)
  then show ?thesis using Relay_terminates [of "sample_source [[1]]" "sample_source []"] by blast
qed

text \<open>
  A request for \<^verbatim>\<open>127.0.0.1:80\<close> that the network delivers in two segments is taken for one for \<^verbatim>\<open>127.0.0.0:383\<close>: the handler reads
  once and takes the last two bytes it got for the port.
\<close>

lemma Resolve_split_request:
  "\<exists>r'. Resolve conn_Read STATUS_CONNECT (NewRequest (sample_source [[5, 1, 0, 1, 127], [0, 0, 1, 0, 80]])) = ret (True, r') \<and>
     rq_host r' = ''127.0.0.0'' \<and> rq_port r' = ''383''"
proof -
  have "conn_Read (sample_source [[5, 1, 0, 1, 127], [0, 0, 1, 0, 80]]) (replicate 1024 0) =
      ret (5, [5, 1, 0, 1, 127] @ replicate 1019 0, None, sample_source [[5, 1, 0, 1, 127], [0, 0, 1, 0, 80]]\<lparr>c_in := [[0, 0, 1, 0, 80]]\<rparr>)"
    by (simp add: conn_Read_def overwrite_def Let_def)
  then show ?thesis
    by (simp add: Resolve_def NewRequest_def Resolve_connect_def Let_def STATUS_CONNECT_def STATUS_VERIFY_def port_text_def go_index_def port_or port_num_def
      IP_String_def IPv4_def To4_def v4InV6Prefix_def dotted_def Itoa.simps digit_char_def char_of_def bit_0)
qed

end
