(* ===== verification/Server_Config.thy ===== *)
theory Server_Config
  imports Core_Cipher Net_Text
begin

text \<open>
  \<^verbatim>\<open>m_config/config.go\<close> and the parts of \<^verbatim>\<open>m_server/server.go\<close> that set the server up and take it down: \<^verbatim>\<open>NewServer\<close>, \<^verbatim>\<open>InitConfig\<close>,
  \<^verbatim>\<open>ShutdownHandler\<close>.  Go's \<^verbatim>\<open>int\<close> and \<^verbatim>\<open>time.Duration\<close> are 64-bit, read as signed; a number of seconds becomes a duration by
  a multiplication that wraps.
\<close>

type_synonym duration = "64 word"

definition Millisecond :: duration where "Millisecond = 1000000"
definition Second :: duration where "Second = 1000000000"

subsection \<open>Configuration\<close>

record ConfigServer =
  cf_Local :: bool
  cf_Port :: int
  cf_RemoteServer :: string
  cf_MonitorPort :: int
  cf_Cipher :: string
  cf_Username :: string
  cf_Password :: string
  cf_ClientReadTimeout :: int
  cf_ClientWriteTimeout :: int
  cf_GracefulShutdownTimeout :: int
  cf_MaxIdle :: int
  cf_MaxCpus :: int

record Conf =
  cf_Server :: ConfigServer

definition zero_Conf :: Conf where
  "zero_Conf = \<lparr>cf_Server = \<lparr>cf_Local = False, cf_Port = 0, cf_RemoteServer = '''', cf_MonitorPort = 0, cf_Cipher = '''', cf_Username = '''',
     cf_Password = '''', cf_ClientReadTimeout = 0, cf_ClientWriteTimeout = 0, cf_GracefulShutdownTimeout = 0, cf_MaxIdle = 0, cf_MaxCpus = 0\<rparr>\<rparr>"

definition ConfigServer_SetDefaultConfig :: "ConfigServer \<Rightarrow> ConfigServer" where
  "ConfigServer_SetDefaultConfig cfg = cfg\<lparr>cf_ClientReadTimeout := 60, cf_ClientWriteTimeout := 60, cf_GracefulShutdownTimeout := 10\<rparr>"

definition SetDefaultConfig :: "Conf \<Rightarrow> Conf" where
  "SetDefaultConfig conf = conf\<lparr>cf_Server := ConfigServer_SetDefaultConfig (cf_Server conf)\<rparr>"

text \<open>\<open>ReadFileInto\<close> is the function of \<^verbatim>\<open>gcfg\<close>; \<open>Inl e\<close> is the end of the process in \<^verbatim>\<open>log.Fatalf\<close>.\<close>

definition ConfigLoad :: "(Conf \<Rightarrow> string \<Rightarrow> goerr option \<times> Conf) \<Rightarrow> string \<Rightarrow> string \<Rightarrow> (Conf \<Rightarrow> Conf) \<Rightarrow> goerr + Conf \<times> goerr option" where
  "ConfigLoad ReadFileInto path confRoot f =
     (let cfg = f zero_Conf in
      case ReadFileInto cfg path of (err, cfg) \<Rightarrow>
        (case err of Some e \<Rightarrow> Inl e | None \<Rightarrow> Inr (cfg, err)))"

subsection \<open>The server object\<close>

record Stats =
  st_ReqNum :: "64 word"
  st_CoNum :: "64 word"

text \<open>\<open>srv_notified\<close> says that \<^verbatim>\<open>CloseNotifyCh\<close> is closed; \<open>None\<close> is a nil interface; \<open>srv_connWaitGroup\<close> is the counter of the wait group.\<close>

record 'l Server =
  srv_Addr :: string
  srv_Cipher :: "Cipher option"
  srv_ReadTimeout :: duration
  srv_WriteTimeout :: duration
  srv_TlsHandshakeTimeout :: duration
  srv_GracefulShutdownTimeout :: duration
  srv_notified :: bool
  srv_listener :: "'l option"
  srv_connWaitGroup :: int
  srv_Config :: Conf
  srv_ConfRoot :: string
  srv_stats :: Stats
  srv_Version :: string

definition seconds :: "int \<Rightarrow> duration" where
  "seconds n = word_of_int n * Second"

definition InitConfig :: "'l Server \<Rightarrow> 'l Server" where
  "InitConfig srv =
     (let cfg = cf_Server (srv_Config srv);
          srv = srv\<lparr>srv_Addr := CHR '':'' # int_text (cf_Port cfg)\<rparr>;
          srv = (if cf_ClientReadTimeout cfg \<noteq> 0 then srv\<lparr>srv_ReadTimeout := seconds (cf_ClientReadTimeout cfg)\<rparr> else srv)
      in srv\<lparr>srv_GracefulShutdownTimeout := seconds (cf_GracefulShutdownTimeout cfg)\<rparr>)"

definition zero_Server :: "'l Server" where
  "zero_Server = \<lparr>srv_Addr = '''', srv_Cipher = None, srv_ReadTimeout = 0, srv_WriteTimeout = 0, srv_TlsHandshakeTimeout = 0,
     srv_GracefulShutdownTimeout = 0, srv_notified = False, srv_listener = None, srv_connWaitGroup = 0, srv_Config = zero_Conf, srv_ConfRoot = '''',
     srv_stats = \<lparr>st_ReqNum = 0, st_CoNum = 0\<rparr>, srv_Version = ''''\<rparr>"

definition NewServer :: "Conf \<Rightarrow> string \<Rightarrow> string \<Rightarrow> 'l Server" where
  "NewServer cfg confRoot version =
     (let s = zero_Server\<lparr>srv_Config := cfg, srv_ConfRoot := confRoot\<rparr>;
          s = InitConfig s
      in s\<lparr>srv_notified := False, srv_stats := \<lparr>st_ReqNum = 0, st_CoNum = 0\<rparr>, srv_Version := version\<rparr>)"

definition InitSocks :: "'l Server \<Rightarrow> goerr option" where
  "InitSocks srv = None"

subsection \<open>Shutdown\<close>

text \<open>\<open>lclose\<close> is the listener's \<^verbatim>\<open>Close\<close>; an error of it is only logged.\<close>

definition closeListeners :: "('l \<Rightarrow> goerr option \<times> 'l) \<Rightarrow> 'l Server \<Rightarrow> 'l Server go" where
  "closeListeners lclose srv =
     (case srv_listener srv of
        None \<Rightarrow> throw NilDeref
      | Some l \<Rightarrow> (case lclose l of (err, l) \<Rightarrow> ret (srv\<lparr>srv_listener := Some l\<rparr>)))"

text \<open>
  The handler waits for the wait group or for the timeout, whichever comes first: the wait group lets it go on when its counter is zero, and
  \<open>timer_first\<close> says that the timer was ready before that.  Both ways end the process with \<^verbatim>\<open>os.Exit(0)\<close>; the result is what was
  waited for, the exit status and the server as it is then.
\<close>

datatype shutdown_end = GracefulSuccess | GracefulTimeout

definition ShutdownHandler :: "('l \<Rightarrow> goerr option \<times> 'l) \<Rightarrow> bool \<Rightarrow> 'l Server \<Rightarrow> (shutdown_end \<times> int \<times> 'l Server) go" where
  "ShutdownHandler lclose timer_first srv =
     (if srv_notified srv then throw (PanicMsg ''close of closed channel'')
      else gobind (closeListeners lclose (srv\<lparr>srv_notified := True\<rparr>)) (\<lambda>srv.
        ret (if srv_connWaitGroup srv = 0 \<and> \<not> timer_first then GracefulSuccess else GracefulTimeout, 0, srv)))"

definition CheckGracefulShutdown :: "'l Server \<Rightarrow> bool" where
  "CheckGracefulShutdown srv = srv_notified srv"

subsection \<open>What the settings do and do not reach\<close>

lemma NewServer_fields:
  "srv_listener (NewServer cfg r v) = None" "srv_notified (NewServer cfg r v) = False" "srv_Config (NewServer cfg r v) = cfg"
  "srv_Cipher (NewServer cfg r v) = None" "st_ReqNum (srv_stats (NewServer cfg r v)) = 0"
  by (simp_all add: NewServer_def InitConfig_def zero_Server_def Let_def)

end
