(* ===== verification/Live_Sink.thy ===== *)
theory Live_Sink
  imports Bufio_Writer
begin

text \<open>
  Sinks that take everything.  \<open>live_sink\<close> sharpens the contract \<open>byte_sink\<close> for a peer that keeps reading; a buffered writer over such a
  sink is one again, so the layers of the program can be stacked on it.
\<close>

locale live_sink =
  fixes wr :: "'w writer_fn" and sent :: "'w \<Rightarrow> bytes" and usable :: "'w \<Rightarrow> bool"
  assumes write_all: "usable w \<Longrightarrow> \<exists>w'. wr w b = ret (ilen b, None, w') \<and> usable w' \<and> sent w' = sent w @ b"
begin

lemma live_write: "usable w \<Longrightarrow> wr w b = ret (n, e, w') \<Longrightarrow> n = ilen b \<and> e = None \<and> usable w'"
  using write_all [of w b] by auto

end

sublocale live_sink \<subseteq> byte_sink wr sent usable
  by unfold_locales (use write_all in \<open>fastforce simp: write_step_def\<close>)

subsection \<open>The buffered writer\<close>

locale live_buffer = live_sink
begin

definition live_b :: "'a Writer \<Rightarrow> bool" where
  "live_b b \<longleftrightarrow> usable (wb_wr b) \<and> wb_err b = None"

lemma flush_live:
  assumes "live_b b" "Writer_flush wr b = ret (e, b')"
  shows "live_b b' \<and> e = None"
proof (cases "wb_n b = 0")
  case True
  with assms show ?thesis by (auto simp: Writer_flush_def live_b_def)
next
  case False
  with assms obtain p where p: "go_slice (wb_buf b) 0 (wb_n b) = ret p"
    by (auto simp: Writer_flush_def live_b_def gobind_eq_ret)
  then have lp: "ilen p = wb_n b" by (auto simp: go_slice_def length_seg split: if_splits)
  from write_all [of "wb_wr b" p] assms(1) obtain w where w: "wr (wb_wr b) p = ret (wb_n b, None, w)" "usable w"
    by (auto simp: live_b_def lp)
  have "Writer_flush wr b = ret (None, b\<lparr>wb_wr := w, wb_n := 0\<rparr>)"
    using False assms(1) p w(1) by (simp add: Writer_flush_def live_b_def)
  with assms w(2) show ?thesis by (simp add: live_b_def) (auto simp: live_b_def)
qed

lemma append_live: "live_b b \<Longrightarrow> Writer_append b p = ret (n, b') \<Longrightarrow> live_b b'"
  by (auto simp: Writer_append_def live_b_def gobind_eq_ret Let_def)

lemma loop_live:
  assumes "Writer_Write_loop wr b p nn = ret (q, m, b')" "live_b b"
  shows "live_b b'"
proof -
  let ?P = "\<lambda>wr1 b p nn y. wr1 = wr \<longrightarrow> (\<forall>q m b'. y = Val (q, m, b') \<longrightarrow> live_b b \<longrightarrow> live_b b')"
  have "?P wr b p nn (Val (q, m, b'))"
  proof (rule Writer_Write_loop.raw_induct [where P = ?P])
    fix loop :: "'a writer_fn \<Rightarrow> 'a Writer \<Rightarrow> bytes \<Rightarrow> int \<Rightarrow> (bytes \<times> int \<times> 'a Writer) go" and wr1 b p nn y
    assume IH: "\<And>wr1 b p nn y. loop wr1 b p nn = Some y \<Longrightarrow> ?P wr1 b p nn y"
      and body: "(if Writer_Available b < ilen p \<and> wb_err b = None then
        gobind
          (if Writer_Buffered b = 0 then gobind (wr1 (wb_wr b) p) (\<lambda>(n, err, w). ret (n, b\<lparr>wb_wr := w, wb_err := err\<rparr>))
           else gobind (Writer_append b p) (\<lambda>(n, b). gobind (Writer_flush wr1 b) (\<lambda>(_, b). ret (n, b)))) (\<lambda>(n, b).
        gobind (go_slice p n (ilen p)) (\<lambda>p. loop wr1 b p (nn + n)))
      else ret (p, nn, b)) = Some y"
    show "?P wr1 b p nn y"
    proof (intro impI allI)
      fix q m b' assume wr1: "wr1 = wr" and y: "y = Val (q, m, b')" and live: "live_b b"
      show "live_b b'"
      proof (cases "Writer_Available b < ilen p \<and> wb_err b = None")
        case False
        then show ?thesis using body y live by (simp only: if_False) (simp add: ret_def)
      next
        case True
        then obtain n b1 p1 where step: "(if Writer_Buffered b = 0 then gobind (wr (wb_wr b) p) (\<lambda>(n, err, w). ret (n, b\<lparr>wb_wr := w, wb_err := err\<rparr>))
           else gobind (Writer_append b p) (\<lambda>(n, b). gobind (Writer_flush wr b) (\<lambda>(_, b). ret (n, b)))) = ret (n, b1)"
          and rec: "loop wr b1 p1 (nn + n) = ret (q, m, b')"
          using body y wr1 by (auto simp: some_ret gobind_eq_ret)
        have "live_b b1"
          using step live by (auto simp: gobind_eq_ret split: if_splits dest: append_live flush_live live_write)
            (auto simp: live_b_def dest: live_write)
        with IH [of wr b1 p1 "nn + n" "Val (q, m, b')"] rec show ?thesis by (simp add: ret_def)
      qed
    qed
  qed (use assms(1) in \<open>simp add: ret_def\<close>)
  with assms(2) show ?thesis by simp
qed

lemma Write_live:
  assumes "Writer_Write wr b p = ret (n, e, b')" "live_b b"
  shows "live_b b'"
proof -
  from assms(1) obtain q m b1 where l: "Writer_Write_loop wr b p 0 = ret (q, m, b1)" and f: "Writer_finish b1 q m = ret (n, e, b')"
    by (auto simp: Writer_Write_def gobind_eq_ret)
  have live: "live_b b1" by (rule loop_live [OF l assms(2)])
  with f have "gobind (Writer_append b1 q) (\<lambda>(n, b). ret (m + n, None, b\<lparr>wb_TotalWrite := wb_TotalWrite b + (m + n)\<rparr>)) = ret (n, e, b')"
    by (simp add: Writer_finish_def live_b_def)
  then obtain k b2 where "Writer_append b1 q = ret (k, b2)" "b' = b2\<lparr>wb_TotalWrite := wb_TotalWrite b2 + (m + k)\<rparr>"
    by (auto simp: gobind_eq_ret)
  with append_live [OF live] show ?thesis by (simp add: live_b_def)
qed

end

sublocale live_buffer \<subseteq> write_buffered wr sent usable
  by unfold_locales

context live_buffer
begin

lemma buffer_write_all:
  assumes "wb_wf usable b \<and> wb_err b = None"
  shows "\<exists>b'. Writer_Write wr b p = ret (ilen p, None, b') \<and> (wb_wf usable b' \<and> wb_err b' = None) \<and> accepted sent b' = accepted sent b @ p"
proof -
  from Write_spec [of b p] assms obtain k e b' where w: "Writer_Write wr b p = ret (int k, e, b')" "wb_wf usable b'"
    and st: "write_step (accepted sent) b p k e b'" "e = wb_err b'" by blast
  have "wb_err b' = None" using Write_live [OF w(1)] assms by (simp add: live_b_def wb_wf_def)
  with w st show ?thesis by (auto simp: write_step_def)
qed

end

sublocale live_buffer \<subseteq> wlive: live_sink "Writer_Write wr" "accepted sent" "\<lambda>b. wb_wf usable b \<and> wb_err b = None"
  by unfold_locales (rule buffer_write_all)

end
