(* ===== verification/Server_Cork.thy ===== *)
theory Server_Cork
  imports Live_Sink
begin

text \<open>
  \<^verbatim>\<open>corkedConn\<close> of \<^verbatim>\<open>m_server/socks_server.go\<close>: a connection whose first writes are collected in a buffer until a timer, started by
  the first of them, uncorks it.  The buffer is a \<^verbatim>\<open>bufio.Writer\<close> of Go's standard library, of which \<^verbatim>\<open>m_bufio\<close> is a copy, so the
  model of \<open>Writer\<close> serves for it.  The buffered writer and the connection object share one \<^verbatim>\<open>net.Conn\<close>, which is kept in the writer.
  The mutex makes a \<^verbatim>\<open>Write\<close> and the timer's function atomic: they are the steps of \<open>cork_step\<close>.
\<close>

record 'c corkedConn =
  ck_bufw :: "'c Writer"
  ck_corked :: bool
  ck_delay :: "64 word"
  ck_err :: "goerr option"
  ck_once :: bool

definition timedCork :: "'c \<Rightarrow> 64 word \<Rightarrow> int \<Rightarrow> 'c corkedConn" where
  "timedCork c d bufSize = \<lparr>ck_bufw = new_Writer c bufSize, ck_corked = True, ck_delay = d, ck_err = None, ck_once = False\<rparr>"

definition corked_Write :: "'c writer_fn \<Rightarrow> 'c corkedConn writer_fn" where
  "corked_Write wr w p =
     (if ck_err w \<noteq> None then ret (0, ck_err w, w)
      else if ck_corked w then
        gobind (Writer_Write wr (ck_bufw w) p) (\<lambda>(n, err, b). ret (n, err, w\<lparr>ck_once := True, ck_bufw := b\<rparr>))
      else
        gobind (wr (wb_wr (ck_bufw w)) p) (\<lambda>(n, err, c). ret (n, err, w\<lparr>ck_bufw := (ck_bufw w)\<lparr>wb_wr := c\<rparr>\<rparr>)))"

text \<open>The function of the timer.  The timer was started when \<open>once\<close> was taken, and it fires once.\<close>

definition cork_fire :: "'c writer_fn \<Rightarrow> 'c corkedConn \<Rightarrow> 'c corkedConn go" where
  "cork_fire wr w =
     (let w = w\<lparr>ck_corked := False\<rparr> in
      gobind (Writer_Flush wr (ck_bufw w)) (\<lambda>(err, b). ret (w\<lparr>ck_bufw := b, ck_err := err\<rparr>)))"

text \<open>Reading goes to the connection itself.\<close>

definition corked_Read :: "'c reader_fn \<Rightarrow> 'c corkedConn reader_fn" where
  "corked_Read rd w p =
     gobind (rd (wb_wr (ck_bufw w)) p) (\<lambda>(n, p, err, c). ret (n, p, err, w\<lparr>ck_bufw := (ck_bufw w)\<lparr>wb_wr := c\<rparr>\<rparr>))"

inductive cork_step :: "'c writer_fn \<Rightarrow> 'c corkedConn \<Rightarrow> bytes \<Rightarrow> 'c corkedConn \<Rightarrow> bool" for wr where
  cork_write: "corked_Write wr w p = ret (n, err, w') \<Longrightarrow> cork_step wr w (take (nat n) p) w'"
| cork_timer: "ck_once w \<Longrightarrow> ck_corked w \<Longrightarrow> cork_fire wr w = ret w' \<Longrightarrow> cork_step wr w [] w'"

inductive cork_run :: "'c writer_fn \<Rightarrow> 'c corkedConn \<Rightarrow> bytes \<Rightarrow> 'c corkedConn \<Rightarrow> bool" for wr where
  cork_Nil: "cork_run wr w [] w"
| cork_Cons: "cork_step wr w out w1 \<Longrightarrow> cork_run wr w1 outs w' \<Longrightarrow> cork_run wr w (out @ outs) w'"

inductive_cases cork_stepE: "cork_step wr w out w'"

subsection \<open>When the timer fires\<close>

text \<open>
  A corked connection together with the choices of the runtime: \<open>tc_fires\<close> says of each write to come whether the timer, if it is
  running, fires before it.  Every moment at which the timer can fire is before some write or behind all of them.
\<close>

record 'c timedConn =
  tc_conn :: "'c corkedConn"
  tc_fires :: "bool list"

definition timer_tick :: "'c writer_fn \<Rightarrow> 'c timedConn \<Rightarrow> 'c timedConn go" where
  "timer_tick wr w =
     (case tc_fires w of
        [] \<Rightarrow> ret w
      | f # fs \<Rightarrow>
          gobind (if f \<and> ck_once (tc_conn w) \<and> ck_corked (tc_conn w) then cork_fire wr (tc_conn w) else ret (tc_conn w)) (\<lambda>c.
          ret (w\<lparr>tc_conn := c, tc_fires := fs\<rparr>)))"

definition timed_Write :: "'c writer_fn \<Rightarrow> 'c timedConn writer_fn" where
  "timed_Write wr w p =
     gobind (timer_tick wr w) (\<lambda>w.
     gobind (corked_Write wr (tc_conn w) p) (\<lambda>(n, err, c). ret (n, err, w\<lparr>tc_conn := c\<rparr>)))"

definition timed_Read :: "'c reader_fn \<Rightarrow> 'c timedConn reader_fn" where
  "timed_Read rd w p = gobind (corked_Read rd (tc_conn w) p) (\<lambda>(n, p, err, c). ret (n, p, err, w\<lparr>tc_conn := c\<rparr>))"

text \<open>The network connection below, and the same connection with another one in its place.\<close>

definition net_conn :: "'c timedConn \<Rightarrow> 'c" where
  "net_conn w = wb_wr (ck_bufw (tc_conn w))"

definition set_net :: "'c \<Rightarrow> 'c timedConn \<Rightarrow> 'c timedConn" where
  "set_net v w = w\<lparr>tc_conn := (tc_conn w)\<lparr>ck_bufw := (ck_bufw (tc_conn w))\<lparr>wb_wr := v\<rparr>\<rparr>\<rparr>"

subsection \<open>The invariant\<close>

text \<open>An uncorked connection without an error has nothing left in its buffer.\<close>

definition ck_wf :: "('c \<Rightarrow> bool) \<Rightarrow> 'c corkedConn \<Rightarrow> bool" where
  "ck_wf usable w \<longleftrightarrow> wb_wf usable (ck_bufw w) \<and> (\<not> ck_corked w \<and> ck_err w = None \<longrightarrow> wb_n (ck_bufw w) = 0)"

definition ck_accepted :: "('c \<Rightarrow> bytes) \<Rightarrow> 'c corkedConn \<Rightarrow> bytes" where
  "ck_accepted sent w = accepted sent (ck_bufw w)"

definition tc_accepted :: "('c \<Rightarrow> bytes) \<Rightarrow> 'c timedConn \<Rightarrow> bytes" where
  "tc_accepted sent w = ck_accepted sent (tc_conn w)"

lemma timedCork_wf: "usable c \<Longrightarrow> ck_wf usable (timedCork c d n)"
  by (simp add: ck_wf_def timedCork_def new_Writer_def wb_wf_def defaultWriteSize_def)

locale corked = write_buffered wr sent usable for wr :: "'c writer_fn" and sent usable
begin

lemma corked_Write_spec:
  assumes "ck_wf usable w"
  shows "\<exists>k e w'. corked_Write wr w p = ret (int k, e, w') \<and> ck_wf usable w' \<and> write_step (ck_accepted sent) w p k e w'"
proof -
  have wf: "wb_wf usable (ck_bufw w)" using assms by (simp add: ck_wf_def)
  consider (err) "ck_err w \<noteq> None" | (corked) "ck_err w = None" "ck_corked w" | (direct) "ck_err w = None" "\<not> ck_corked w" by blast
  then show ?thesis
  proof cases
    case err
    then show ?thesis using assms by (intro exI [of _ 0] exI [of _ "ck_err w"] exI [of _ w]) (simp add: corked_Write_def write_step_def)
  next
    case corked
    from Write_spec [OF wf, of p] obtain k e b where "Writer_Write wr (ck_bufw w) p = ret (int k, e, b)" "wf_b b" "write_step (accepted sent) (ck_bufw w) p k e b"
      by blast
    then show ?thesis using corked
      by (intro exI [of _ k] exI [of _ e] exI [of _ "w\<lparr>ck_once := True, ck_bufw := b\<rparr>"]) (simp add: corked_Write_def write_step_def ck_wf_def ck_accepted_def)
  next
    case direct
    have u: "usable (wb_wr (ck_bufw w))" using wf by (simp add: wb_wf_def)
    from write_spec [OF u, of p] obtain k e c where r: "wr (wb_wr (ck_bufw w)) p = ret (int k, e, c)" "usable c" "write_step sent (wb_wr (ck_bufw w)) p k e c" by blast
    have "wb_n (ck_bufw w) = 0" using assms direct by (simp add: ck_wf_def)
    then show ?thesis using direct r wf
      by (intro exI [of _ k] exI [of _ e] exI [of _ "w\<lparr>ck_bufw := (ck_bufw w)\<lparr>wb_wr := c\<rparr>\<rparr>"])
        (simp add: corked_Write_def write_step_def ck_wf_def ck_accepted_def accepted_def waiting_def wb_wf_def)
  qed
qed

lemma cork_fire_spec:
  assumes "ck_wf usable w"
  shows "\<exists>w'. cork_fire wr w = ret w' \<and> ck_wf usable w' \<and> ck_accepted sent w' = ck_accepted sent w \<and> \<not> ck_corked w'"
proof -
  have wf: "wb_wf usable (ck_bufw w)" using assms by (simp add: ck_wf_def)
  from flush_spec [OF wf] obtain b where "Writer_flush wr (ck_bufw w) = ret (wb_err b, b)" "wf_b b" "accepted sent b = accepted sent (ck_bufw w)"
    "wb_same (ck_bufw w) b" "wb_err b = None \<longrightarrow> wb_n b = 0" by (elim exE conjE) (rule that)
  then show ?thesis by (simp add: cork_fire_def Writer_Flush_def ck_wf_def ck_accepted_def)
qed

lemma cork_step_accepts:
  assumes "cork_step wr w out w'" "ck_wf usable w"
  shows "ck_wf usable w' \<and> ck_accepted sent w' = ck_accepted sent w @ out"
  using assms(1)
proof (cases rule: cork_step.cases)
  case (cork_write p n err)
  with corked_Write_spec [OF assms(2), of p] show ?thesis by (auto simp: write_step_def)
next
  case cork_timer
  with cork_fire_spec [OF assms(2)] show ?thesis by auto
qed

lemma cork_run_accepts: "cork_run wr w out w' \<Longrightarrow> ck_wf usable w \<Longrightarrow> ck_wf usable w' \<and> ck_accepted sent w' = ck_accepted sent w @ out"
  by (induction rule: cork_run.induct) (auto dest!: cork_step_accepts)

end

sublocale corked \<subseteq> cork: byte_sink "corked_Write wr" "ck_accepted sent" "ck_wf usable"
  using corked_Write_spec by unfold_locales blast

interpretation tcp_cork: corked conn_Write c_out "\<lambda>_. True"
  by unfold_locales

subsection \<open>Reading and writing through the timer\<close>

lemma set_net_simps [simp]:
  "net_conn (set_net v w) = v" "set_net u (set_net v w) = set_net u w" "set_net (net_conn w) w = w" "tc_fires (set_net v w) = tc_fires w"
  by (simp_all add: net_conn_def set_net_def)

lemma tc_accepted_set_net: "sent v = sent (net_conn w) \<Longrightarrow> tc_accepted sent (set_net v w) = tc_accepted sent w"
  by (simp add: tc_accepted_def ck_accepted_def accepted_def waiting_def set_net_def net_conn_def)

lemma timed_Read_eq: "timed_Read rd w p = gobind (rd (net_conn w) p) (\<lambda>(n, p, err, v). ret (n, p, err, set_net v w))"
  unfolding timed_Read_def corked_Read_def gobind_assoc net_conn_def set_net_def by (rule gobind_cong) auto

text \<open>Writing through the timer is a run of the corked connection.\<close>

lemma timed_Write_run:
  assumes "timed_Write wr w p = ret (n, e, w')"
  shows "cork_run wr (tc_conn w) (take (nat n) p) (tc_conn w')"
proof -
  from assms obtain w1 c where t: "timer_tick wr w = ret w1" and c: "corked_Write wr (tc_conn w1) p = ret (n, e, c)" "w' = w1\<lparr>tc_conn := c\<rparr>"
    by (auto simp: timed_Write_def gobind_eq_ret)
  from cork_write [OF c(1)] have last: "cork_run wr (tc_conn w1) (take (nat n) p) (tc_conn w')"
    using cork_run.cork_Cons [OF _ cork_run.cork_Nil] c(2) by fastforce
  show ?thesis
  proof (cases "tc_conn w1 = tc_conn w")
    case True
    with last show ?thesis by simp
  next
    case False
    with t have "ck_once (tc_conn w)" "ck_corked (tc_conn w)" "cork_fire wr (tc_conn w) = ret (tc_conn w1)"
      by (auto simp: timer_tick_def gobind_eq_ret split: list.splits if_splits)
    with cork_run.cork_Cons [OF cork_timer last] show ?thesis by simp
  qed
qed

text \<open>A read changes nothing but the network connection.\<close>

locale timed_source = stream_reader rd content fin good left for rd :: "'c reader_fn" and content fin good left
begin

definition framed :: "'c timedConn \<Rightarrow> 'c timedConn \<Rightarrow> bool" where
  "framed F w \<longleftrightarrow> good (net_conn w) \<and> w = set_net (net_conn w) F"

lemma timed_read_spec:
  assumes "framed F w" "p \<noteq> []"
  shows "\<exists>k p' e w'. timed_Read rd w p = ret (int k, p', e, w') \<and> framed F w' \<and>
    read_step (\<lambda>w. content (net_conn w)) (\<lambda>w. fin (net_conn w)) (\<lambda>w. left (net_conn w)) w p k p' e w'"
proof -
  have "good (net_conn w)" using assms(1) by (simp add: framed_def)
  from read_spec [OF this assms(2)] obtain k p' e v where
    "rd (net_conn w) p = ret (int k, p', e, v)" "good v" "read_step content fin left (net_conn w) p k p' e v"
    by (elim exE conjE) (rule that)
  moreover have "set_net v w = set_net v F" using assms(1) unfolding framed_def by (metis set_net_simps(2))
  ultimately show ?thesis
    by (intro exI [of _ k] exI [of _ p'] exI [of _ e] exI [of _ "set_net v w"]) (simp add: timed_Read_eq framed_def read_step_def)
qed

end

sublocale timed_source \<subseteq> timed: stream_reader "timed_Read rd" "\<lambda>w. content (net_conn w)" "\<lambda>w. fin (net_conn w)" "framed F" "\<lambda>w. left (net_conn w)" for F
  by unfold_locales (rule timed_read_spec)

text \<open>Over a peer that keeps reading, no write fails, whenever the timer fires.\<close>

locale live_cork = live_buffer wr sent usable for wr :: "'c writer_fn" and sent usable
begin

definition live_ck :: "'c corkedConn \<Rightarrow> bool" where
  "live_ck c \<longleftrightarrow> ck_wf usable c \<and> ck_err c = None \<and> wb_err (ck_bufw c) = None"

lemma cork_fire_live:
  assumes "live_ck c"
  shows "\<exists>c'. cork_fire wr c = ret c' \<and> live_ck c' \<and> ck_accepted sent c' = ck_accepted sent c"
proof -
  have wf: "wb_wf usable (ck_bufw c)" "live_b (ck_bufw c)" using assms by (simp_all add: live_ck_def ck_wf_def live_b_def wb_wf_def)
  from flush_spec [OF wf(1)] obtain b where f: "Writer_flush wr (ck_bufw c) = ret (wb_err b, b)" "wb_wf usable b" "accepted sent b = accepted sent (ck_bufw c)"
    "wb_same (ck_bufw c) b" "wb_err b = None \<longrightarrow> wb_n b = 0" by (elim exE conjE) (rule that)
  with flush_live [OF wf(2) f(1)] show ?thesis by (simp add: cork_fire_def Writer_Flush_def live_ck_def ck_wf_def ck_accepted_def)
qed

lemma corked_Write_live:
  assumes "live_ck c"
  shows "\<exists>c'. corked_Write wr c p = ret (ilen p, None, c') \<and> live_ck c' \<and> ck_accepted sent c' = ck_accepted sent c @ p"
proof (cases "ck_corked c")
  case True
  have "wb_wf usable (ck_bufw c) \<and> wb_err (ck_bufw c) = None" using assms by (simp add: live_ck_def ck_wf_def)
  from buffer_write_all [OF this, of p] obtain b where "Writer_Write wr (ck_bufw c) p = ret (ilen p, None, b)" "wb_wf usable b" "wb_err b = None"
    "accepted sent b = accepted sent (ck_bufw c) @ p" by blast
  then show ?thesis using True assms by (simp add: corked_Write_def live_ck_def ck_wf_def ck_accepted_def)
next
  case False
  have wf: "usable (wb_wr (ck_bufw c))" "wb_n (ck_bufw c) = 0" using assms False by (simp_all add: live_ck_def ck_wf_def wb_wf_def)
  from write_all [OF wf(1), of p] obtain v where "wr (wb_wr (ck_bufw c)) p = ret (ilen p, None, v)" "usable v" "sent v = sent (wb_wr (ck_bufw c)) @ p" by blast
  then show ?thesis using False wf(2) assms
    by (simp add: corked_Write_def live_ck_def ck_wf_def ck_accepted_def accepted_def waiting_def wb_wf_def)
qed

lemma timed_Write_live:
  assumes "live_ck (tc_conn w)"
  shows "\<exists>w'. timed_Write wr w p = ret (ilen p, None, w') \<and> live_ck (tc_conn w') \<and> tc_accepted sent w' = tc_accepted sent w @ p"
proof -
  have "\<exists>w1. timer_tick wr w = ret w1 \<and> live_ck (tc_conn w1) \<and> tc_accepted sent w1 = tc_accepted sent w"
    using cork_fire_live [OF assms] assms by (auto simp: timer_tick_def tc_accepted_def split: list.split)
  then obtain w1 where t: "timer_tick wr w = ret w1" "live_ck (tc_conn w1)" "tc_accepted sent w1 = tc_accepted sent w" by blast
  from corked_Write_live [OF t(2), of p] t show ?thesis by (auto simp: timed_Write_def tc_accepted_def)
qed

end

sublocale live_cork \<subseteq> tlive: live_sink "timed_Write wr" "tc_accepted sent" "\<lambda>w. live_ck (tc_conn w)"
  by unfold_locales (rule timed_Write_live)

subsection \<open>Properties\<close>

text \<open>
  C9: A corked connection changes neither the bytes nor their order, whenever its timer fires among the writes: what the network
  connection has received is always a prefix of what the writes reported as written, the rest waits in the buffer, and nothing
  waits any more once the connection is uncorked without an error.
\<close>

theorem cork_keeps_order:
  assumes "cork_run conn_Write (timedCork c d n) out w"
  shows "c_out (wb_wr (ck_bufw w)) @ waiting (ck_bufw w) = c_out c @ out \<and>
    (\<not> ck_corked w \<and> ck_err w = None \<longrightarrow> c_out (wb_wr (ck_bufw w)) = c_out c @ out)"
proof -
  have "ck_accepted c_out (timedCork c d n) = c_out c" by (simp add: ck_accepted_def timedCork_def accepted_def new_Writer_def waiting_def)
  with tcp_cork.cork_run_accepts [OF assms timedCork_wf [where usable = "\<lambda>_. True", OF TrueI]] show ?thesis
    by (auto simp: ck_accepted_def ck_wf_def accepted_def waiting_def)
qed

subsection \<open>Concrete runs\<close>

definition idle_conn :: conn where
  "idle_conn = \<lparr>c_in = [], c_fin = EOF, c_out = [], c_room = None, c_werr = EOF\<rparr>"

definition cork1 :: "conn corkedConn" where
  "cork1 = (timedCork idle_conn 10000000 4)\<lparr>ck_once := True, ck_bufw := \<lparr>wb_err = None, wb_buf = [1, 2, 3, 0], wb_n = 3, wb_wr = idle_conn, wb_TotalWrite = 3\<rparr>\<rparr>"

lemma cork_first_write: "corked_Write conn_Write (timedCork idle_conn 10000000 4) [1, 2, 3] = ret (3, None, cork1)"
  unfolding corked_Write_def Writer_Write_def
  by (simp add: timedCork_def)
    (subst Writer_Write_loop.simps, simp add: cork1_def timedCork_def new_Writer_def Writer_finish_def Writer_append_def Writer_Available_def overwrite_def copy_len_def)

definition cork2 :: "conn corkedConn" where
  "cork2 = cork1\<lparr>ck_corked := False, ck_bufw := (ck_bufw cork1)\<lparr>wb_n := 0, wb_wr := idle_conn\<lparr>c_out := [1, 2, 3]\<rparr>\<rparr>\<rparr>"

lemma cork_fired: "cork_fire conn_Write cork1 = ret cork2"
  by (simp add: cork_fire_def cork1_def cork2_def timedCork_def Writer_Flush_def Writer_flush_def conn_Write_def idle_conn_def seg_def)

lemma cork_run1: "cork_run conn_Write (timedCork idle_conn 10000000 4) [1, 2, 3] cork1"
  using cork_run.cork_Cons [OF cork_write [OF cork_first_write] cork_run.cork_Nil] by simp

theorem cork_keeps_order_witness:
  "cork_run conn_Write (timedCork idle_conn 10000000 4) [1, 2, 3] cork2 \<and> c_out (wb_wr (ck_bufw cork2)) = [1, 2, 3] \<and> \<not> ck_corked cork2"
proof -
  have "ck_once cork1" "ck_corked cork1" by (simp_all add: cork1_def timedCork_def)
  from cork_run.cork_Cons [OF cork_write [OF cork_first_write] cork_run.cork_Cons [OF cork_timer [OF this cork_fired] cork_run.cork_Nil]]
  have r: "cork_run conn_Write (timedCork idle_conn 10000000 4) [1, 2, 3] cork2" by simp
  from cork_keeps_order [OF this] r show ?thesis by (simp add: cork2_def cork1_def timedCork_def idle_conn_def)
qed

text \<open>
  The handlers of the server close the network connection below the corked one and do not uncork it.  When both sides are done
  before the timer fires, the bytes of the last writes are in the buffer and never reach the peer, although \<^verbatim>\<open>Write\<close> reported them.
\<close>

lemma cork_close_loses:
  "corked_Write conn_Write (timedCork idle_conn 10000000 4) [1, 2, 3] = ret (3, None, cork1) \<and> c_out (wb_wr (ck_bufw cork1)) = []"
  using cork_first_write by (simp add: cork1_def timedCork_def idle_conn_def)

subsection \<open>The two directions of a TCP connection\<close>

text \<open>
  \<open>only_read F c\<close>: \<open>c\<close> is \<open>F\<close> with something read from it.  \<open>only_written F c\<close>: \<open>c\<close> is a connection whose peer keeps reading, with the
  incoming bytes of \<open>F\<close>.  Reading keeps the one and writing the other.
\<close>

definition only_read :: "conn \<Rightarrow> conn \<Rightarrow> bool" where
  "only_read F c \<longleftrightarrow> c\<lparr>c_in := []\<rparr> = F\<lparr>c_in := []\<rparr>"

definition only_written :: "conn \<Rightarrow> conn \<Rightarrow> bool" where
  "only_written F c \<longleftrightarrow> c_room c = None \<and> c_in c = c_in F \<and> c_fin c = c_fin F"

lemma only_refl: "only_read c c" "c_room c = None \<Longrightarrow> only_written c c"
  by (simp_all add: only_read_def only_written_def)

lemma only_read_fields: "only_read F c \<Longrightarrow> c_fin c = c_fin F \<and> c_out c = c_out F \<and> c_room c = c_room F"
  unfolding only_read_def by (metis conn.select_convs(2-4) conn.surjective conn.update_convs(1))

lemma only_written_content: "only_written F c \<Longrightarrow> conn_content c = conn_content F"
  by (simp add: only_written_def conn_content_def)

lemma conn_Read_frame: "conn_Read c p = ret (n, p', e, c') \<Longrightarrow> only_read c c'"
  by (auto simp: only_read_def conn_Read_def Let_def split: if_splits list.splits)

lemma only_read_trans: "only_read F c \<Longrightarrow> only_read c d \<Longrightarrow> only_read F d"
  by (simp add: only_read_def)

interpretation tcp_framed: timed_source conn_Read conn_content c_fin "only_read F" conn_left for F
proof
  fix c p
  assume "only_read F c" "(p :: bytes) \<noteq> []"
  with tcp.read_spec [where s = c, OF TrueI this(2)] show "\<exists>k p' e s'. conn_Read c p = ret (int k, p', e, s') \<and> only_read F s' \<and>
      read_step conn_content c_fin conn_left c p k p' e s'"
    using conn_Read_frame only_read_trans by blast
qed

interpretation tcp_live_cork: live_cork conn_Write c_out "only_written F" for F
  by unfold_locales (auto simp: conn_Write_def only_written_def)

text \<open>The whole of what a sequence of reads, or of writes, leaves as it was.\<close>

lemma framed_fields:
  assumes "tcp_framed.framed F W w"
  shows "only_read F (net_conn w)" "w = set_net (net_conn w) W"
  using assms by (simp_all add: tcp_framed.framed_def)

end
