(* ===== verification/Server.thy ===== *)
theory Server
  imports Server_Config Server_Cork Socks_Handshake
begin

text \<open>
  \<^verbatim>\<open>m_server/socks_server.go\<close>: the accept loops of the local and of the remote side, the handlers they start for each connection, and
  the relay.

  An accept loop is a machine driven by what \<^verbatim>\<open>Accept\<close> returns; the connections it hands to new goroutines are recorded.  A
  handler is a function of its connection, of the connections \<^verbatim>\<open>net.Dial\<close> gives, and of what the runtime decides: when timers fire and
  which of the two copies of a relay comes first.
\<close>

subsection \<open>Accepting\<close>

text \<open>Signed comparison of durations.\<close>

definition delayCalc :: "duration \<Rightarrow> duration" where
  "delayCalc delay =
     (let delay = (if delay = 0 then 5 * Millisecond else delay * 2)
      in if sint Second < sint delay then Second else delay)"

definition isTimeout :: "goerr \<Rightarrow> bool" where
  "isTimeout err = (case err of NetErr _ t \<Rightarrow> t | _ \<Rightarrow> False)"

text \<open>What \<^verbatim>\<open>Accept\<close> returns: a connection, or an error and whether it is a \<^verbatim>\<open>net.Error\<close> that calls itself temporary.\<close>

datatype 'c accept_result = Accepted 'c | AcceptError goerr bool

text \<open>\<open>al_started\<close> are the goroutines that were started, in their order.\<close>

record ('h, 'l) accept_loop =
  al_srv :: "'l Server"
  al_tempDelay :: duration
  al_slept :: "duration list"
  al_started :: "'h list"

definition count_request :: "'l Server \<Rightarrow> 'l Server" where
  "count_request srv = srv\<lparr>srv_stats := (srv_stats srv)\<lparr>st_ReqNum := st_ReqNum (srv_stats srv) + 1\<rparr>\<rparr>"

definition start_handler :: "'h \<Rightarrow> ('h, 'l) accept_loop \<Rightarrow> ('h, 'l) accept_loop" where
  "start_handler h s = s\<lparr>al_srv := count_request (al_srv s), al_started := al_started s @ [h]\<rparr>"

definition sleep :: "duration \<Rightarrow> ('h, 'l) accept_loop \<Rightarrow> ('h, 'l) accept_loop" where
  "sleep d s = s\<lparr>al_slept := al_slept s @ [d]\<rparr>"

text \<open>
  One round of the loop of \<^verbatim>\<open>ServeLocal\<close>: it goes on (\<open>None\<close>) or returns an error.  \<open>handle c\<close> is the goroutine that is started for the connection \<open>c\<close>:
  the function literal of the code over its \<^verbatim>\<open>shadow\<close> and \<^verbatim>\<open>getAddr\<close>.
\<close>

definition accept_local :: "('c \<Rightarrow> 'h) \<Rightarrow> ('h, 'l) accept_loop \<Rightarrow> 'c accept_result \<Rightarrow> goerr option \<times> ('h, 'l) accept_loop" where
  "accept_local handle s r =
     (case r of
        AcceptError e temporary \<Rightarrow>
          if isTimeout e then (None, s)
          else if temporary then
            (let d = delayCalc (al_tempDelay s) in (None, sleep d (s\<lparr>al_tempDelay := d\<rparr>)))
          else
            (Some e, if CheckGracefulShutdown (al_srv s)
                     then sleep (seconds (cf_GracefulShutdownTimeout (cf_Server (srv_Config (al_srv s))))) s else s)
      | Accepted c \<Rightarrow> (None, start_handler (handle c) s))"

definition accept_server :: "('c \<Rightarrow> 'h) \<Rightarrow> ('h, 'l) accept_loop \<Rightarrow> 'c accept_result \<Rightarrow> goerr option \<times> ('h, 'l) accept_loop" where
  "accept_server handle s r = (case r of AcceptError e temporary \<Rightarrow> (None, s) | Accepted c \<Rightarrow> (None, start_handler (handle c) s))"

text \<open>The loop over the results that \<^verbatim>\<open>Accept\<close> gives, until it returns.\<close>

fun accept_all :: "(('h, 'l) accept_loop \<Rightarrow> 'c accept_result \<Rightarrow> goerr option \<times> ('h, 'l) accept_loop) \<Rightarrow> ('h, 'l) accept_loop \<Rightarrow>
    'c accept_result list \<Rightarrow> goerr option \<times> ('h, 'l) accept_loop" where
  "accept_all step s [] = (None, s)"
| "accept_all step s (r # rs) = (case step s r of (None, s) \<Rightarrow> accept_all step s rs | (Some e, s) \<Rightarrow> (Some e, s))"

definition new_loop :: "'l Server \<Rightarrow> ('h, 'l) accept_loop" where
  "new_loop srv = \<lparr>al_srv = srv, al_tempDelay = 0, al_slept = [], al_started = []\<rparr>"

text \<open>\<open>listen\<close> is \<^verbatim>\<open>net.Listen("tcp", _)\<close>: an error, or the results its \<^verbatim>\<open>Accept\<close> is going to give.\<close>

definition ServeLocal :: "(string \<Rightarrow> goerr + 'c accept_result list) \<Rightarrow> ('c \<Rightarrow> 'h) \<Rightarrow> 'l Server \<Rightarrow> goerr option \<times> ('h, 'l) accept_loop" where
  "ServeLocal listen handle srv =
     (case listen (srv_Addr srv) of Inl e \<Rightarrow> (Some e, new_loop srv) | Inr rs \<Rightarrow> accept_all (accept_local handle) (new_loop srv) rs)"

definition ServeServer :: "(string \<Rightarrow> goerr + 'c accept_result list) \<Rightarrow> ('c \<Rightarrow> 'h) \<Rightarrow> 'l Server \<Rightarrow> goerr option \<times> ('h, 'l) accept_loop" where
  "ServeServer listen handle srv =
     (case listen (srv_Addr srv) of Inl e \<Rightarrow> (Some e, new_loop srv) | Inr rs \<Rightarrow> accept_all (accept_server handle) (new_loop srv) rs)"

subsection \<open>Relay\<close>

text \<open>\<open>NetErr 0 True\<close> is \<^verbatim>\<open>os.ErrDeadlineExceeded\<close>.\<close>

definition ErrDeadlineExceeded :: goerr where "ErrDeadlineExceeded = NetErr 0 True"

definition relay_err :: "goerr option \<Rightarrow> goerr option \<Rightarrow> goerr option" where
  "relay_err err1 err =
     (if err1 \<noteq> None \<and> err1 \<noteq> Some ErrDeadlineExceeded then err1
      else if err \<noteq> None \<and> err \<noteq> Some ErrDeadlineExceeded then err
      else None)"

text \<open>
  The loop of \<^verbatim>\<open>io.Copy\<close>, for a source without \<^verbatim>\<open>WriteTo\<close> and a destination without \<^verbatim>\<open>ReadFrom\<close>.  (A TCP connection has both, but falls
  back to this loop when the other side is not a file or a socket of the operating system.)
\<close>

partial_function (option) io_Copy_loop :: "'s reader_fn \<Rightarrow> 'w writer_fn \<Rightarrow> 's \<Rightarrow> 'w \<Rightarrow> int \<Rightarrow> (int \<times> goerr option \<times> 's \<times> 'w) go" where
  "io_Copy_loop rd wr src dst written =
     gobind (rd src (replicate 32768 0)) (\<lambda>(nr, buf, er, src).
     gobind
       (if 0 < nr then
          gobind (go_slice buf 0 nr) (\<lambda>p.
          gobind (wr dst p) (\<lambda>(nw, ew, dst).
          let bad = nw < 0 \<or> nr < nw; n = (if bad then 0 else nw); ew = (if bad \<and> ew = None then Some ErrInvalidWrite else ew) in
          ret (written + n, (if ew \<noteq> None then ew else if nr \<noteq> n then Some ErrShortWrite else None), dst)))
        else ret (written, None, dst)) (\<lambda>(written, err, dst).
     if err \<noteq> None then ret (written, err, src, dst)
     else case er of
       Some e \<Rightarrow> ret (written, (if e \<noteq> EOF then Some e else None), src, dst)
     | None \<Rightarrow> io_Copy_loop rd wr src dst written))"

text \<open>A connection behind a cipher reads and writes itself, or through its \<open>streamConn\<close>.\<close>

definition shadow_Write :: "crypto \<Rightarrow> 'f bloom \<Rightarrow> env \<Rightarrow> 'g reader_fn \<Rightarrow> 'c writer_fn \<Rightarrow> ('c shadow_conn \<times> ('f, 'g) world) writer_fn" where
  "shadow_Write cr bl en rnd wr = (\<lambda>(c, g) p.
     case c of
       Bare c \<Rightarrow> gobind (wr c p) (\<lambda>(n, err, c). ret (n, err, (Bare c, g)))
     | Shadowed s \<Rightarrow> gobind (streamConn_Write cr bl en rnd wr (s, g) p) (\<lambda>(n, err, (s, g)). ret (n, err, (Shadowed s, g))))"

definition shadow_Read :: "crypto \<Rightarrow> 'f bloom \<Rightarrow> env \<Rightarrow> 'c reader_fn \<Rightarrow> ('c shadow_conn \<times> ('f, 'g) world) reader_fn" where
  "shadow_Read cr bl en rd = (\<lambda>(c, g) p.
     case c of
       Bare c \<Rightarrow> gobind (rd c p) (\<lambda>(n, p, err, c). ret (n, p, err, (Bare c, g)))
     | Shadowed s \<Rightarrow> gobind (streamConn_Read cr bl en rd (s, g) p) (\<lambda>(n, p, err, (s, g)). ret (n, p, err, (Shadowed s, g))))"

definition shadow_base :: "'c shadow_conn \<Rightarrow> 'c" where
  "shadow_base c = (case c of Bare c \<Rightarrow> c | Shadowed s \<Rightarrow> sc_Conn s)"

definition shadow_update :: "('c \<Rightarrow> 'c) \<Rightarrow> 'c shadow_conn \<Rightarrow> 'c shadow_conn" where
  "shadow_update f c = (case c of Bare c \<Rightarrow> Bare (f c) | Shadowed s \<Rightarrow> Shadowed (s\<lparr>sc_Conn := f (sc_Conn s)\<rparr>))"

text \<open>
  \<^verbatim>\<open>io.Copy(right, left)\<close> and \<^verbatim>\<open>io.Copy(left, right)\<close>.  In both, \<open>left\<close> is the connection behind the cipher: a \<^verbatim>\<open>streamConn\<close> has \<^verbatim>\<open>WriteTo\<close> and
  \<^verbatim>\<open>ReadFrom\<close>, which \<^verbatim>\<open>io.Copy\<close> calls; without a cipher it is a \<^verbatim>\<open>corkedConn\<close>, which has neither.
\<close>

definition copy_right :: "crypto \<Rightarrow> 'f bloom \<Rightarrow> env \<Rightarrow> 'c reader_fn \<Rightarrow> 'd writer_fn \<Rightarrow> 'c shadow_conn \<Rightarrow> ('f, 'g) world \<Rightarrow> 'd \<Rightarrow>
    (int \<times> goerr option \<times> 'c shadow_conn \<times> ('f, 'g) world \<times> 'd) go" where
  "copy_right cr bl en rd wr left g right =
     (case left of
        Bare c \<Rightarrow> gobind (io_Copy_loop rd wr c right 0) (\<lambda>(n, err, c, right). ret (n, err, Bare c, g, right))
      | Shadowed s \<Rightarrow> gobind (streamConn_WriteTo cr bl en rd wr s g right) (\<lambda>(n, err, s, g, right). ret (n, err, Shadowed s, g, right)))"

definition copy_left :: "crypto \<Rightarrow> 'f bloom \<Rightarrow> env \<Rightarrow> 'g reader_fn \<Rightarrow> 'c writer_fn \<Rightarrow> 'd reader_fn \<Rightarrow> 'c shadow_conn \<Rightarrow> ('f, 'g) world \<Rightarrow> 'd \<Rightarrow>
    (int \<times> goerr option \<times> 'c shadow_conn \<times> ('f, 'g) world \<times> 'd) go" where
  "copy_left cr bl en rnd wr rd left g right =
     (case left of
        Bare c \<Rightarrow> gobind (io_Copy_loop rd wr right c 0) (\<lambda>(n, err, right, c). ret (n, err, Bare c, g, right))
      | Shadowed s \<Rightarrow> gobind (streamConn_ReadFrom cr bl en rnd wr rd s g right) (\<lambda>(n, err, s, g, right). ret (n, err, Shadowed s, g, right)))"

text \<open>
  The two copies use opposite directions of the two connections.  The model runs each of them as one step, the goroutine's (\<open>copy_right\<close>)
  first or last, as \<open>go_first\<close> says.  \<open>late\<close> is \<^verbatim>\<open>SetReadDeadline\<close> on a network connection, with the timeout counted from the time of the call.
\<close>

definition relay :: "crypto \<Rightarrow> 'f bloom \<Rightarrow> env \<Rightarrow> 'g reader_fn \<Rightarrow> 'c reader_fn \<Rightarrow> 'c writer_fn \<Rightarrow> (duration \<Rightarrow> 'c \<Rightarrow> 'c) \<Rightarrow> bool \<Rightarrow> 'l Server \<Rightarrow>
    'c timedConn shadow_conn \<Rightarrow> ('f, 'g) world \<Rightarrow> 'c \<Rightarrow> (goerr option \<times> 'c timedConn shadow_conn \<times> ('f, 'g) world \<times> 'c) go" where
  "relay cr bl en rnd rd wr late go_first srv left g right =
     (let t = srv_ReadTimeout srv;
          unblock_right = (\<lambda>r. if 0 < sint t then late t r else r);
          unblock_left = (\<lambda>l. if 0 < sint t then shadow_update (\<lambda>w. set_net (late t (net_conn w)) w) l else l);
          to_right = (\<lambda>(l, g, r). gobind (copy_right cr bl en (timed_Read rd) wr l g r) (\<lambda>(_, err1, l, g, r). ret (err1, l, g, unblock_right r)));
          to_left = (\<lambda>(l, g, r). gobind (copy_left cr bl en rnd (timed_Write wr) rd l g r) (\<lambda>(_, err, l, g, r). ret (err, unblock_left l, g, r)))
      in if go_first then
           gobind (to_right (left, g, right)) (\<lambda>(err1, s). gobind (to_left s) (\<lambda>(err, s). ret (relay_err err1 err, s)))
         else
           gobind (to_left (left, g, right)) (\<lambda>(err, s). gobind (to_right s) (\<lambda>(err1, s). ret (relay_err err1 err, s))))"

subsection \<open>The handlers\<close>

text \<open>\<^verbatim>\<open>io.Copy(ioutil.Discard, c)\<close>: read until an error, which is not reported when it is the end of the stream.\<close>

partial_function (option) discard :: "'c reader_fn \<Rightarrow> 'c \<Rightarrow> (goerr option \<times> 'c) go" where
  "discard rd c =
     gobind (rd c (replicate 8192 0)) (\<lambda>(n, _, err, c).
     case err of None \<Rightarrow> discard rd c | Some e \<Rightarrow> ret (if e = EOF then None else Some e, c))"

definition cork_delay :: duration where "cork_delay = 10 * Millisecond"
definition cork_size :: int where "cork_size = 1280"

text \<open>\<^verbatim>\<open>timedCork(c, 10*time.Millisecond, 1280)\<close>, with the moments at which its timer is going to fire.\<close>

definition corked_conn :: "bool list \<Rightarrow> 'c \<Rightarrow> 'c timedConn" where
  "corked_conn fires c = \<lparr>tc_conn = timedCork c cork_delay cork_size, tc_fires = fires\<rparr>"

text \<open>
  How far a handler came: the client's bytes were drained after a failed negotiation, the next hop could not be reached, the target
  address could not be sent; it is about to relay between its client and the next hop, or the relay is over, with the error that is logged.
\<close>

datatype ('c, 'd) handled = Drained 'c "goerr option" | NoConnection goerr 'c | NotSent goerr 'c 'd | Relays 'c 'd | Relayed "goerr option" 'c 'd

text \<open>The goroutine of \<^verbatim>\<open>ServeLocal\<close>, with \<^verbatim>\<open>HandShake\<close> for \<^verbatim>\<open>getAddr\<close> and the server's cipher for \<^verbatim>\<open>shadow\<close>: up to the relay, and as a whole.\<close>

definition local_meet :: "crypto \<Rightarrow> 'f bloom \<Rightarrow> env \<Rightarrow> 'g reader_fn \<Rightarrow> 'c reader_fn \<Rightarrow> 'c writer_fn \<Rightarrow> bool list \<Rightarrow>
    bool \<Rightarrow> string \<Rightarrow> (string \<Rightarrow> goerr + 'c) \<Rightarrow> Cipher \<Rightarrow> 'l Server \<Rightarrow> 'c \<Rightarrow> ('f, 'g) world \<Rightarrow>
    (('c, 'c timedConn shadow_conn) handled \<times> ('f, 'g) world) go" where
  "local_meet cr bl en rnd rd wr fires udp addr dial ciph srv c g =
     gobind (HandShake rd wr udp addr c) (\<lambda>((tgt, err), c).
     if err \<noteq> None then gobind (discard rd c) (\<lambda>(err, c). ret (Drained c err, g))
     else
       case dial (cf_RemoteServer (cf_Server (srv_Config srv))) of
         Inl e \<Rightarrow> ret (NoConnection e c, g)
       | Inr rc \<Rightarrow>
           let rc = StreamConn ciph (corked_conn fires rc) in
           gobind (shadow_Write cr bl en rnd (timed_Write wr) (rc, g) (case tgt of Some a \<Rightarrow> a | None \<Rightarrow> [])) (\<lambda>(_, err, (rc, g)).
           case err of Some e \<Rightarrow> ret (NotSent e c rc, g) | None \<Rightarrow> ret (Relays c rc, g)))"

definition local_handler :: "crypto \<Rightarrow> 'f bloom \<Rightarrow> env \<Rightarrow> 'g reader_fn \<Rightarrow> 'c reader_fn \<Rightarrow> 'c writer_fn \<Rightarrow> (duration \<Rightarrow> 'c \<Rightarrow> 'c) \<Rightarrow> bool \<Rightarrow> bool list \<Rightarrow>
    bool \<Rightarrow> string \<Rightarrow> (string \<Rightarrow> goerr + 'c) \<Rightarrow> Cipher \<Rightarrow> 'l Server \<Rightarrow> 'c \<Rightarrow> ('f, 'g) world \<Rightarrow>
    (('c, 'c timedConn shadow_conn) handled \<times> ('f, 'g) world) go" where
  "local_handler cr bl en rnd rd wr late go_first fires udp addr dial ciph srv c g =
     gobind (local_meet cr bl en rnd rd wr fires udp addr dial ciph srv c g) (\<lambda>(h, g).
     case h of
       Relays c rc \<Rightarrow> gobind (relay cr bl en rnd rd wr late go_first srv rc g c) (\<lambda>(err, rc, g, c). ret (Relayed err c rc, g))
     | _ \<Rightarrow> ret (h, g))"

text \<open>The goroutine of \<^verbatim>\<open>ServeServer\<close>; a connection to the target counts as a request once more.\<close>

definition server_meet :: "crypto \<Rightarrow> 'f bloom \<Rightarrow> env \<Rightarrow> 'c reader_fn \<Rightarrow> bool list \<Rightarrow>
    (string \<Rightarrow> goerr + 'c) \<Rightarrow> Cipher \<Rightarrow> 'l Server \<Rightarrow> 'c \<Rightarrow> ('f, 'g) world \<Rightarrow>
    (('c timedConn shadow_conn, 'c) handled \<times> 'l Server \<times> ('f, 'g) world) go" where
  "server_meet cr bl en rd fires dial ciph srv c g =
     (let sc = StreamConn ciph (corked_conn fires c) in
      gobind (ReadAddr (shadow_Read cr bl en (timed_Read rd)) (sc, g)) (\<lambda>((tgt, err), (sc, g)).
      if err \<noteq> None then gobind (discard (timed_Read rd) (shadow_base sc)) (\<lambda>(err, c). ret (Drained (Bare c) err, srv, g))
      else
        gobind (Addr_String (case tgt of Some a \<Rightarrow> a | None \<Rightarrow> [])) (\<lambda>host.
        case dial host of
          Inl e \<Rightarrow> ret (NoConnection e sc, srv, g)
        | Inr rc \<Rightarrow> ret (Relays sc rc, count_request srv, g))))"

definition server_handler :: "crypto \<Rightarrow> 'f bloom \<Rightarrow> env \<Rightarrow> 'g reader_fn \<Rightarrow> 'c reader_fn \<Rightarrow> 'c writer_fn \<Rightarrow> (duration \<Rightarrow> 'c \<Rightarrow> 'c) \<Rightarrow> bool \<Rightarrow> bool list \<Rightarrow>
    (string \<Rightarrow> goerr + 'c) \<Rightarrow> Cipher \<Rightarrow> 'l Server \<Rightarrow> 'c \<Rightarrow> ('f, 'g) world \<Rightarrow>
    (('c timedConn shadow_conn, 'c) handled \<times> 'l Server \<times> ('f, 'g) world) go" where
  "server_handler cr bl en rnd rd wr late go_first fires dial ciph srv c g =
     gobind (server_meet cr bl en rd fires dial ciph srv c g) (\<lambda>(h, srv, g).
     case h of
       Relays sc rc \<Rightarrow> gobind (relay cr bl en rnd rd wr late go_first srv sc g rc) (\<lambda>(err, sc, g, rc). ret (Relayed err sc rc, srv, g))
     | _ \<Rightarrow> ret (h, srv, g))"

subsection \<open>The delay between failing accepts\<close>

definition backoff :: "nat \<Rightarrow> duration" where
  "backoff n = of_nat (min (5000000 * 2 ^ n) 1000000000)"

lemma sint_small: "k < 2 ^ 63 \<Longrightarrow> sint (of_nat k :: 64 word) = int k"
  by (simp add: signed_of_nat signed_take_bit_int_eq_self)

lemma sint_Second: "sint Second = 1000000000"
  using sint_small [of 1000000000] by (simp add: Second_def)

lemma delayCalc_backoff: "delayCalc 0 = backoff 0" "delayCalc (backoff n) = backoff (Suc n)"
proof -
  show "delayCalc 0 = backoff 0" 
    using sint_small [of 5000000] by (simp add: delayCalc_def backoff_def Millisecond_def sint_Second)
  define x where "x = min (5000000 * 2 ^ n) (1000000000 :: nat)"
  have x: "0 < x" "x \<le> 1000000000" by (simp_all add: x_def)
  have b: "backoff n = of_nat x" by (simp add: backoff_def x_def)
  have "(of_nat x :: 64 word) \<noteq> 0"
    using x sint_small [of x] by auto
  moreover have "of_nat x * 2 = (of_nat (x * 2) :: 64 word)" by simp
  moreover have "sint (of_nat (x * 2) :: 64 word) = int (x * 2)" using x by (intro sint_small) simp
  moreover have "backoff (Suc n) = of_nat (min (x * 2) 1000000000)" by (simp add: backoff_def x_def min_def)
  ultimately show "delayCalc (backoff n) = backoff (Suc n)"
    unfolding b by (simp add: delayCalc_def sint_Second Let_def Second_def min_def)
qed

lemma backoff_bound: "0 < sint (backoff n)" "sint (backoff n) \<le> sint Second"
  using sint_small [of "min (5000000 * 2 ^ n) 1000000000"] by (simp_all add: backoff_def sint_Second)

subsection \<open>The accept loop of the local side\<close>

definition permanent :: "'c accept_result \<Rightarrow> bool" where
  "permanent r = (case r of AcceptError e temporary \<Rightarrow> \<not> isTimeout e \<and> \<not> temporary | Accepted _ \<Rightarrow> False)"

definition retried :: "'c accept_result \<Rightarrow> bool" where
  "retried r = (case r of AcceptError e temporary \<Rightarrow> \<not> isTimeout e \<and> temporary | Accepted _ \<Rightarrow> False)"

fun connections :: "'c accept_result list \<Rightarrow> 'c list" where
  "connections [] = []"
| "connections (Accepted c # rs) = c # connections rs"
| "connections (AcceptError e t # rs) = connections rs"

fun first_error :: "'c accept_result list \<Rightarrow> goerr option" where
  "first_error (AcceptError e t # rs) = Some e"
| "first_error _ = None"

definition before_end :: "'c accept_result list \<Rightarrow> 'c accept_result list" where
  "before_end rs = takeWhile (\<lambda>r. \<not> permanent r) rs"

definition next_delay :: "nat \<Rightarrow> duration" where
  "next_delay k = (if k = 0 then 0 else backoff (k - 1))"

lemma delayCalc_next: "delayCalc (next_delay k) = next_delay (Suc k)"
  by (cases k) (simp_all add: next_delay_def delayCalc_backoff)

lemma count_request_same:
  "srv_Config (count_request s) = srv_Config s" "CheckGracefulShutdown (count_request s) = CheckGracefulShutdown s"
  "st_ReqNum (srv_stats (count_request s)) = st_ReqNum (srv_stats s) + 1"
  by (simp_all add: count_request_def CheckGracefulShutdown_def)

definition shutdown_sleep :: "'l Server \<Rightarrow> duration list" where
  "shutdown_sleep srv = (if CheckGracefulShutdown srv then [seconds (cf_GracefulShutdownTimeout (cf_Server (srv_Config srv)))] else [])"

lemma accept_local_simps:
  "accept_local handle s (Accepted c) = (None, start_handler (handle c) s)"
  "isTimeout x \<Longrightarrow> accept_local handle s (AcceptError x t) = (None, s)"
  "\<not> isTimeout x \<Longrightarrow> accept_local handle s (AcceptError x True) = (None, sleep (delayCalc (al_tempDelay s)) (s\<lparr>al_tempDelay := delayCalc (al_tempDelay s)\<rparr>))"
  "\<not> isTimeout x \<Longrightarrow> accept_local handle s (AcceptError x False) = (Some x, s\<lparr>al_slept := al_slept s @ shutdown_sleep (al_srv s)\<rparr>)"
  by (simp_all add: accept_local_def Let_def sleep_def shutdown_sleep_def)

lemma al_srv_sleep [simp]: "al_srv (sleep d s) = al_srv s"
  by (simp add: sleep_def)

lemma upt_first: "[k..<Suc (k + n)] = k # [Suc k..<Suc (k + n)]"
  by (simp add: upt_conv_Cons del: upt_Suc)

lemma accept_local_run:
  assumes "al_tempDelay s = next_delay k" "accept_all (accept_local handle) s rs = (e, s')"
  shows "e = first_error (dropWhile (\<lambda>r. \<not> permanent r) rs) \<and>
    al_started s' = al_started s @ map handle (connections (before_end rs)) \<and>
    st_ReqNum (srv_stats (al_srv s')) = st_ReqNum (srv_stats (al_srv s)) + of_nat (length (connections (before_end rs))) \<and>
    al_slept s' = al_slept s @ map backoff [k..<k + length (filter retried (before_end rs))] @ (if e = None then [] else shutdown_sleep (al_srv s))"
  using assms
proof (induction rs arbitrary: s k)
  case Nil
  then show ?case by (simp add: before_end_def)
next
  case (Cons r rs)
  show ?case
  proof (cases r)
    case (Accepted c)
    with Cons.prems have "accept_all (accept_local handle) (start_handler (handle c) s) rs = (e, s')" "al_tempDelay (start_handler (handle c) s) = next_delay k"
      by (simp_all add: accept_local_simps, simp add: start_handler_def)
    from Cons.IH [OF this(2,1)] Accepted show ?thesis
      by (simp add: before_end_def permanent_def retried_def start_handler_def count_request_same shutdown_sleep_def)
  next
    case (AcceptError x t)
    consider (timeout) "isTimeout x" | (temp) "\<not> isTimeout x" "t" | (perm) "\<not> isTimeout x" "\<not> t" by blast
    then show ?thesis
    proof cases
      case timeout
      with Cons AcceptError show ?thesis by (simp add: accept_local_simps before_end_def permanent_def retried_def)
    next
      case perm
      with Cons.prems AcceptError show ?thesis
        by (auto simp: accept_local_simps before_end_def permanent_def)
    next
      case temp
      let ?d = "next_delay (Suc k)"
      let ?s = "sleep ?d (s\<lparr>al_tempDelay := ?d\<rparr>)"
      have "accept_all (accept_local handle) ?s rs = (e, s')" "al_tempDelay ?s = next_delay (Suc k)"
        using Cons.prems AcceptError temp by (simp_all add: accept_local_simps delayCalc_next, simp add: sleep_def)
      note ih = Cons.IH [OF this(2,1)]
      have "\<not> permanent r" "retried r" "connections (r # before_end rs) = connections (before_end rs)"
        using AcceptError temp by (simp_all add: permanent_def retried_def)
      moreover have "al_slept ?s = al_slept s @ [backoff k]" "al_started ?s = al_started s" by (simp_all add: sleep_def next_delay_def)
      ultimately show ?thesis using ih by (simp add: before_end_def upt_first del: upt_Suc)
    qed
  qed
qed

lemma accept_server_run:
  "fst (accept_all (accept_server handle) s rs) = None \<and>
   al_started (snd (accept_all (accept_server handle) s rs)) = al_started s @ map handle (connections rs)"
  by (induction rs arbitrary: s rule: connections.induct) (simp_all add: accept_server_def start_handler_def)

subsection \<open>Properties of the accept loops\<close>

text \<open>
  C11: The accept loop of the local side starts a handler for every connection accepted before the first permanent error and counts
  it, retries after every timeout and every temporary error, and returns exactly that permanent error.  Between retries it sleeps
  5, 10, 20, ... milliseconds, doubling with every temporary error since the server was started, never more than one second.
\<close>

theorem ServeLocal_accepts:
  assumes "listen (srv_Addr srv) = Inr rs" "ServeLocal listen handle srv = (e, s)"
  shows "e = first_error (dropWhile (\<lambda>r. \<not> permanent r) rs) \<and> al_started s = map handle (connections (before_end rs)) \<and>
    st_ReqNum (srv_stats (al_srv s)) = st_ReqNum (srv_stats srv) + of_nat (length (connections (before_end rs))) \<and>
    al_slept s = map backoff [0..<length (filter retried (before_end rs))] @ (if e = None then [] else shutdown_sleep srv) \<and>
    (\<forall>n. 0 < sint (backoff n) \<and> sint (backoff n) \<le> sint Second)"
  using accept_local_run [of "new_loop srv" 0 handle rs e s] assms backoff_bound by (simp add: ServeLocal_def new_loop_def next_delay_def)

theorem ServeLocal_accepts_witness:
  "\<exists>s. ServeLocal (\<lambda>_. Inr [AcceptError (NetErr 1 False) True, Accepted (7 :: nat), AcceptError (NetErr 2 True) True, AcceptError (NetErr 1 False) True,
      AcceptError EOF False, Accepted 8]) Suc (NewServer zero_Conf [] [] :: unit Server) = (Some EOF, s) \<and>
     al_started s = [8] \<and> al_slept s = [backoff 0, backoff 1]"
proof -
  let ?rs = "[AcceptError (NetErr 1 False) True, Accepted (7 :: nat), AcceptError (NetErr 2 True) True, AcceptError (NetErr 1 False) True, AcceptError EOF False, Accepted 8]"
  obtain e s where r: "ServeLocal (\<lambda>_. Inr ?rs) Suc (NewServer zero_Conf [] [] :: unit Server) = (e, s)" by force
  from ServeLocal_accepts [OF refl r] r show ?thesis
    by (intro exI [of _ s]) (simp add: before_end_def permanent_def retried_def isTimeout_def shutdown_sleep_def CheckGracefulShutdown_def NewServer_fields)
qed

text \<open>
  The accept loop of the remote side never returns once it listens: it goes on after every error, also after one that every further
  \<^verbatim>\<open>Accept\<close> repeats, as on a closed listener.
\<close>

lemma ServeServer_never_returns:
  assumes "listen (srv_Addr srv) = Inr rs"
  shows "fst (ServeServer listen handle srv) = None"
  using assms accept_server_run [of handle "new_loop srv" rs] by (simp add: ServeServer_def)

text \<open>
  No serving function assigns \<^verbatim>\<open>srv.listener\<close>; it is nil when the signal handler closes it.
\<close>

lemma accept_local_same:
  "srv_listener (al_srv (snd (accept_all (accept_local handle) s rs))) = srv_listener (al_srv s) \<and>
   srv_notified (al_srv (snd (accept_all (accept_local handle) s rs))) = srv_notified (al_srv s) \<and>
   srv_connWaitGroup (al_srv (snd (accept_all (accept_local handle) s rs))) = srv_connWaitGroup (al_srv s)"
proof (induction rs arbitrary: s)
  case (Cons r rs)
  have "srv_listener (al_srv (snd (accept_local handle s r))) = srv_listener (al_srv s) \<and> srv_notified (al_srv (snd (accept_local handle s r))) = srv_notified (al_srv s) \<and>
      srv_connWaitGroup (al_srv (snd (accept_local handle s r))) = srv_connWaitGroup (al_srv s)"
    by (cases r) (auto simp: accept_local_def start_handler_def count_request_def sleep_def Let_def)
  moreover obtain e s1 where "accept_local handle s r = (e, s1)" by (cases "accept_local handle s r")
  ultimately show ?case using Cons.IH [of s1] by (cases e) simp_all
qed simp

lemma ShutdownHandler_panics:
  assumes "ServeLocal listen handle (NewServer cfg r v :: 'l Server) = (e, s)"
  shows "ShutdownHandler lclose timer_first (al_srv s) = throw NilDeref"
proof -
  have "srv_listener (al_srv s) = None \<and> \<not> srv_notified (al_srv s)"
  proof (cases "listen (srv_Addr (NewServer cfg r v :: 'l Server))")
    case (Inl x)
    then show ?thesis using assms by (auto simp: ServeLocal_def new_loop_def NewServer_fields)
  next
    case (Inr rs)
    then show ?thesis using assms accept_local_same [of handle "new_loop (NewServer cfg r v :: 'l Server)" rs] by (simp add: ServeLocal_def new_loop_def NewServer_fields)
  qed
  then show ?thesis by (simp add: ShutdownHandler_def closeListeners_def)
qed

text \<open>
  Nothing adds to the wait group either: on a server that had its listener the shutdown would be over at once, with all the handlers that
  were started still running.
\<close>

lemma shutdown_waits_for_nobody:
  assumes "ServeLocal listen handle srv = (e, s)" "srv_listener srv = Some l" "\<not> srv_notified srv" "srv_connWaitGroup srv = 0"
  shows "\<exists>srv'. ShutdownHandler lclose False (al_srv s) = ret (GracefulSuccess, 0, srv')"
proof -
  have "srv_listener (al_srv s) = Some l \<and> \<not> srv_notified (al_srv s) \<and> srv_connWaitGroup (al_srv s) = 0"
  proof (cases "listen (srv_Addr srv)")
    case (Inl x)
    then show ?thesis using assms by (auto simp: ServeLocal_def new_loop_def)
  next
    case (Inr rs)
    then show ?thesis using assms accept_local_same [of handle "new_loop srv" rs] by (simp add: ServeLocal_def new_loop_def)
  qed
  then show ?thesis by (simp add: ShutdownHandler_def closeListeners_def split: prod.split)
qed

end
