(* ===== verification/Session_Flow.thy ===== *)
theory Session_Flow
  imports Shadow_Conn Live_Sink
begin

text \<open>
  What a whole session puts on and takes off the wire.  \<open>carries\<close> says that a stream of bytes is a session under a salt that carries a
  message.  A \<open>streamConn\<close> over a sink that takes everything produces such a stream, one over a byte stream that is one gives the
  message back, and the two directions of a connection do not disturb each other.
\<close>

definition carries :: "crypto \<Rightarrow> metaCipher \<Rightarrow> bytes \<Rightarrow> bytes \<Rightarrow> bytes \<Rightarrow> bool" where
  "carries cr ciph salt m bs \<longleftrightarrow> length salt = metaCipher_SaltSize ciph \<and>
     (\<exists>a ps. metaCipher_Encrypter cr ciph salt = ret (Inr a) \<and> payloads_ok ps \<and> concat ps = m \<and> bs = salt @ records a (zero_nonce a) ps)"

lemma sample_carries: "\<exists>bs. carries sample_crypto sample_cipher (replicate 16 9) [72, 73] bs"
proof -
  from made_aead [OF sample_crypto_ok sample_cipher_made, of "replicate 16 9"] obtain aead where
    "metaCipher_Encrypter sample_crypto sample_cipher (replicate 16 9) = ret (Inr aead)" by blast
  then have "carries sample_crypto sample_cipher (replicate 16 9) [72, 73] (replicate 16 9 @ records aead (zero_nonce aead) [[72, 73]])"
    unfolding carries_def
    by (intro conjI exI [of _ aead] exI [of _ "[[72, 73]]"]) (simp_all add: sample_salt_size payloads_ok_def payloadSizeMask_def)
  then show ?thesis by blast
qed

subsection \<open>The sending half\<close>

text \<open>The writing side of the connection \<open>c\<close> has sent, behind \<open>base\<close>, the salt and records that carry \<open>m\<close>, and stands right behind them.\<close>

definition sess_out :: "crypto \<Rightarrow> bytes \<Rightarrow> ('c \<Rightarrow> bytes) \<Rightarrow> bytes \<Rightarrow> bytes \<Rightarrow> 'c streamConn \<Rightarrow> bool" where
  "sess_out cr salt sent base m c \<longleftrightarrow>
     (\<exists>a ps w. metaCipher_Encrypter cr (sc_Cipher c) salt = ret (Inr a) \<and> aead_ok a \<and> sc_w c = Some w \<and> sw_wf w \<and> w_AEAD w = a \<and>
        w_nonce w = (increment ^^ (2 * length ps)) (zero_nonce a) \<and> payloads_ok ps \<and> concat ps = m \<and>
        sent (sc_Conn c) = base @ salt @ records a (zero_nonce a) ps)"

lemma sess_out_carries:
  assumes "sess_out cr salt sent base m c" "length salt = metaCipher_SaltSize (sc_Cipher c)"
  shows "\<exists>bs. sent (sc_Conn c) = base @ bs \<and> carries cr (sc_Cipher c) salt m bs"
  using assms by (auto simp: sess_out_def carries_def)

lemma sess_out_reader [simp]: "sess_out cr salt sent base m (c\<lparr>sc_r := r\<rparr>) = sess_out cr salt sent base m c"
  by (simp add: sess_out_def)

lemma sess_out_conn: "sent v = sent (sc_Conn c) \<Longrightarrow> sess_out cr salt sent base m (c\<lparr>sc_Conn := v\<rparr>) = sess_out cr salt sent base m c"
  by (simp add: sess_out_def)

text \<open>It moves on with what the writer seals.\<close>

lemma sess_out_run:
  assumes "sess_out cr salt sent base m c" "sc_w c = Some w" "sealed_run content sent (w\<lparr>w_Writer := sc_Conn c\<rparr>) s qs [] w' s'"
  shows "sess_out cr salt sent base (m @ concat qs) (c\<lparr>sc_Conn := w_Writer w', sc_w := Some w'\<rparr>)"
proof -
  from assms(1,2) obtain a ps where o: "metaCipher_Encrypter cr (sc_Cipher c) salt = ret (Inr a)" "aead_ok a" "sw_wf w" "w_AEAD w = a"
    "w_nonce w = (increment ^^ (2 * length ps)) (zero_nonce a)" "payloads_ok ps" "concat ps = m" "sent (sc_Conn c) = base @ salt @ records a (zero_nonce a) ps"
    by (auto simp: sess_out_def)
  have run: "payloads_ok qs" "sent (w_Writer w') = sent (sc_Conn c) @ records a (w_nonce w) qs" "sw_wf w'" "w_AEAD w' = a"
    "w_nonce w' = (increment ^^ (2 * length qs)) (w_nonce w)"
    using assms(3) o(4) by (simp_all add: sealed_run_def)
  have n: "w_nonce w' = (increment ^^ (2 * length (ps @ qs))) (zero_nonce a)"
    using run(5) o(5) by (simp add: funpow_add [symmetric, THEN fun_cong, unfolded comp_def] algebra_simps flip: funpow_add)
  show ?thesis
    unfolding sess_out_def using o run n by (intro exI [of _ a] exI [of _ "ps @ qs"] exI [of _ w']) (simp add: records_append)
qed

locale live_pump = src: stream_reader rd content fin good left + dst: live_sink wr sent usable
  for rd :: "'s reader_fn" and content fin good left and wr :: "'c writer_fn" and sent usable

sublocale live_pump \<subseteq> pump rd content fin good left wr sent usable
  by unfold_locales

context live_pump
begin

lemma never_fails: "\<not> sink_fails e"
  using dst.live_write by (fastforce simp: sink_fails_def)

text \<open>A copy of a source into a session whose writer exists.\<close>

lemma copy_into:
  assumes "good s" "usable (sc_Conn c)" "sess_out cr salt sent base m c"
  shows "\<exists>c' s'. streamConn_ReadFrom cr bl en rnd wr rd c g s =
      ret (ilen (content s), (if fin s = EOF then None else Some (fin s)), c', g, s') \<and>
    good s' \<and> content s' = [] \<and> usable (sc_Conn c') \<and> sess_out cr salt sent base (m @ content s) c' \<and> sc_r c' = sc_r c \<and> sc_Cipher c' = sc_Cipher c"
proof -
  from assms(3) obtain w where o: "sc_w c = Some w" "sw_wf w" by (auto simp: sess_out_def)
  let ?w = "w\<lparr>w_Writer := sc_Conn c\<rparr>"
  have w: "usable (w_Writer ?w)" "sw_wf ?w" using assms(2) o(2) by simp_all
  from ReadFrom_all [OF assms(1) w never_fails] obtain qs w' s' where
    f: "writer_ReadFrom wr rd ?w s = ret (ilen (content s), (if fin s = EOF then None else Some (fin s)), w', s')"
    and s': "good s'" "content s' = []" and u: "usable (w_Writer w')" and q: "concat qs = content s" "sealed_run content sent ?w s qs [] w' s'"
    by (elim exE conjE) (rule that)
  let ?c = "c\<lparr>sc_Conn := w_Writer w', sc_w := Some w'\<rparr>"
  have "sess_out cr salt sent base (m @ content s) ?c" using sess_out_run [OF assms(3) o(1) q(2)] q(1) by simp
  moreover have "streamConn_ReadFrom cr bl en rnd wr rd c g s = ret (ilen (content s), (if fin s = EOF then None else Some (fin s)), ?c, g, s')"
    using f o(1) by (simp add: streamConn_ReadFrom_def streamConn_needWriter_def sc_writer_def)
  ultimately show ?thesis using s' u by (intro exI [of _ ?c] exI [of _ s']) simp
qed

end

context live_sink
begin

lemma open_writer:
  assumes "crypto_ok cr" "cipher_made cr (sc_Cipher c)" "sf_ok bl en (wd_salts g)"
    and "metaCipher_SaltSize (sc_Cipher c) \<le> length (wd_rand g)" "usable (sc_Conn c)"
  defines "salt \<equiv> take (metaCipher_SaltSize (sc_Cipher c)) (wd_rand g)"
  shows "\<exists>c' g'. streamConn_initWriter cr bl en buffer_Read wr c g = ret (None, c', g') \<and> usable (sc_Conn c') \<and>
    sess_out cr salt sent (sent (sc_Conn c)) [] c' \<and> sc_r c' = sc_r c \<and> sc_Cipher c' = sc_Cipher c \<and> sf_ok bl en (wd_salts g') \<and>
    AddSalt bl en (wd_salts g) salt = ret (wd_salts g')"
proof -
  let ?n = "metaCipher_SaltSize (sc_Cipher c)"
  from buffer.ReadFull_enough [where s = "wd_rand g" and p = "replicate ?n 0"] assms(4) have
    rf: "ReadFull buffer_Read (wd_rand g) (replicate ?n 0) = ret (int ?n, salt, None, drop ?n (wd_rand g))"
    by (auto simp: salt_def)
  from made_aead [OF assms(1,2), of salt] obtain a where
    a: "metaCipher_Encrypter cr (sc_Cipher c) salt = ret (Inr a)" "aead_ok a"
    by blast
  from write_all [OF assms(5), of salt] obtain v where v: "wr (sc_Conn c) salt = ret (ilen salt, None, v)" "usable v" "sent v = sent (sc_Conn c) @ salt"
    by blast
  from AddSalt_total [OF assms(3), of salt] obtain sf where sf: "AddSalt bl en (wd_salts g) salt = ret sf" "sf_ok bl en sf"
    by blast
  let ?c = "c\<lparr>sc_Conn := v, sc_w := Some (newWriter v a)\<rparr>" and ?g = "g\<lparr>wd_rand := drop ?n (wd_rand g), wd_salts := sf\<rparr>"
  have "streamConn_initWriter cr bl en buffer_Read wr c g = ret (None, ?c, ?g)"
    using rf a v sf by (simp add: streamConn_initWriter_def)
  moreover have "sess_out cr salt sent (sent (sc_Conn c)) [] ?c"
    unfolding sess_out_def using a v(3) sw_wf_newWriter [OF a(2)]
    by (intro exI [of _ a] exI [of _ "[]"] exI [of _ "newWriter v a"]) (simp add: newWriter_def payloads_ok_def)
  ultimately show ?thesis using v(2) sf by (intro exI [of _ ?c] exI [of _ ?g]) simp
qed

end

lemma ReadFrom_after_init:
  assumes "sc_w c = None" "streamConn_initWriter cr bl en rnd wr c g = ret (None, c1, g1)" "sc_w c1 \<noteq> None"
  shows "streamConn_ReadFrom cr bl en rnd wr rd c g s = streamConn_ReadFrom cr bl en rnd wr rd c1 g1 s"
  using assms by (auto simp: streamConn_ReadFrom_def streamConn_needWriter_def)

lemma Write_as_ReadFrom:
  "streamConn_Write cr bl en rnd wr (c, g) p =
     gobind (streamConn_ReadFrom cr bl en rnd wr buffer_Read c g p) (\<lambda>(n, err, c, g, _). ret (n, err, (c, g)))"
  unfolding streamConn_Write_def streamConn_ReadFrom_def gobind_assoc prod.case
  by (intro gobind_cong refl) (auto simp: gobind_assoc writer_Write_def case_prod_beta split: option.split)

context live_pump
begin

text \<open>A copy of a source into a session that has not sent its salt yet.\<close>

lemma copy_into_new:
  assumes "good s" "usable (sc_Conn c)" "sc_w c = None" "crypto_ok cr" "cipher_made cr (sc_Cipher c)" "sf_ok bl en (wd_salts g)"
    and "metaCipher_SaltSize (sc_Cipher c) \<le> length (wd_rand g)"
  defines "salt \<equiv> take (metaCipher_SaltSize (sc_Cipher c)) (wd_rand g)"
  shows "\<exists>c' g' s'. streamConn_ReadFrom cr bl en buffer_Read wr rd c g s =
      ret (ilen (content s), (if fin s = EOF then None else Some (fin s)), c', g', s') \<and> sf_ok bl en (wd_salts g') \<and>
    AddSalt bl en (wd_salts g) salt = ret (wd_salts g') \<and>
    good s' \<and> content s' = [] \<and> usable (sc_Conn c') \<and> sess_out cr salt sent (sent (sc_Conn c)) (content s) c' \<and> sc_r c' = sc_r c \<and> sc_Cipher c' = sc_Cipher c"
proof -
  from dst.open_writer [OF assms(4-7,2), folded salt_def] obtain c1 g1 where
    i: "streamConn_initWriter cr bl en buffer_Read wr c g = ret (None, c1, g1)" "usable (sc_Conn c1)" "sess_out cr salt sent (sent (sc_Conn c)) [] c1"
      "sc_r c1 = sc_r c" "sc_Cipher c1 = sc_Cipher c" "sf_ok bl en (wd_salts g1)" "AddSalt bl en (wd_salts g) salt = ret (wd_salts g1)"
    by (elim exE conjE) (rule that)
  have "sc_w c1 \<noteq> None" using i(3) by (auto simp: sess_out_def)
  note eq = ReadFrom_after_init [OF assms(3) i(1) this]
  from copy_into [OF assms(1) i(2,3)] show ?thesis unfolding eq using i(4-7) by (metis append_Nil)
qed

end

subsection \<open>The receiving half\<close>

lemma decode_fin: "snd (snd (decode a nonce fin bs)) = [] \<Longrightarrow> fst (snd (decode a nonce fin bs)) = fin"
proof (induction a nonce fin bs rule: decode.induct)
  case (1 a nonce fin bs)
  show ?case
  proof (cases "open_record a nonce fin bs")
    case (Inl e)
    with "1.prems" have "bs = []" by (simp add: decode_Inl)
    then show ?thesis by simp
  next
    case (Inr z)
    obtain p rest where z: "z = (p, rest)" by (cases z) auto
    with Inr "1.prems" "1.IH" show ?thesis by (auto simp: decode_Inr)
  qed
qed

text \<open>What a stream decodes to does not depend on how it ends.\<close>

lemma open_record_fin:
  "case open_record a nonce fin bs of Inl _ \<Rightarrow> (\<exists>e. open_record a nonce fin' bs = Inl e) | Inr z \<Rightarrow> open_record a nonce fin' bs = Inr z"
  by (auto simp: open_record_def open_part_def Let_def split: sum.splits option.splits)

lemma decode_any_fin:
  "fst (decode a nonce fin bs) = fst (decode a nonce fin' bs) \<and> snd (snd (decode a nonce fin bs)) = snd (snd (decode a nonce fin' bs))"
proof (induction a nonce fin bs rule: decode.induct)
  case (1 a nonce fin bs)
  show ?case
  proof (cases "open_record a nonce fin bs")
    case (Inl e)
    with open_record_fin [where a = a and nonce = nonce and fin = fin and bs = bs and fin' = fin'] show ?thesis by (auto simp: decode_Inl)
  next
    case (Inr z)
    obtain p rest where z: "z = (p, rest)" by (cases z) auto
    with Inr open_record_fin [where a = a and nonce = nonce and fin = fin and bs = bs and fin' = fin'] "1.IH" show ?thesis by (simp add: decode_Inr)
  qed
qed

text \<open>The reading side of \<open>c\<close> has the bytes \<open>m\<close> to give and then the error of the connection.\<close>

definition sess_in :: "('c \<Rightarrow> bytes) \<Rightarrow> ('c \<Rightarrow> goerr) \<Rightarrow> ('c \<Rightarrow> bool) \<Rightarrow> bytes \<Rightarrow> 'c streamConn \<Rightarrow> bool" where
  "sess_in content fin good m c \<longleftrightarrow> sc_r c \<noteq> None \<and> sr_good content fin good (session_reader c) \<and> sr_content content fin (session_reader c) = m"

lemma sess_in_session: "session_good content fin good (c, g) \<longleftrightarrow> sess_in content fin good (sr_content content fin (session_reader c)) c"
  by (simp add: sess_in_def session_good_def)

lemma sess_in_writer [simp]: "sess_in content fin good m (c\<lparr>sc_w := w\<rparr>) = sess_in content fin good m c"
  by (simp add: sess_in_def session_reader_def)

text \<open>It is not disturbed by what happens to the rest of the connection.\<close>

lemma sess_in_conn:
  assumes "sess_in content fin good m c" "content v = content (sc_Conn c)" "good' v"
  shows "sess_in content fin good' m (c\<lparr>sc_Conn := v\<rparr>)"
proof -
  let ?r = "the (sc_r c)"
  note any = decode_any_fin [of "r_AEAD ?r" "r_nonce ?r" "fin v" "content v" "fin (sc_Conn c)"]
  from assms any show ?thesis
    by (simp add: sess_in_def session_reader_def sr_good_def sr_content_def sr_decode_def sr_wf_def)
qed

context session_stream
begin

lemma open_reader:
  assumes "good (sc_Conn c)" "crypto_ok cr" "cipher_made cr (sc_Cipher c)" "sc_r c = None"
    and "carries cr (sc_Cipher c) salt m (content (sc_Conn c))" "CheckSalt bl en (wd_salts g) salt = ret (False, sf)"
  shows "\<exists>c'. streamConn_initReader cr bl en rd c g = ret (None, c', g\<lparr>wd_salts := sf\<rparr>) \<and> good (sc_Conn c') \<and>
    sess_in content fin good m c' \<and> fin (sc_Conn c') = fin (sc_Conn c) \<and> sc_w c' = sc_w c \<and> sc_Cipher c' = sc_Cipher c"
proof -
  from assms(5) obtain a ps where
    k: "length salt = metaCipher_SaltSize (sc_Cipher c)" "metaCipher_Encrypter cr (sc_Cipher c) salt = ret (Inr a)" "payloads_ok ps" "concat ps = m"
      "content (sc_Conn c) = salt @ records a (zero_nonce a) ps"
    by (auto simp: carries_def)
  from initReader_step [OF assms(1-3), of bl en g False sf] assms(6) k(1,2,5) obtain s where
    aead: "aead_ok a" and s: "good s" "content s = records a (zero_nonce a) ps" "fin s = fin (sc_Conn c)"
    and init: "streamConn_initReader cr bl en rd c g = ret (None, c\<lparr>sc_Conn := s, sc_r := Some (newReader s a)\<rparr>, g\<lparr>wd_salts := sf\<rparr>)"
    by auto
  let ?c = "c\<lparr>sc_Conn := s, sc_r := Some (newReader s a)\<rparr>"
  have r: "session_reader ?c = newReader s a" by (simp add: session_reader_def newReader_def)
  have "sr_decode content fin (newReader s a) = (ps, fin s, [])"
    using decode_records [OF aead _ k(3)] s(2) by (simp add: sr_decode_def newReader_def)
  moreover have "r_leftover (newReader s a) = []" "r_Reader (newReader s a) = s" by (simp_all add: newReader_def)
  ultimately have "sess_in content fin good m ?c"
    using r s(1) k(4) sr_wf_newReader [OF aead, of s] by (simp add: sess_in_def sr_good_def sr_content_def)
  with init s show ?thesis by (intro exI [of _ ?c]) simp
qed

lemma WriteTo_after_init:
  assumes "sc_r c = None" "streamConn_initReader cr bl en rd c g = ret (None, c1, g1)" "sc_r c1 \<noteq> None"
  shows "streamConn_WriteTo cr bl en rd wr c g w = streamConn_WriteTo cr bl en rd wr c1 g1 w"
  using assms by (auto simp: streamConn_WriteTo_def streamConn_needReader_def)

end

context live_pump
begin

text \<open>A copy out of a session.\<close>

lemma copy_out:
  assumes "usable w" "sess_in content fin good m c"
  shows "\<exists>c' w'. streamConn_WriteTo cr bl en rd wr c g w =
      ret (ilen m, (if fin (sc_Conn c) = EOF then None else Some (fin (sc_Conn c))), c', g, w') \<and>
    good (sc_Conn c') \<and> usable w' \<and> sent w' = sent w @ m \<and> sc_w c' = sc_w c \<and> sc_Cipher c' = sc_Cipher c"
proof -
  from assms(2) obtain r where r: "sc_r c = Some r" and g: "sr_good content fin good (session_reader c)"
    and m: "sr_content content fin (session_reader c) = m"
    by (auto simp: sess_in_def)
  have g': "good (r_Reader (session_reader c))" "sr_wf (session_reader c)" using g by (simp_all add: sr_good_def)
  have e: "fst (snd (sr_decode content fin (session_reader c))) = fin (sc_Conn c)"
    using g decode_fin by (simp add: sr_good_def sr_decode_def session_reader_def)
  from WriteTo_all [OF g' assms(1) never_fails] obtain r' w' where
    "reader_WriteTo rd wr (session_reader c) w = ret (ilen m, (if fin (sc_Conn c) = EOF then None else Some (fin (sc_Conn c))), r', w')"
    "good (r_Reader r')" "usable w'" "sent w' = sent w @ m"
    by (auto simp: e m Let_def)
  with r show ?thesis
    by (intro exI [of _ "c\<lparr>sc_Conn := r_Reader r', sc_r := Some r'\<rparr>"] exI [of _ w'])
      (simp add: streamConn_WriteTo_def streamConn_needReader_def sc_reader_def session_reader_def)
qed

end

end
