(* ===== verification/Total_Reader.thy ===== *)
theory Total_Reader
  imports Shadow_Conn Socks_Addr
begin

text \<open>
  Readers of hostile bytes.  The contract \<open>stream_reader\<close> speaks about the bytes a reader delivers and so does not fit a decrypting reader
  whose input was not made by the peer.  \<open>total_reader\<close> asks less: a read returns, keeps what \<open>good\<close> says and, when it delivers
  something or reports no error, brings the end nearer.  Decrypting, the lazily initialised connection and reading an address all keep this contract on
  every input.
\<close>

definition read_total :: "('s \<Rightarrow> nat) \<Rightarrow> 's \<Rightarrow> bytes \<Rightarrow> nat \<Rightarrow> bytes \<Rightarrow> goerr option \<Rightarrow> 's \<Rightarrow> bool" where
  "read_total left s p k p' e s' \<longleftrightarrow> k \<le> length p \<and> length p' = length p \<and> left s' \<le> left s \<and> (e = None \<or> 0 < k \<longrightarrow> left s' < left s)"

locale total_reader =
  fixes rd :: "'s reader_fn" and good :: "'s \<Rightarrow> bool" and left :: "'s \<Rightarrow> nat"
  assumes total_read: "good s \<Longrightarrow> p \<noteq> [] \<Longrightarrow> \<exists>k p' e s'. rd s p = ret (int k, p', e, s') \<and> good s' \<and> read_total left s p k p' e s'"
begin

lemma ReadAtLeast_total:
  assumes "good s" "n \<le> length p"
  shows "\<exists>m p' e s'. ReadAtLeast_loop rd s p (ilen p) (int n) None = ret (int m, p', e, s') \<and> good s' \<and> length p' = length p \<and>
    left s' \<le> left s \<and> n \<le> m \<and> (n < m \<longrightarrow> left s' < left s) \<and> (m < length p \<longrightarrow> e \<noteq> None)"
  using assms
proof (induction "left s" arbitrary: s n p rule: less_induct)
  case less
  show ?case
  proof (cases "n < length p")
    case False
    with less.prems show ?thesis by (simp add: ReadAtLeast_loop.simps)
  next
    case True
    then have "drop n p \<noteq> []" by simp
    from total_read [OF less.prems(1) this] obtain k q e s' where rd: "rd s (drop n p) = ret (int k, q, e, s')" "good s'"
      and st: "k \<le> length p - n" "left s' \<le> left s" "e = None \<or> 0 < k \<longrightarrow> left s' < left s"
      by (auto simp: read_total_def)
    let ?p = "overwrite p (int n) q"
    have lp: "length ?p = length p" using True by simp
    have step: "ReadAtLeast_loop rd s p (ilen p) (int n) None = ReadAtLeast_loop rd s' ?p (ilen ?p) (int (n + k)) e"
      using True rd lp by (subst ReadAtLeast_loop.simps) (simp add: seg_to_end)
    show ?thesis
    proof (cases e)
      case None
      with st(3) have lt: "left s' < left s" by simp
      have "n + k \<le> length ?p" using st(1) True lp by simp
      from less.hyps [OF lt rd(2) this] obtain m p' e' s2 where
        "ReadAtLeast_loop rd s' ?p (ilen ?p) (int (n + k)) None = ret (int m, p', e', s2)" "good s2" "length p' = length ?p"
        "left s2 \<le> left s'" "n + k \<le> m" "m < length ?p \<longrightarrow> e' \<noteq> None"
        by (elim exE conjE) (rule that)
      with lt lp step None show ?thesis by (intro exI [of _ m] exI [of _ p'] exI [of _ e'] exI [of _ s2]) simp
    next
      case (Some x)
      then have "ReadAtLeast_loop rd s p (ilen p) (int n) None = ret (int (n + k), ?p, Some x, s')"
        unfolding step by (subst ReadAtLeast_loop.simps) simp
      with rd(2) st lp show ?thesis by (intro exI [of _ "n + k"] exI [of _ ?p] exI [of _ "Some x"] exI [of _ s']) simp
    qed
  qed
qed

lemma ReadFull_total:
  assumes "good s"
  shows "\<exists>m p' e s'. ReadFull rd s p = ret (int m, p', e, s') \<and> good s' \<and> length p' = length p \<and> left s' \<le> left s \<and>
    (e = None \<and> p \<noteq> [] \<longrightarrow> left s' < left s)"
proof -
  from ReadAtLeast_total [OF assms, of 0 p] obtain m p' e s' where
    r: "ReadAtLeast_loop rd s p (ilen p) 0 None = ret (int m, p', e, s')" "good s'" "length p' = length p" "left s' \<le> left s"
    "0 < m \<longrightarrow> left s' < left s" "m < length p \<longrightarrow> e \<noteq> None"
    by auto
  let ?e = "if length p \<le> m then None else if 0 < m \<and> e = Some EOF then Some ErrUnexpectedEOF else e"
  have "?e = None \<and> p \<noteq> [] \<longrightarrow> left s' < left s" using r(5,6) by (cases p) (auto split: if_splits)
  with r(1-4) show ?thesis by (intro exI [of _ m] exI [of _ p'] exI [of _ ?e] exI [of _ s']) (simp add: ReadFull_def)
qed

lemma ReadFull_at_total:
  assumes "good s" "0 \<le> lo" "lo \<le> hi" "hi \<le> ilen b"
  shows "\<exists>err b' s'. ReadFull_at rd s b lo hi = ret (err, b', s') \<and> good s' \<and> length b' = length b \<and> left s' \<le> left s \<and>
    take (nat lo) b' = take (nat lo) b"
  using ReadFull_total [OF assms(1), of "seg b lo hi"] assms by (auto simp: ReadFull_at_def)

end

text \<open>A reader of a byte stream is one, if the bytes that are left count as well.\<close>

lemma read_step_total:
  assumes "read_step content fin left s p k p' e s'"
  shows "read_total (\<lambda>s. left s + length (content s)) s p k p' e s'"
proof -
  have "length (content s) = k + length (content s')" using assms by (auto simp: read_step_def)
  with assms show ?thesis by (auto simp: read_step_def read_total_def)
qed

sublocale stream_reader \<subseteq> total: total_reader rd good "\<lambda>s. left s + length (content s)"
proof
  fix s and p :: bytes
  assume "good s" "p \<noteq> []"
  from read_spec [OF this] obtain k p' e s' where "rd s p = ret (int k, p', e, s')" "good s'" "read_step content fin left s p k p' e s'"
    by (elim exE conjE) (rule that)
  with read_step_total show "\<exists>k p' e s'. rd s p = ret (int k, p', e, s') \<and> good s' \<and> read_total (\<lambda>s. left s + length (content s)) s p k p' e s'"
    by (intro exI conjI)
qed

subsection \<open>The decrypting reader\<close>

context total_reader
begin

definition open_total :: "'s sreader \<Rightarrow> goerr option \<Rightarrow> 's sreader \<Rightarrow> bool" where
  "open_total r e r' \<longleftrightarrow> good (r_Reader r') \<and> sr_wf r' \<and> r_AEAD r' = r_AEAD r \<and> r_leftover r' = r_leftover r \<and>
     left (r_Reader r') \<le> left (r_Reader r) \<and> (e = None \<longrightarrow> left (r_Reader r') < left (r_Reader r))"

lemma reader_open_total:
  assumes "good (r_Reader r)" "sr_wf r" "0 < n" "n \<le> ilen (r_buf r)"
  shows "\<exists>e r'. reader_open rd r n = ret (e, r') \<and> open_total r e r'"
proof -
  let ?p = "seg (r_buf r) 0 n"
  have ne: "?p \<noteq> []" using assms(3,4) length_seg [of 0 n "r_buf r"] by auto
  from ReadFull_total [OF assms(1), of ?p] ne obtain m p' e s' where
    r: "ReadFull rd (r_Reader r) ?p = ret (int m, p', e, s')" "good s'" "left s' \<le> left (r_Reader r)" "e = None \<longrightarrow> left s' < left (r_Reader r)"
    by (elim exE conjE) (rule that, auto)
  let ?r = "r\<lparr>r_Reader := s', r_buf := overwrite (r_buf r) 0 p'\<rparr>"
  have o: "reader_open rd r n = (case e of Some e \<Rightarrow> ret (Some e, ?r)
     | None \<Rightarrow> (case a_Open (r_AEAD r) (r_nonce r) p' of None \<Rightarrow> ret (Some AeadOpenError, ?r\<lparr>r_nonce := increment (r_nonce r), r_buf := overwrite (r_buf ?r) 0 (a_Spoil (r_AEAD r) (r_nonce r) p')\<rparr>)
        | Some q \<Rightarrow> ret (None, ?r\<lparr>r_nonce := increment (r_nonce r), r_buf := overwrite (r_buf ?r) 0 q\<rparr>)))"
    using r assms(3,4) by (simp add: reader_open_def Let_def split: option.split)
  have wf: "sr_wf ?r" "sr_wf (?r\<lparr>r_nonce := increment (r_nonce r)\<rparr>)" "\<And>q. sr_wf (?r\<lparr>r_nonce := increment (r_nonce r), r_buf := overwrite (r_buf ?r) 0 q\<rparr>)"
    using assms(2) by (simp_all add: sr_wf_def)
  show ?thesis
  proof (cases e)
    case None
    with o r wf show ?thesis by (cases "a_Open (r_AEAD r) (r_nonce r) p'") (auto simp: open_total_def)
  next
    case (Some x)
    with o r wf show ?thesis by (auto simp: open_total_def)
  qed
qed

lemma reader_read_total:
  assumes "good (r_Reader r)" "sr_wf r" "0 < a_Overhead (r_AEAD r)"
  shows "\<exists>n e r'. reader_read rd r = ret (n, e, r') \<and> 0 \<le> n \<and> n \<le> payloadSizeMask \<and> (e \<noteq> None \<longrightarrow> n = 0) \<and> open_total r e r'"
proof -
  have "0 < 2 + r_Overhead r" "2 + r_Overhead r \<le> ilen (r_buf r)" using assms(2) by (simp_all add: sr_wf_def psm)
  from reader_open_total [OF assms(1,2) this] obtain e r1 where
    o1: "reader_open rd r (2 + r_Overhead r) = ret (e, r1)" "open_total r e r1"
    by (elim exE conjE) (rule that)
  show ?thesis
  proof (cases e)
    case (Some x)
    with o1 show ?thesis by (auto simp: reader_read_def psm)
  next
    case None
    from o1(2) have g1: "good (r_Reader r1)" "sr_wf r1" "r_AEAD r1 = r_AEAD r" by (simp_all add: open_total_def)
    let ?n = "payload_size (r_buf r1 ! 0) (r_buf r1 ! 1)"
    note range = payload_size_range [of "r_buf r1 ! 0" "r_buf r1 ! 1"]
    have ix: "go_index (r_buf r1) 0 = ret (r_buf r1 ! 0)" "go_index (r_buf r1) 1 = ret (r_buf r1 ! 1)"
      using g1(2) by (simp_all add: sr_wf_def psm go_index_def)
    have le: "?n + r_Overhead r1 \<le> ilen (r_buf r1)" using g1(2) range by (simp add: sr_wf_def)
    have "0 < ?n + r_Overhead r1" using assms(3) range g1(3) by simp
    from reader_open_total [OF g1(1,2) this le] obtain e2 r2 where
      o2: "reader_open rd r1 (?n + r_Overhead r1) = ret (e2, r2)" "open_total r1 e2 r2"
      by (elim exE conjE) (rule that)
    have t: "open_total r e2 r2" using o1(2) o2(2) None by (auto simp: open_total_def)
    have "reader_read rd r = (case e2 of Some e \<Rightarrow> ret (0, Some e, r2) | None \<Rightarrow> ret (?n, None, r2))"
      using o1 o2 ix None by (simp add: reader_read_def Let_def split: option.split)
    with t range show ?thesis by (cases e2) (auto simp: psm)
  qed
qed

definition sr_total :: "'s sreader \<Rightarrow> bool" where
  "sr_total r \<longleftrightarrow> good (r_Reader r) \<and> sr_wf r \<and> 0 < a_Overhead (r_AEAD r)"

definition sr_measure :: "'s sreader \<Rightarrow> nat" where
  "sr_measure r = left (r_Reader r) * 16384 + length (r_leftover r)"

lemma sr_read_total:
  assumes "sr_total r" "p \<noteq> []"
  shows "\<exists>k p' e r'. reader_Read rd r p = ret (int k, p', e, r') \<and> sr_total r' \<and> read_total sr_measure r p k p' e r'"
proof (cases "r_leftover r = []")
  case False
  let ?k = "min (length p) (length (r_leftover r))"
  have "0 < ?k" using False assms(2) by simp
  moreover have "reader_Read rd r p = ret (int ?k, overwrite p 0 (r_leftover r), None, r\<lparr>r_leftover := drop ?k (r_leftover r)\<rparr>)"
    using False by (simp add: reader_Read_def copy_len_def Let_def flip: of_nat_min)
  ultimately show ?thesis using assms(1)
    by (intro exI [of _ ?k] exI conjI) (assumption | auto simp: read_total_def sr_total_def sr_measure_def)+
next
  case True
  from assms(1) have "good (r_Reader r)" "sr_wf r" "0 < a_Overhead (r_AEAD r)" by (simp_all add: sr_total_def)
  from reader_read_total [OF this] obtain n e r1 where
    rr: "reader_read rd r = ret (n, e, r1)" and n: "0 \<le> n" "n \<le> payloadSizeMask" "e \<noteq> None \<longrightarrow> n = 0" and t: "open_total r e r1"
    by (elim exE conjE) (rule that)
  have buf: "n \<le> ilen (r_buf r1)" using t n by (simp add: open_total_def sr_wf_def)
  let ?k = "min (length p) (nat n)" and ?l = "if min (length p) (nat n) < nat n then seg (r_buf r1) (int (min (length p) (nat n))) n else r_leftover r1"
  have ls: "length (seg (r_buf r1) 0 n) = nat n" using buf n(1) by (simp add: length_seg)
  have eq: "reader_Read rd r p = ret (int ?k, overwrite p 0 (seg (r_buf r1) 0 n), e, r1\<lparr>r_leftover := ?l\<rparr>)"
    using rr True n buf ls by (auto simp: reader_Read_def copy_len_def Let_def min_def)
  have "length ?l < 16384" using t True n by (auto simp: open_total_def seg_def psm)
  moreover have "?l = []" if "e \<noteq> None" using that n(3) t True by (simp add: open_total_def)
  ultimately have "sr_measure (r1\<lparr>r_leftover := ?l\<rparr>) \<le> sr_measure r \<and> (e = None \<longrightarrow> sr_measure (r1\<lparr>r_leftover := ?l\<rparr>) < sr_measure r)"
    using t by (cases e) (auto simp: open_total_def sr_measure_def simp del: if_split)
  moreover have "sr_total (r1\<lparr>r_leftover := ?l\<rparr>)" using t assms(1) by (simp add: open_total_def sr_total_def)
  moreover have "0 < ?k \<longrightarrow> e = None" using n(3) by auto
  ultimately show ?thesis using eq
    by (intro exI [of _ ?k] exI [of _ "overwrite p 0 (seg (r_buf r1) 0 n)"] exI [of _ e] exI [of _ "r1\<lparr>r_leftover := ?l\<rparr>"])
      (auto simp: read_total_def)
qed

end

subsection \<open>The encrypted connection\<close>

locale total_session = total_reader
begin

definition session_total :: "crypto \<Rightarrow> 'f bloom \<Rightarrow> env \<Rightarrow> 'a streamConn \<times> ('f, 'g) world \<Rightarrow> bool" where
  "session_total cr bl en = (\<lambda>(c, g). good (sc_Conn c) \<and> cipher_made cr (sc_Cipher c) \<and> sf_ok bl en (wd_salts g) \<and>
     (\<forall>r. sc_r c = Some r \<longrightarrow> sr_total (r\<lparr>r_Reader := sc_Conn c\<rparr>)))"

definition session_measure :: "'a streamConn \<times> ('f, 'g) world \<Rightarrow> nat" where
  "session_measure = (\<lambda>(c, g). left (sc_Conn c) * 16384 + (case sc_r c of None \<Rightarrow> 0 | Some r \<Rightarrow> length (r_leftover r)))"

lemma initReader_total:
  assumes "crypto_ok cr" "session_total cr bl en (c, g)" "sc_r c = None"
  shows "\<exists>e c' g'. streamConn_initReader cr bl en rd c g = ret (e, c', g') \<and> session_total cr bl en (c', g') \<and>
    session_measure (c', g') \<le> session_measure (c, g) \<and> (e = None \<longrightarrow> sc_r c' \<noteq> None)"
proof -
  let ?n = "metaCipher_SaltSize (sc_Cipher c)"
  have given: "good (sc_Conn c)" "cipher_made cr (sc_Cipher c)" "sf_ok bl en (wd_salts g)" using assms(2) by (simp_all add: session_total_def)
  from ReadFull_total [OF given(1), of "replicate ?n 0"] obtain m salt e s where
    r: "ReadFull rd (sc_Conn c) (replicate ?n 0) = ret (int m, salt, e, s)" "good s" "left s \<le> left (sc_Conn c)"
    by (elim exE conjE) (rule that)
  from made_aead [OF assms(1) given(2), of salt] obtain a where
    a: "metaCipher_Decrypter cr (sc_Cipher c) salt = ret (Inr a)" "aead_ok a" "a_Overhead a = 16"
    by blast
  from CheckSalt_eq [OF given(3), of salt] obtain rep sf where k: "CheckSalt bl en (wd_salts g) salt = ret (rep, sf)" "sf_ok bl en sf"
    by blast
  have wf: "sr_wf (newReader s a)" by (rule sr_wf_newReader [OF a(2)])
  consider (err) x where "e = Some x" | (rep) "e = None" "rep" | (ok) "e = None" "\<not> rep" by (cases e) auto
  then show ?thesis
  proof cases
    case err
    with r given assms(3) show ?thesis by (simp add: streamConn_initReader_def session_total_def session_measure_def)
  next
    case rep
    with r a k given assms(3) show ?thesis by (simp add: streamConn_initReader_def session_total_def session_measure_def)
  next
    case ok
    let ?c = "c\<lparr>sc_Conn := s, sc_r := Some (newReader s a)\<rparr>"
    have "session_total cr bl en (?c, g\<lparr>wd_salts := sf\<rparr>)"
      using r(2) given(2) k(2) wf a(3) by (simp add: session_total_def sr_total_def sr_wf_def newReader_def)
    moreover have "session_measure (?c, g\<lparr>wd_salts := sf\<rparr>) \<le> session_measure (c, g)"
      using r(3) assms(3) by (simp add: session_measure_def newReader_def)
    ultimately show ?thesis using ok r a k by (simp add: streamConn_initReader_def)
  qed
qed

lemma session_read_total:
  assumes "crypto_ok cr" "session_total cr bl en cg" "p \<noteq> []"
  shows "\<exists>k p' e cg'. streamConn_Read cr bl en rd cg p = ret (int k, p', e, cg') \<and> session_total cr bl en cg' \<and>
    read_total session_measure cg p k p' e cg'"
proof -
  obtain c g where cg: "cg = (c, g)" by (cases cg) auto
  have "\<exists>e c' g'. streamConn_needReader cr bl en rd c g = ret (e, c', g') \<and> session_total cr bl en (c', g') \<and>
      session_measure (c', g') \<le> session_measure (c, g) \<and> (e = None \<longrightarrow> sc_r c' \<noteq> None)"
    using initReader_total [OF assms(1)] assms(2) cg by (cases "sc_r c") (simp_all add: streamConn_needReader_def)
  then obtain e c1 g1 where n: "streamConn_needReader cr bl en rd c g = ret (e, c1, g1)" "session_total cr bl en (c1, g1)"
    "session_measure (c1, g1) \<le> session_measure (c, g)" "e = None \<longrightarrow> sc_r c1 \<noteq> None"
    by (elim exE conjE) (rule that)
  show ?thesis
  proof (cases e)
    case (Some x)
    with n show ?thesis by (simp add: cg streamConn_Read_def read_total_def)
  next
    case None
    with n(4) obtain r where r: "sc_r c1 = Some r" by blast
    let ?r = "r\<lparr>r_Reader := sc_Conn c1\<rparr>"
    have "sr_total ?r" using n(2) r by (simp add: session_total_def)
    from sr_read_total [OF this assms(3)] obtain k p' e' r' where
      rd: "reader_Read rd ?r p = ret (int k, p', e', r')" "sr_total r'" "read_total sr_measure ?r p k p' e' r'"
      by (elim exE conjE) (rule that)
    let ?c = "c1\<lparr>sc_Conn := r_Reader r', sc_r := Some r'\<rparr>"
    have "streamConn_Read cr bl en rd cg p = ret (int k, p', e', (?c, g1))"
      using n(1) None r rd(1) by (simp add: cg streamConn_Read_def sc_reader_def)
    moreover have "session_total cr bl en (?c, g1)" using rd(2) n(2) by (simp add: session_total_def sr_total_def)
    moreover have "session_measure (?c, g1) = sr_measure r'" "session_measure (c1, g1) = sr_measure ?r"
      using r by (simp_all add: session_measure_def sr_measure_def)
    ultimately show ?thesis using rd(3) n(3) by (auto simp: cg read_total_def)
  qed
qed

end

subsection \<open>Reading an address\<close>

lemma addr_wf_take:
  assumes "MaxAddrLen \<le> length b"
  shows "b ! 0 = ATYPIPv4 \<Longrightarrow> addr_wf (take 7 b)" "b ! 0 = ATYPIPv6 \<Longrightarrow> addr_wf (take 19 b)"
    "b ! 0 = ATYPDomain \<Longrightarrow> addr_wf (take (unat (b ! 1) + 4) b)"
proof -
  have l: "259 \<le> length b" using assms by (simp add: MaxAddrLen_def)
  then show "b ! 0 = ATYPIPv4 \<Longrightarrow> addr_wf (take 7 b)" "b ! 0 = ATYPIPv6 \<Longrightarrow> addr_wf (take 19 b)"
    by (simp_all add: addr_wf_def SplitAddr_def atyp_defs)
  have "unat (b ! 1) < 256" using unsigned_less [of "b ! 1"] by simp
  with l show "b ! 0 = ATYPDomain \<Longrightarrow> addr_wf (take (unat (b ! 1) + 4) b)"
    by (simp add: addr_wf_def SplitAddr_def eval_nat_numeral)
qed

context total_reader
begin

lemma readAddr_tail_total:
  assumes "good s" "0 < lo" "lo \<le> hi" "hi \<le> ilen b" "0 < length b"
  shows "\<exists>err b' s'. gobind (ReadFull_at rd s b lo hi) (\<lambda>(err, b, s). gobind (go_slice b 0 hi) (\<lambda>a. ret ((Some a, err), b, s))) =
      ret ((Some (take (nat hi) b'), err), b', s') \<and> good s' \<and> length b' = length b \<and> b' ! 0 = b ! 0"
proof -
  from assms(2) have "0 \<le> lo" by simp
  from ReadFull_at_total [OF assms(1) this assms(3,4)] obtain err b' s' where
    r: "ReadFull_at rd s b lo hi = ret (err, b', s')" "good s'" "length b' = length b" "take (nat lo) b' = take (nat lo) b"
    by (elim exE conjE) (rule that)
  have "b' ! 0 = b ! 0" using nth_take [of 0 "nat lo" b'] nth_take [of 0 "nat lo" b] assms(2) r(4) by simp
  with r assms show ?thesis
    by (intro exI [of _ err] exI [of _ b'] exI [of _ s']) (simp add: go_slice_def seg_def)
qed

lemma readAddr_total:
  assumes "good s" "length b = MaxAddrLen"
  shows "\<exists>res err b' s'. readAddr rd s b = ret ((res, err), b', s') \<and> good s' \<and> (err = None \<longrightarrow> (\<exists>a. res = Some a \<and> addr_wf a))"
proof -
  from ReadFull_at_total [OF assms(1), of 0 1 b] assms(2) obtain e1 b1 s1 where
    r1: "ReadFull_at rd s b 0 1 = ret (e1, b1, s1)" "good s1" "length b1 = 259"
    by (auto simp: MaxAddrLen_def)
  have i1: "go_index b1 0 = ret (b1 ! 0)" using r1(3) by (simp add: go_index_def)
  have ne: "0 < length b1" "MaxAddrLen \<le> length b1" using r1(3) by (simp_all add: MaxAddrLen_def)
  consider (err) x where "e1 = Some x" | (dom) "e1 = None" "b1 ! 0 = ATYPDomain" | (v4) "e1 = None" "b1 ! 0 = ATYPIPv4"
    | (v6) "e1 = None" "b1 ! 0 = ATYPIPv6" | (other) "e1 = None" "b1 ! 0 \<notin> {ATYPDomain, ATYPIPv4, ATYPIPv6}"
    by (cases e1) auto
  then show ?thesis
  proof cases
    case err
    with r1 show ?thesis by (simp add: readAddr_def assms(2))
  next
    case other
    with r1 i1 show ?thesis by (simp add: readAddr_def assms(2))
  next
    case v4
    from readAddr_tail_total [OF r1(2), of 1 7 b1] r1(3) ne(1) obtain err b' s' where
      t: "gobind (ReadFull_at rd s1 b1 1 7) (\<lambda>(err, b, s). gobind (go_slice b 0 7) (\<lambda>a. ret ((Some a, err), b, s))) =
        ret ((Some (take 7 b'), err), b', s')" "good s'" "length b' = length b1" "b' ! 0 = b1 ! 0" by auto
    with v4 r1 i1 addr_wf_take(1) [of b'] ne show ?thesis by (simp add: readAddr_def assms(2) atyp_defs)
  next
    case v6
    from readAddr_tail_total [OF r1(2), of 1 19 b1] r1(3) ne(1) obtain err b' s' where
      t: "gobind (ReadFull_at rd s1 b1 1 19) (\<lambda>(err, b, s). gobind (go_slice b 0 19) (\<lambda>a. ret ((Some a, err), b, s))) =
        ret ((Some (take 19 b'), err), b', s')" "good s'" "length b' = length b1" "b' ! 0 = b1 ! 0" by auto
    with v6 r1 i1 addr_wf_take(2) [of b'] ne show ?thesis by (simp add: readAddr_def assms(2) atyp_defs)
  next
    case dom
    from ReadFull_at_total [OF r1(2), of 1 2 b1] r1(3) obtain e2 b2 s2 where
      r2: "ReadFull_at rd s1 b1 1 2 = ret (e2, b2, s2)" "good s2" "length b2 = 259" "take 1 b2 = take 1 b1" by auto
    have "b2 ! 0 = take 1 b1 ! 0" unfolding r2(4) [symmetric] by simp
    then have h2: "b2 ! 0 = ATYPDomain" "go_index b2 1 = ret (b2 ! 1)" using r2(3) dom(2) by (simp_all add: go_index_def)
    have n: "uint (b2 ! 1) < 256" "0 \<le> uint (b2 ! 1)" using unsigned_less [of "b2 ! 1", where ?'a = int] by simp_all
    let ?hi = "2 + uint (b2 ! 1) + 2"
    from ReadFull_at_total [OF r2(2), of 2 ?hi b2] r2(3) n obtain e3 b3 s3 where
      r3: "ReadFull_at rd s2 b2 2 ?hi = ret (e3, b3, s3)" "good s3" "length b3 = 259" "take 2 b3 = take 2 b2" by auto
    have "b3 ! 0 = take 2 b2 ! 0" "b3 ! 1 = take 2 b2 ! 1" unfolding r3(4) [symmetric] by simp_all
    then have h3: "b3 ! 0 = ATYPDomain" "b3 ! 1 = b2 ! 1" "go_index b3 1 = ret (b2 ! 1)"
      using r3(3) h2 by (simp_all add: go_index_def)
    have hi: "1 + 1 + uint (b2 ! 1) + 2 = int (unat (b3 ! 1) + 4)" unfolding h3(2) by simp
    have "unat (b3 ! 1) + 4 \<le> length b3" using unsigned_less [of "b3 ! 1", where ?'a = nat] r3(3) by simp
    then have sl: "go_slice b3 0 (1 + 1 + uint (b2 ! 1) + 2) = ret (take (unat (b3 ! 1) + 4) b3)"
      unfolding hi go_slice_def seg_def by (simp del: of_nat_add)
    show ?thesis
    proof (cases e2)
      case (Some x)
      with dom r1 i1 r2 show ?thesis by (simp add: readAddr_def assms(2))
    next
      case None
      have "MaxAddrLen \<le> length b3" using r3(3) by (simp add: MaxAddrLen_def)
      with dom None r1 i1 r2 h2 r3 h3 sl addr_wf_take(3) [of b3] show ?thesis by (simp add: readAddr_def assms(2))
    qed
  qed
qed

lemma ReadAddr_total:
  assumes "good s"
  shows "\<exists>res err s'. ReadAddr rd s = ret ((res, err), s') \<and> good s' \<and> (err = None \<longrightarrow> (\<exists>a. res = Some a \<and> addr_wf a))"
  using readAddr_total [OF assms, of "replicate MaxAddrLen 0"] by (auto simp: ReadAddr_def)

end

end
