(* ===== verification/Server_Relay.thy ===== *)
theory Server_Relay
  imports Server Session_Flow Total_Reader
begin

text \<open>
  The relay of \<^verbatim>\<open>m_server/socks_server.go\<close>: its copies return on every pair of connections, whatever bytes come and whenever a peer
  stops reading.
\<close>

subsection \<open>The loop of \<^verbatim>\<open>io.Copy\<close>\<close>

context pump
begin

lemma io_Copy_write:
  assumes "rd s (replicate 32768 0) = ret (int k, q, e, s')" "k \<le> 32768" "length q = 32768" "usable w"
  shows "\<exists>j ew v. j \<le> k \<and> usable v \<and> sent v = sent w @ take j (take k q) \<and> (ew = None \<longrightarrow> j = k) \<and> (\<forall>x. ew = Some x \<longrightarrow> sink_fails x) \<and>
    io_Copy_loop rd wr s w n =
      (if ew \<noteq> None then ret (n + int j, ew, s', v)
       else case e of Some x \<Rightarrow> ret (n + int j, (if x \<noteq> EOF then Some x else None), s', v) | None \<Rightarrow> io_Copy_loop rd wr s' v (n + int j))"
proof (cases "k = 0")
  case True
  with assms show ?thesis
    by (intro exI [of _ 0] exI [of _ None] exI [of _ w]) (subst io_Copy_loop.simps, simp split: option.split)
next
  case False
  have sl: "go_slice q 0 (int k) = ret (take k q)" using assms(2,3) by (simp add: go_slice_def seg_def)
  from assms(4) obtain j ew v where w: "wr w (take k q) = ret (int j, ew, v)" "usable v" "j \<le> length (take k q)"
    "sent v = sent w @ take j (take k q)" "ew = None \<longrightarrow> j = length (take k q)" "\<forall>x. ew = Some x \<longrightarrow> sink_fails x"
    by (rule sink_write)
  have j: "j \<le> k" "ew = None \<longrightarrow> j = k" using w(3,5) assms(2,3) by auto
  have "io_Copy_loop rd wr s w n =
      (if ew \<noteq> None then ret (n + int j, ew, s', v)
       else case e of Some x \<Rightarrow> ret (n + int j, (if x \<noteq> EOF then Some x else None), s', v) | None \<Rightarrow> io_Copy_loop rd wr s' v (n + int j))"
    using False assms(1) sl w(1) j by (subst io_Copy_loop.simps) (auto simp: Let_def)
  with w(2,4,6) j show ?thesis by blast
qed

lemma io_Copy_loop_spec:
  assumes "good s" "usable w"
  shows "\<exists>k err s' w'. io_Copy_loop rd wr s w n = ret (n + int k, err, s', w') \<and> good s' \<and> drained w (content s) (fin s) k err w'"
  using assms
proof (induction "left s" arbitrary: s w n rule: less_induct)
  case less
  have "replicate 32768 (0 :: byte) \<noteq> []" by simp
  from src.read_spec [OF less.prems(1) this] obtain k q e s' where
    r: "rd s (replicate 32768 0) = ret (int k, q, e, s')" "good s'" and st: "read_step content fin left s (replicate 32768 0) k q e s'"
    by (elim exE conjE) (rule that)
  from st have k: "k \<le> 32768" "length q = 32768" and c: "content s = take k q @ content s'" "fin s' = fin s"
    by (simp_all add: read_step_def)
  from io_Copy_write [OF r(1) k less.prems(2), of n] obtain j ew v where
    v: "j \<le> k" "usable v" "sent v = sent w @ take j (take k q)" "ew = None \<longrightarrow> j = k" "\<forall>x. ew = Some x \<longrightarrow> sink_fails x"
    and l: "io_Copy_loop rd wr s w n =
      (if ew \<noteq> None then ret (n + int j, ew, s', v)
       else case e of Some x \<Rightarrow> ret (n + int j, (if x \<noteq> EOF then Some x else None), s', v) | None \<Rightarrow> io_Copy_loop rd wr s' v (n + int j))"
    by (elim exE conjE) (rule that)
  have lk: "length (take k q) = k" using k by simp
  consider (sink) x where "ew = Some x" | (over) x where "ew = None" "e = Some x" | (on) "ew = None" "e = None" by (cases ew; cases e) auto
  then show ?case
  proof cases
    case sink
    with v l c lk r(2) show ?thesis by (intro exI [of _ j] exI [of _ ew] exI [of _ s'] exI [of _ v]) (auto simp: drained_def)
  next
    case over
    with st have "x = fin s" "content s' = []" by (simp_all add: read_step_def)
    with over v l c lk r(2) show ?thesis
      by (intro exI [of _ k] exI [of _ "if x \<noteq> EOF then Some x else None"] exI [of _ s'] exI [of _ v]) (auto simp: drained_def)
  next
    case on
    with st have lt: "left s' < left s" by (simp add: read_step_def)
    from less.hyps [OF lt r(2) v(2), of "n + int j"] obtain i err s2 w2 where
      h: "io_Copy_loop rd wr s' v (n + int j) = ret (n + int j + int i, err, s2, w2)" "good s2" "drained v (content s') (fin s') i err w2"
      by (elim exE conjE) (rule that)
    have jk: "j = k" "sent v = sent w @ take k q" using on v(3,4) lk by simp_all
    from drained_after [OF v(2) jk(2) h(3)] h(1,2) on l jk(1) c lk show ?thesis
      by (intro exI [of _ "k + i"] exI [of _ err] exI [of _ s2] exI [of _ w2]) (simp add: algebra_simps)
  qed
qed

end

subsection \<open>Any peer\<close>

context corked
begin

lemma timed_Write_spec:
  assumes "ck_wf usable (tc_conn w)"
  shows "\<exists>k e w'. timed_Write wr w p = ret (int k, e, w') \<and> ck_wf usable (tc_conn w') \<and> write_step (tc_accepted sent) w p k e w'"
proof -
  have "\<exists>w1. timer_tick wr w = ret w1 \<and> ck_wf usable (tc_conn w1) \<and> tc_accepted sent w1 = tc_accepted sent w"
    using cork_fire_spec [OF assms] assms by (auto simp: timer_tick_def tc_accepted_def split: list.split)
  then obtain w1 where t: "timer_tick wr w = ret w1" "ck_wf usable (tc_conn w1)" "tc_accepted sent w1 = tc_accepted sent w" by blast
  from corked_Write_spec [OF t(2), of p] obtain k e c where
    "corked_Write wr (tc_conn w1) p = ret (int k, e, c)" "ck_wf usable c" "write_step (ck_accepted sent) (tc_conn w1) p k e c"
    by (elim exE conjE) (rule that)
  with t show ?thesis
    by (intro exI [of _ k] exI [of _ e] exI [of _ "w1\<lparr>tc_conn := c\<rparr>"]) (simp add: timed_Write_def tc_accepted_def write_step_def)
qed

end

sublocale corked \<subseteq> timed: byte_sink "timed_Write wr" "tc_accepted sent" "\<lambda>w. ck_wf usable (tc_conn w)"
  by unfold_locales (rule timed_Write_spec)

interpretation any_in: pump conn_Read conn_content c_fin "\<lambda>_. True" conn_left
  "timed_Write conn_Write" "tc_accepted c_out" "\<lambda>w. ck_wf (\<lambda>_. True) (tc_conn w)"
  by unfold_locales

interpretation any_bytes: pump buffer_Read "\<lambda>b. b" "\<lambda>_. EOF" "\<lambda>_. True" length
  "timed_Write conn_Write" "tc_accepted c_out" "\<lambda>w. ck_wf (\<lambda>_. True) (tc_conn w)"
  by unfold_locales

interpretation any_out: pump "timed_Read conn_Read" "\<lambda>w. conn_content (net_conn w)" "\<lambda>w. c_fin (net_conn w)" "tcp_framed.framed F W"
  "\<lambda>w. conn_left (net_conn w)" conn_Write c_out "\<lambda>_. True" for F W
  by unfold_locales

interpretation any_session: total_session "timed_Read conn_Read" "tcp_framed.framed F W" "\<lambda>w. conn_left (net_conn w) + length (conn_content (net_conn w))" for F W
  by unfold_locales

lemma set_net_corked: "set_net v (corked_conn fires c) = corked_conn fires v" "net_conn (corked_conn fires c) = c"
  by (simp_all add: set_net_def corked_conn_def net_conn_def timedCork_def new_Writer_def)

lemma framed_self: "tcp_framed.framed (net_conn w) w w"
  by (simp add: tcp_framed.framed_def only_refl)

lemma ck_wf_set_net: "ck_wf (\<lambda>_. True) (tc_conn (set_net v w)) = ck_wf (\<lambda>_. True) (tc_conn w)"
  by (simp add: ck_wf_def wb_wf_def set_net_def)

text \<open>What the two copies need of a connection behind a cipher.\<close>

definition left_ok :: "crypto \<Rightarrow> 'f bloom \<Rightarrow> env \<Rightarrow> conn timedConn shadow_conn \<Rightarrow> ('f, 'g) world \<Rightarrow> bool" where
  "left_ok cr bl en l g \<longleftrightarrow> ck_wf (\<lambda>_. True) (tc_conn (shadow_base l)) \<and> sf_ok bl en (wd_salts g) \<and>
     (case l of Bare _ \<Rightarrow> True | Shadowed s \<Rightarrow> cipher_made cr (sc_Cipher s) \<and> (\<forall>w. sc_w s = Some w \<longrightarrow> sw_wf w))"

definition reader_ok :: "conn timedConn shadow_conn \<Rightarrow> bool" where
  "reader_ok l = (case l of Bare _ \<Rightarrow> True | Shadowed s \<Rightarrow> \<forall>r. sc_r s = Some r \<longrightarrow> sr_wf r \<and> 0 < a_Overhead (r_AEAD r))"

lemma left_ok_update: "left_ok cr bl en (shadow_update (\<lambda>w. set_net (f w) w) l) g = left_ok cr bl en l g"
  "reader_ok (shadow_update (\<lambda>w. set_net (f w) w) l) = reader_ok l"
  by (cases l; simp add: left_ok_def reader_ok_def shadow_update_def shadow_base_def ck_wf_set_net)+

lemma sr_wf_Reader [simp]: "sr_wf (r\<lparr>r_Reader := v\<rparr>) = sr_wf r"
  by (simp add: sr_wf_def)

lemma initReader_keeps:
  "streamConn_initReader cr bl en rd c g = ret (e, c', g') \<Longrightarrow> sc_w c' = sc_w c \<and> sc_Cipher c' = sc_Cipher c"
proof -
  have "go_post (\<lambda>(_, c', _). sc_w c' = sc_w c \<and> sc_Cipher c' = sc_Cipher c) (streamConn_initReader cr bl en rd c g)"
    unfolding streamConn_initReader_def Let_def by (auto intro!: go_post_bind go_post_ret split: prod.split option.split sum.split)
  then show "streamConn_initReader cr bl en rd c g = ret (e, c', g') \<Longrightarrow> sc_w c' = sc_w c \<and> sc_Cipher c' = sc_Cipher c"
    by (simp add: go_post_def)
qed

lemma WriteTo_any:
  assumes "crypto_ok cr" "left_ok cr bl en (Shadowed s) g" "reader_ok (Shadowed s)"
  shows "\<exists>n e s' g' d'. streamConn_WriteTo cr bl en (timed_Read conn_Read) conn_Write s g d = ret (n, e, s', g', d') \<and> left_ok cr bl en (Shadowed s') g'"
proof -
  let ?F = "net_conn (sc_Conn s)" and ?W = "sc_Conn s"
  have total: "any_session.session_total ?F ?W cr bl en (s, g)"
    using assms(2,3) framed_self by (auto simp: any_session.session_total_def any_out.src.total.sr_total_def left_ok_def reader_ok_def)
  have ok: "left_ok cr bl en (Shadowed s1) g1"
    if "tcp_framed.framed ?F ?W (sc_Conn s1)" "sc_Cipher s1 = sc_Cipher s" "sc_w s1 = sc_w s" "sf_ok bl en (wd_salts g1)" for s1 g1
  proof -
    have "ck_wf (\<lambda>_. True) (tc_conn (sc_Conn s1)) = ck_wf (\<lambda>_. True) (tc_conn ?W)"
      by (subst framed_fields(2) [OF that(1)]) (rule ck_wf_set_net)
    with that assms(2) show ?thesis by (simp add: left_ok_def shadow_base_def)
  qed
  have "\<exists>e s1 g1. streamConn_needReader cr bl en (timed_Read conn_Read) s g = ret (e, s1, g1) \<and> any_session.session_total ?F ?W cr bl en (s1, g1) \<and>
      (e = None \<longrightarrow> sc_r s1 \<noteq> None) \<and> sc_Cipher s1 = sc_Cipher s \<and> sc_w s1 = sc_w s"
    using any_session.initReader_total [OF assms(1) total] initReader_keeps total
    by (cases "sc_r s") (fastforce simp: streamConn_needReader_def)+
  then obtain e s1 g1 where n: "streamConn_needReader cr bl en (timed_Read conn_Read) s g = ret (e, s1, g1)"
    "any_session.session_total ?F ?W cr bl en (s1, g1)" "e = None \<longrightarrow> sc_r s1 \<noteq> None" "sc_Cipher s1 = sc_Cipher s" "sc_w s1 = sc_w s"
    by (elim exE conjE) (rule that)
  have f1: "tcp_framed.framed ?F ?W (sc_Conn s1)" "sf_ok bl en (wd_salts g1)" using n(2) by (simp_all add: any_session.session_total_def)
  show ?thesis
  proof (cases e)
    case (Some x)
    with n ok [OF f1(1) n(4,5) f1(2)] show ?thesis by (simp add: streamConn_WriteTo_def)
  next
    case None
    with n(3) obtain r where r: "sc_r s1 = Some r" by blast
    let ?r = "r\<lparr>r_Reader := sc_Conn s1\<rparr>"
    have "sr_wf ?r" using n(2) r by (simp add: any_session.session_total_def any_out.src.total.sr_total_def)
    from any_out.reader_WriteTo_spec [where r = ?r and w = d and F = ?F and W = ?W, OF _ this TrueI] f1(1) obtain k err r' d' where
      w: "reader_WriteTo (timed_Read conn_Read) conn_Write ?r d = ret (int k, err, r', d')" "tcp_framed.framed ?F ?W (r_Reader r')"
      by auto
    let ?s = "s1\<lparr>sc_Conn := r_Reader r', sc_r := Some r'\<rparr>"
    have "left_ok cr bl en (Shadowed ?s) g1" using ok [of ?s g1] w(2) n(4,5) f1(2) by simp
    moreover have "streamConn_WriteTo cr bl en (timed_Read conn_Read) conn_Write s g d = ret (int k, err, ?s, g1, d')"
      using n(1) None r w(1) by (simp add: streamConn_WriteTo_def sc_reader_def)
    ultimately show ?thesis by blast
  qed
qed

lemma initWriter_any:
  assumes "crypto_ok cr" "left_ok cr bl en (Shadowed s) g"
  shows "\<exists>e s' g'. streamConn_initWriter cr bl en buffer_Read (timed_Write conn_Write) s g = ret (e, s', g') \<and> left_ok cr bl en (Shadowed s') g' \<and>
    sc_r s' = sc_r s \<and> (e = None \<longrightarrow> sc_w s' \<noteq> None)"
proof -
  let ?n = "metaCipher_SaltSize (sc_Cipher s)"
  have given: "ck_wf (\<lambda>_. True) (tc_conn (sc_Conn s))" "cipher_made cr (sc_Cipher s)" "sf_ok bl en (wd_salts g)" "\<forall>w. sc_w s = Some w \<longrightarrow> sw_wf w"
    using assms(2) by (simp_all add: left_ok_def shadow_base_def)
  from buffer.total.ReadFull_total [where s = "wd_rand g" and p = "replicate ?n 0"] obtain m salt e rest where
    r: "ReadFull buffer_Read (wd_rand g) (replicate ?n 0) = ret (int m, salt, e, rest)" by blast
  from made_aead [OF assms(1) given(2), of salt] obtain a where a: "metaCipher_Encrypter cr (sc_Cipher s) salt = ret (Inr a)" "aead_ok a" by blast
  from tcp_cork.timed_Write_spec [OF given(1), of salt] obtain k ew v where
    v: "timed_Write conn_Write (sc_Conn s) salt = ret (int k, ew, v)" "ck_wf (\<lambda>_. True) (tc_conn v)" by blast
  from AddSalt_total [OF given(3), of salt] obtain sf where sf: "AddSalt bl en (wd_salts g) salt = ret sf" "sf_ok bl en sf" by blast
  consider (short) x where "e = Some x" | (failed) x where "e = None" "ew = Some x" | (ok) "e = None" "ew = None" by (cases e; cases ew) auto
  then show ?thesis
  proof cases
    case short
    with r given show ?thesis by (simp add: streamConn_initWriter_def left_ok_def shadow_base_def)
  next
    case failed
    with r a v given show ?thesis by (simp add: streamConn_initWriter_def left_ok_def shadow_base_def)
  next
    case ok
    with r a v sf given sw_wf_newWriter [OF a(2)] show ?thesis by (simp add: streamConn_initWriter_def left_ok_def shadow_base_def)
  qed
qed

lemma ReadFrom_with:
  assumes "crypto_ok cr" "left_ok cr bl en (Shadowed s) g"
    and "\<And>w. ck_wf (\<lambda>_. True) (tc_conn (w_Writer w)) \<Longrightarrow> sw_wf w \<Longrightarrow>
      \<exists>n err w' d'. writer_ReadFrom (timed_Write conn_Write) rd w d = ret (n, err, w', d') \<and> ck_wf (\<lambda>_. True) (tc_conn (w_Writer w')) \<and> sw_wf w'"
  shows "\<exists>n e s' g' d'. streamConn_ReadFrom cr bl en buffer_Read (timed_Write conn_Write) rd s g d = ret (n, e, s', g', d') \<and>
    left_ok cr bl en (Shadowed s') g' \<and> sc_r s' = sc_r s"
proof -
  have "\<exists>e s1 g1. streamConn_needWriter cr bl en buffer_Read (timed_Write conn_Write) s g = ret (e, s1, g1) \<and> left_ok cr bl en (Shadowed s1) g1 \<and>
      sc_r s1 = sc_r s \<and> (e = None \<longrightarrow> sc_w s1 \<noteq> None)"
    using initWriter_any [OF assms(1,2)] assms(2) by (cases "sc_w s") (simp_all add: streamConn_needWriter_def)
  then obtain e s1 g1 where n: "streamConn_needWriter cr bl en buffer_Read (timed_Write conn_Write) s g = ret (e, s1, g1)"
    "left_ok cr bl en (Shadowed s1) g1" "sc_r s1 = sc_r s" "e = None \<longrightarrow> sc_w s1 \<noteq> None"
    by (elim exE conjE) (rule that)
  show ?thesis
  proof (cases e)
    case (Some x)
    with n show ?thesis by (simp add: streamConn_ReadFrom_def)
  next
    case None
    with n(4) obtain w where w: "sc_w s1 = Some w" by blast
    let ?w = "w\<lparr>w_Writer := sc_Conn s1\<rparr>"
    have "ck_wf (\<lambda>_. True) (tc_conn (w_Writer ?w))" "sw_wf ?w" using n(2) w by (simp_all add: left_ok_def shadow_base_def)
    from assms(3) [OF this] obtain k err w' d' where
      r: "writer_ReadFrom (timed_Write conn_Write) rd ?w d = ret (k, err, w', d')" "ck_wf (\<lambda>_. True) (tc_conn (w_Writer w'))" "sw_wf w'"
      by (elim exE conjE) (rule that)
    let ?s = "s1\<lparr>sc_Conn := w_Writer w', sc_w := Some w'\<rparr>"
    have "left_ok cr bl en (Shadowed ?s) g1" using n(2) r(2,3) by (simp add: left_ok_def shadow_base_def)
    moreover have "streamConn_ReadFrom cr bl en buffer_Read (timed_Write conn_Write) rd s g d = ret (k, err, ?s, g1, d')"
      using n(1) None w r(1) by (simp add: streamConn_ReadFrom_def sc_writer_def)
    ultimately show ?thesis using n(3) by auto
  qed
qed

lemma ReadFrom_any:
  assumes "crypto_ok cr" "left_ok cr bl en (Shadowed s) g"
  shows "\<exists>n e s' g' d'. streamConn_ReadFrom cr bl en buffer_Read (timed_Write conn_Write) conn_Read s g d = ret (n, e, s', g', d') \<and>
    left_ok cr bl en (Shadowed s') g' \<and> sc_r s' = sc_r s"
  using assms
proof (rule ReadFrom_with)
  fix w :: "conn timedConn swriter"
  assume "ck_wf (\<lambda>_. True) (tc_conn (w_Writer w))" "sw_wf w"
  from any_in.writer_ReadFrom_loop_spec [where w = w and s = d and n = 0, OF TrueI this]
  show "\<exists>n err w' d'. writer_ReadFrom (timed_Write conn_Write) conn_Read w d = ret (n, err, w', d') \<and> ck_wf (\<lambda>_. True) (tc_conn (w_Writer w')) \<and> sw_wf w'"
    by (auto simp: writer_ReadFrom_def sealed_run_def)
qed

lemma shadow_Write_any:
  assumes "crypto_ok cr" "left_ok cr bl en l g"
  shows "\<exists>n e l' g'. shadow_Write cr bl en buffer_Read (timed_Write conn_Write) (l, g) p = ret (n, e, (l', g')) \<and> left_ok cr bl en l' g' \<and>
    reader_ok l' = reader_ok l"
proof (cases l)
  case (Bare w)
  then have w: "ck_wf (\<lambda>_. True) (tc_conn w)" "sf_ok bl en (wd_salts g)" using assms(2) by (simp_all add: left_ok_def shadow_base_def)
  from tcp_cork.timed_Write_spec [OF w(1), of p] Bare w(2) show ?thesis by (auto simp: shadow_Write_def left_ok_def shadow_base_def reader_ok_def)
next
  case (Shadowed s)
  have "\<exists>n err w' d'. writer_ReadFrom (timed_Write conn_Write) buffer_Read w p = ret (n, err, w', d') \<and> ck_wf (\<lambda>_. True) (tc_conn (w_Writer w')) \<and> sw_wf w'"
    if "ck_wf (\<lambda>_. True) (tc_conn (w_Writer w))" "sw_wf w" for w :: "conn timedConn swriter"
    using any_bytes.writer_ReadFrom_loop_spec [where w = w and s = p and n = 0, OF TrueI that] by (auto simp: writer_ReadFrom_def sealed_run_def)
  with ReadFrom_with [OF assms(1), of bl en s g buffer_Read p] assms(2) Shadowed show ?thesis
    by (fastforce simp: shadow_Write_def Write_as_ReadFrom reader_ok_def)
qed

lemma copy_right_any:
  assumes "crypto_ok cr" "left_ok cr bl en l g" "reader_ok l"
  shows "\<exists>n e l' g' d'. copy_right cr bl en (timed_Read conn_Read) conn_Write l g d = ret (n, e, l', g', d') \<and> left_ok cr bl en l' g'"
proof (cases l)
  case (Shadowed s)
  from WriteTo_any [OF assms(1), of bl en s g d] assms(2,3) Shadowed show ?thesis by (auto simp: copy_right_def)
next
  case (Bare w)
  from any_out.io_Copy_loop_spec [OF framed_self TrueI, of w d 0] obtain k err w' d' where
    c: "io_Copy_loop (timed_Read conn_Read) conn_Write w d 0 = ret (0 + int k, err, w', d')" and f: "tcp_framed.framed (net_conn w) w w'"
    by (elim exE conjE) (rule that)
  have "ck_wf (\<lambda>_. True) (tc_conn w')" using assms(2) Bare by (subst framed_fields(2) [OF f]) (simp add: ck_wf_set_net left_ok_def shadow_base_def)
  with c Bare assms(2) show ?thesis by (simp add: copy_right_def left_ok_def shadow_base_def)
qed

lemma copy_left_any:
  assumes "crypto_ok cr" "left_ok cr bl en l g"
  shows "\<exists>n e l' g' d'. copy_left cr bl en buffer_Read (timed_Write conn_Write) conn_Read l g d = ret (n, e, l', g', d') \<and> left_ok cr bl en l' g' \<and>
    reader_ok l' = reader_ok l"
proof (cases l)
  case (Shadowed s)
  from ReadFrom_any [OF assms(1), of bl en s g d] assms(2) Shadowed show ?thesis by (auto simp: copy_left_def reader_ok_def)
next
  case (Bare w)
  then have w: "ck_wf (\<lambda>_. True) (tc_conn w)" "sf_ok bl en (wd_salts g)" using assms(2) by (simp_all add: left_ok_def shadow_base_def)
  from any_in.io_Copy_loop_spec [OF TrueI w(1), of d 0] Bare w(2) show ?thesis
    by (auto simp: copy_left_def left_ok_def shadow_base_def reader_ok_def any_in.drained_def)
qed

text \<open>The relay ends, in both orders, whatever comes from the two sides and whatever a deadline does to them, and leaves the salt store intact.\<close>

lemma relay_returns:
  assumes "crypto_ok cr" "left_ok cr bl en l g" "reader_ok l"
  shows "\<exists>err l' g' d'. relay cr bl en buffer_Read conn_Read conn_Write late go_first srv l g d = ret (err, l', g', d') \<and> left_ok cr bl en l' g'"
proof (cases go_first)
  case True
  from copy_right_any [OF assms, of d] obtain n1 e1 l1 g1 d1 where
    c1: "copy_right cr bl en (timed_Read conn_Read) conn_Write l g d = ret (n1, e1, l1, g1, d1)" "left_ok cr bl en l1 g1" by blast
  let ?d = "if 0 < sint (srv_ReadTimeout srv) then late (srv_ReadTimeout srv) d1 else d1"
  from copy_left_any [OF assms(1) c1(2), of ?d] True c1(1) show ?thesis by (auto simp: relay_def Let_def left_ok_update)
next
  case False
  from copy_left_any [OF assms(1,2), of d] obtain n1 e1 l1 g1 d1 where
    c1: "copy_left cr bl en buffer_Read (timed_Write conn_Write) conn_Read l g d = ret (n1, e1, l1, g1, d1)" "left_ok cr bl en l1 g1" "reader_ok l1 = reader_ok l" by blast
  let ?l = "if 0 < sint (srv_ReadTimeout srv) then shadow_update (\<lambda>w. set_net (late (srv_ReadTimeout srv) (net_conn w)) w) l1 else l1"
  have "left_ok cr bl en ?l g1" "reader_ok ?l" using c1(2,3) assms(3) by (simp_all add: left_ok_update)
  from copy_right_any [OF assms(1) this, of d1] False c1(1) show ?thesis by (auto simp: relay_def Let_def)
qed

end
