(* ===== verification/Server_Probe.thy ===== *)
theory Server_Probe
  imports Server_Relay
begin

text \<open>
  What the remote side does with a connection whose bytes it cannot trust.  The handler of \<^verbatim>\<open>ServeServer\<close> returns on every input and
  writes nothing before it relays, so an active probe that does not know the key gets no answer from it.
\<close>

subsection \<open>Draining\<close>

context stream_reader
begin

lemma discard_all:
  assumes "good c"
  shows "\<exists>c'. discard rd c = ret (if fin c = EOF then None else Some (fin c), c') \<and> good c' \<and> content c' = []"
  using assms
proof (induction "left c" arbitrary: c rule: less_induct)
  case less
  have "replicate 8192 (0 :: byte) \<noteq> []" by simp
  from read_spec [OF less.prems this] obtain k p' e c1 where r: "rd c (replicate 8192 0) = ret (int k, p', e, c1)" "good c1"
    and st: "read_step content fin left c (replicate 8192 0) k p' e c1"
    by (elim exE conjE) (rule that)
  show ?case
  proof (cases e)
    case None
    with st have lt: "left c1 < left c" and f: "fin c1 = fin c" by (simp_all add: read_step_def)
    from less.hyps [OF lt r(2)] show ?thesis unfolding f by (subst discard.simps) (simp add: r(1) None)
  next
    case (Some x)
    with st have "x = fin c" "content c1 = []" by (simp_all add: read_step_def)
    with r Some show ?thesis by (subst discard.simps) simp
  qed
qed

end

subsection \<open>A connection that nothing was written to\<close>

text \<open>
  \<open>quiet fires c w\<close>: the connection \<open>w\<close> is as \<^verbatim>\<open>timedCork\<close> made it of \<open>c\<close>, with no timer running, and the network connection differs from \<open>c\<close> in what was
  read only.
\<close>

definition quiet :: "bool list \<Rightarrow> conn \<Rightarrow> conn timedConn \<Rightarrow> bool" where
  "quiet fires c w \<longleftrightarrow> (\<exists>v. w = corked_conn fires v \<and> only_read c v)"

lemma quiet_framed: "tcp_framed.framed c (corked_conn fires c) w = quiet fires c w"
  unfolding tcp_framed.framed_def quiet_def by (metis set_net_corked)

subsection \<open>A connection behind a cipher\<close>

context total_session
begin

definition shadow_total :: "crypto \<Rightarrow> 'f bloom \<Rightarrow> env \<Rightarrow> 'a shadow_conn \<times> ('f, 'g) world \<Rightarrow> bool" where
  "shadow_total cr bl en = (\<lambda>(c, g). case c of Bare c \<Rightarrow> good c \<and> sf_ok bl en (wd_salts g) | Shadowed s \<Rightarrow> session_total cr bl en (s, g))"

definition shadow_measure :: "'a shadow_conn \<times> ('f, 'g) world \<Rightarrow> nat" where
  "shadow_measure = (\<lambda>(c, g). case c of Bare c \<Rightarrow> left c | Shadowed s \<Rightarrow> session_measure (s, g))"

lemma shadow_read_total:
  assumes "crypto_ok cr" "shadow_total cr bl en cg" "p \<noteq> []"
  shows "\<exists>k p' e cg'. shadow_Read cr bl en rd cg p = ret (int k, p', e, cg') \<and> shadow_total cr bl en cg' \<and> read_total shadow_measure cg p k p' e cg'"
proof -
  obtain c g where cg: "cg = (c, g)" by (cases cg) auto
  show ?thesis
  proof (cases c)
    case (Bare b)
    with assms(2) cg have b: "good b" "sf_ok bl en (wd_salts g)" by (simp_all add: shadow_total_def)
    from total_read [OF b(1) assms(3)] obtain k p' e b' where "rd b p = ret (int k, p', e, b')" "good b'" "read_total left b p k p' e b'"
      by (elim exE conjE) (rule that)
    then show ?thesis
      by (intro exI [of _ k] exI [of _ p'] exI [of _ e] exI [of _ "(Bare b', g)"])
        (simp add: cg Bare shadow_Read_def shadow_total_def shadow_measure_def read_total_def b(2))
  next
    case (Shadowed s)
    with assms(2) cg have "session_total cr bl en (s, g)" by (simp add: shadow_total_def)
    from session_read_total [OF assms(1) this assms(3)] obtain k p' e sg where
      r: "streamConn_Read cr bl en rd (s, g) p = ret (int k, p', e, sg)" "session_total cr bl en sg" "read_total session_measure (s, g) p k p' e sg"
      by (elim exE conjE) (rule that)
    obtain s' g' where "sg = (s', g')" by (cases sg) auto
    with r show ?thesis
      by (intro exI [of _ k] exI [of _ p'] exI [of _ e] exI [of _ "(Shadowed s', g')"])
        (simp add: cg Shadowed shadow_Read_def shadow_total_def shadow_measure_def read_total_def)
  qed
qed

lemma shadow_reader: "crypto_ok cr \<Longrightarrow> total_reader (shadow_Read cr bl en rd) (shadow_total cr bl en) shadow_measure"
  by unfold_locales (rule shadow_read_total)

lemma shadow_good: "shadow_total cr bl en (sc, g) \<Longrightarrow> good (shadow_base sc) \<and> sf_ok bl en (wd_salts g)"
  by (auto simp: shadow_total_def session_total_def shadow_base_def split: shadow_conn.splits)

end

text \<open>Reading an address keeps what every read keeps.\<close>

lemma ReadAddr_inv:
  assumes "\<And>s p n p' e s'. I s \<Longrightarrow> rd s p = ret (n, p', e, s') \<Longrightarrow> I s'" "I s" "ReadAddr rd s = ret (res, s')"
  shows "I s'"
proof -
  have fill: "go_post P (gobind (ReadFull_at rd s b lo hi) f)" if "I s" "\<And>err b s. I s \<Longrightarrow> go_post P (f (err, b, s))"
    for s b lo hi f and P :: "((bytes option \<times> goerr option) \<times> bytes \<times> 'a) \<Rightarrow> bool"
    unfolding go_post_def gobind_eq_ret
  proof (intro allI impI, elim exE conjE)
    fix x y assume r: "ReadFull_at rd s b lo hi = ret x" "f x = ret y"
    then obtain err b' s' where x: "x = (err, b', s')" by (cases x) auto
    with r(1) obtain q m p' where full: "ReadFull rd s q = ret (m, p', err, s')" by (auto simp: ReadFull_at_def gobind_eq_ret)
    have "I s'" by (rule ReadFull_inv [where I = I, OF _ full that(1)]) (rule assms(1))
    with that(2) [of s' err b'] r(2) x show "P y" unfolding go_post_def by blast
  qed
  have "go_post (\<lambda>(_, _, s). I s) (readAddr rd s b)" for b
    unfolding readAddr_def
    by (auto intro!: fill go_post_bind [where m = "go_index _ _"] go_post_bind [where m = "go_slice _ _ _"] go_post_ret assms(2) split: option.split)
  with assms(3) show ?thesis by (auto simp: ReadAddr_def gobind_eq_ret go_post_def)
qed

lemma streamConn_Read_keeps:
  "streamConn_Read cr bl en rd (c, g) p = ret (n, p', e, (c', g')) \<Longrightarrow> sc_w c' = sc_w c \<and> sc_Cipher c' = sc_Cipher c"
  by (auto simp: streamConn_Read_def streamConn_needReader_def gobind_eq_ret split: option.splits dest!: initReader_keeps)

definition not_sent :: "'c shadow_conn \<Rightarrow> bool" where
  "not_sent l = (case l of Bare _ \<Rightarrow> True | Shadowed s \<Rightarrow> sc_w s = None)"

lemma shadow_Read_not_sent:
  "not_sent (fst lg) \<Longrightarrow> shadow_Read cr bl en rd lg p = ret (n, p', e, lg') \<Longrightarrow> not_sent (fst lg')"
  by (auto simp: not_sent_def shadow_Read_def gobind_eq_ret split: shadow_conn.splits prod.splits dest!: streamConn_Read_keeps)

subsection \<open>Properties\<close>

lemma Addr_String_total: "addr_wf a \<Longrightarrow> \<exists>s. Addr_String a = ret s"
  by (cases a rule: addr_wf_cases) (auto simp: String_forms)

text \<open>What the handler has done up to the relay: nothing was written, and an address it dials is the text of a complete one.\<close>

definition met :: "bool list \<Rightarrow> (string \<Rightarrow> goerr + conn) \<Rightarrow> 'l Server \<Rightarrow> conn \<Rightarrow> (conn timedConn shadow_conn, conn) handled \<Rightarrow> 'l Server \<Rightarrow> bool" where
  "met fires dial srv c h srv' =
     (case h of
        Drained sc err \<Rightarrow> quiet fires c (shadow_base sc) \<and> conn_content (net_conn (shadow_base sc)) = [] \<and>
          err = (if c_fin c = EOF then None else Some (c_fin c)) \<and> srv' = srv
      | NoConnection e sc \<Rightarrow> quiet fires c (shadow_base sc) \<and> (\<exists>a host. addr_wf a \<and> Addr_String a = ret host \<and> dial host = Inl e) \<and> srv' = srv
      | Relays sc d \<Rightarrow> quiet fires c (shadow_base sc) \<and> (\<exists>a host. addr_wf a \<and> Addr_String a = ret host \<and> dial host = Inr d) \<and> srv' = count_request srv
      | _ \<Rightarrow> False)"

lemma quiet_corked: "quiet fires c (corked_conn fires c)"
  by (auto simp: quiet_def only_refl)

lemma quiet_fin: "quiet fires c w \<Longrightarrow> c_fin (net_conn w) = c_fin c"
  by (auto simp: quiet_def set_net_corked dest: only_read_fields)

lemma quiet_wf: "quiet fires c w \<Longrightarrow> ck_wf (\<lambda>_. True) (tc_conn w)"
  by (auto simp: quiet_def corked_conn_def timedCork_wf)

lemma server_meets:
  assumes "crypto_ok cr" "\<And>a. ciph = aeadCipher a \<Longrightarrow> cipher_made cr a" "sf_ok bl en (wd_salts g)"
  shows "\<exists>h srv' g'. server_meet cr bl en conn_Read fires dial ciph srv c g = ret (h, srv', g') \<and> met fires dial srv c h srv' \<and>
    sf_ok bl en (wd_salts g') \<and> (\<forall>sc d. h = Relays sc d \<longrightarrow> left_ok cr bl en sc g' \<and> reader_ok sc)"
proof -
  let ?sc = "StreamConn ciph (corked_conn fires c)" and ?W = "corked_conn fires c"
  have t: "any_session.shadow_total c ?W cr bl en (?sc, g)"
    using assms(2,3) quiet_corked quiet_framed
    by (cases ciph) (simp_all add: any_session.shadow_total_def any_session.session_total_def StreamConn_def NewConn_def)
  from total_reader.ReadAddr_total [OF any_session.shadow_reader [OF assms(1)], of c ?W bl en, OF t] obtain res err sc g' where
    r: "ReadAddr (shadow_Read cr bl en (timed_Read conn_Read)) (?sc, g) = ret ((res, err), (sc, g'))"
    and t': "any_session.shadow_total c ?W cr bl en (sc, g')" and a: "err = None \<longrightarrow> (\<exists>a. res = Some a \<and> addr_wf a)"
    by auto
  have "not_sent ?sc" by (cases ciph) (simp_all add: not_sent_def StreamConn_def NewConn_def)
  then have ns: "not_sent sc"
    using ReadAddr_inv [where I = "\<lambda>lg. not_sent (fst lg)", OF shadow_Read_not_sent _ r] by simp
  have f: "tcp_framed.framed c ?W (shadow_base sc)" and sf: "sf_ok bl en (wd_salts g')" using any_session.shadow_good [OF t'] by simp_all
  then have q: "quiet fires c (shadow_base sc)" by (simp add: quiet_framed)
  have ok: "left_ok cr bl en sc g'" "reader_ok sc"
    using t' ns quiet_wf [OF q]
    by (cases sc; auto simp: left_ok_def reader_ok_def not_sent_def any_session.shadow_total_def any_session.session_total_def any_out.src.total.sr_total_def)+
  show ?thesis
  proof (cases err)
    case (Some e)
    from tcp_framed.timed.discard_all [OF f] quiet_fin [OF q] Some r sf show ?thesis
      by (auto simp: server_meet_def met_def shadow_base_def [of "Bare _"] quiet_framed)
  next
    case None
    with a obtain x where x: "res = Some x" "addr_wf x" by blast
    from Addr_String_total [OF x(2)] obtain host where host: "Addr_String x = ret host" by blast
    from None r x host q ok sf show ?thesis
      by (cases "dial host") (auto simp: server_meet_def met_def)
  qed
qed

lemma server_handler_any:
  assumes "crypto_ok cr" "\<And>a. ciph = aeadCipher a \<Longrightarrow> cipher_made cr a" "sf_ok bl en (wd_salts g)"
  shows "\<exists>h srv' g'. server_handler cr bl en buffer_Read conn_Read conn_Write late go_first fires dial ciph srv c g = ret (h, srv', g') \<and>
    (case h of
       Relayed err sc d \<Rightarrow> \<exists>sc0 d0 g0. met fires dial srv c (Relays sc0 d0) srv' \<and>
         relay cr bl en buffer_Read conn_Read conn_Write late go_first srv' sc0 g0 d0 = ret (err, sc, g', d)
     | _ \<Rightarrow> met fires dial srv c h srv') \<and> sf_ok bl en (wd_salts g')"
proof -
  have "\<exists>h srv' g'. server_meet cr bl en conn_Read fires dial ciph srv c g = ret (h, srv', g') \<and> met fires dial srv c h srv' \<and>
      sf_ok bl en (wd_salts g') \<and> (\<forall>sc d. h = Relays sc d \<longrightarrow> left_ok cr bl en sc g' \<and> reader_ok sc)"
    using assms by (rule server_meets)
  then obtain h srv' g' where
    m: "server_meet cr bl en conn_Read fires dial ciph srv c g = ret (h, srv', g')" "met fires dial srv c h srv'" "sf_ok bl en (wd_salts g')"
    "\<forall>sc d. h = Relays sc d \<longrightarrow> left_ok cr bl en sc g' \<and> reader_ok sc" by (elim exE conjE) (rule that)
  show ?thesis
  proof (cases h)
    case (Relays sc d)
    with m(4) relay_returns [OF assms(1), where late = late and go_first = go_first and srv = srv' and d = d] obtain err l' g2 d' where
      "relay cr bl en buffer_Read conn_Read conn_Write late go_first srv' sc g' d = ret (err, l', g2, d')" "left_ok cr bl en l' g2" by blast
    with Relays m(1,2) show ?thesis by (auto simp: server_handler_def left_ok_def)
  qed (use m in \<open>auto simp: server_handler_def met_def\<close>)
qed

text \<open>
  C3: The remote side under probing.  Whatever bytes a peer sends, in whatever segments, and whatever the target does, the handler of
  a connection returns without a panic.  Until it relays it has written nothing: no byte, and nothing that the timer of the corked
  connection could flush later.  If it does not find the encrypted address of a target it has read the connection to its end before
  it gives it up; and it connects only to the text of a complete address.  The salt store, which the handlers share, is intact
  afterwards.
\<close>

theorem server_handler_silent:
  assumes "crypto_ok cr" "\<And>a. ciph = aeadCipher a \<Longrightarrow> cipher_made cr a" "sf_ok bl en (wd_salts g)"
  shows "\<exists>h srv' g'. server_handler cr bl en buffer_Read conn_Read conn_Write late go_first fires dial ciph srv c g = ret (h, srv', g') \<and>
    (case h of
       Relayed err sc d \<Rightarrow> \<exists>sc0 d0 g0. met fires dial srv c (Relays sc0 d0) srv' \<and>
         relay cr bl en buffer_Read conn_Read conn_Write late go_first srv' sc0 g0 d0 = ret (err, sc, g', d)
     | _ \<Rightarrow> met fires dial srv c h srv') \<and> sf_ok bl en (wd_salts g')"
  using assms by (rule server_handler_any)

theorem server_handler_silent_witness:
  "\<exists>h srv' g'. server_handler sample_crypto sample_bloom sample_env buffer_Read conn_Read conn_Write (\<lambda>_ c. c) False [True] (\<lambda>_. Inl EOF)
      (aeadCipher sample_cipher) (NewServer zero_Conf [] [] :: unit Server) (sample_conn [[22, 3, 1], [2, 0]]) sample_world = ret (h, srv', g') \<and>
    (case h of Relayed err sc d \<Rightarrow> False | _ \<Rightarrow> met [True] (\<lambda>_. Inl EOF) (NewServer zero_Conf [] []) (sample_conn [[22, 3, 1], [2, 0]]) h srv')"
proof -
  have "sf_ok sample_bloom sample_env (wd_salts sample_world)" by (simp add: sample_world_def sample_sf_ok)
  from server_handler_silent [OF sample_crypto_ok _ this, of "aeadCipher sample_cipher" "\<lambda>_ c. c" False "[True]" "\<lambda>_. Inl EOF"
      "NewServer zero_Conf [] []" "sample_conn [[22, 3, 1], [2, 0]]"] sample_cipher_made
  show ?thesis by (fastforce simp: met_def split: handled.splits)
qed

end
