(* ===== verification/Server_Client.thy ===== *)
theory Server_Client
  imports Server_Probe
begin

text \<open>
  What the local side does with a client it cannot trust: \<^verbatim>\<open>HandShake\<close> and the whole handler of \<^verbatim>\<open>ServeLocal\<close> return on every input, and the remote
  side is called for CONNECT requests only.
\<close>

context total_reader
begin

lemma HandShake_total:
  assumes "\<And>c b. good c \<Longrightarrow> \<exists>n e c'. wr c b = ret (n, e, c') \<and> good c'" "good c"
  shows "\<exists>res err c'. HandShake rd wr udp local c = ret ((res, err), c') \<and> good c' \<and> (err = None \<longrightarrow> (\<exists>a. res = Some a \<and> addr_wf a))"
proof -
  let ?b = "replicate MaxAddrLen 0"
  from ReadFull_at_total [OF assms(2), of 0 2 ?b] obtain e1 b1 c1 where
    r1: "ReadFull_at rd c ?b 0 2 = ret (e1, b1, c1)" "good c1" "length b1 = 259" by (auto simp: MaxAddrLen_def)
  have i1: "go_index b1 1 = ret (b1 ! 1)" using r1(3) by (simp add: go_index_def)
  have n: "0 \<le> uint (b1 ! 1)" "uint (b1 ! 1) \<le> 259" using unsigned_less [of "b1 ! 1", where ?'a = int] by simp_all
  from ReadFull_at_total [OF r1(2), of 0 "uint (b1 ! 1)" b1] r1(3) n obtain e2 b2 c2 where
    r2: "ReadFull_at rd c1 b1 0 (uint (b1 ! 1)) = ret (e2, b2, c2)" "good c2" "length b2 = 259" by auto
  from assms(1) [OF r2(2), of "[5, 0]"] obtain k3 e3 c3 where r3: "wr c2 [5, 0] = ret (k3, e3, c3)" "good c3" by blast
  from ReadFull_at_total [OF r3(2), of 0 3 b2] r2(3) obtain e4 b4 c4 where
    r4: "ReadFull_at rd c3 b2 0 3 = ret (e4, b4, c4)" "good c4" "length b4 = 259" by auto
  have i4: "go_index b4 1 = ret (b4 ! 1)" using r4(3) by (simp add: go_index_def)
  from readAddr_total [OF r4(2), of b4] r4(3) obtain res e5 b5 c5 where
    r5: "readAddr rd c4 b4 = ret ((res, e5), b5, c5)" "good c5" "e5 = None \<longrightarrow> (\<exists>a. res = Some a \<and> addr_wf a)"
    by (auto simp: MaxAddrLen_def)
  consider "e1 \<noteq> None" | "e1 = None" "e2 \<noteq> None" | "e1 = None" "e2 = None" "e3 \<noteq> None" | "e1 = None" "e2 = None" "e3 = None" "e4 \<noteq> None"
    | "e1 = None" "e2 = None" "e3 = None" "e4 = None" by blast
  then show ?thesis
  proof cases
    case 5
    note start = 5 r1(1) i1 r2(1) r3(1) r4(1) i4 r5
    from assms(1) [OF r5(2), of "[5, 0, 0, 1, 0, 0, 0, 0, 0, 0]"] obtain k6 e6 c6 where
      w6: "wr c5 [5, 0, 0, 1, 0, 0, 0, 0, 0, 0] = ret (k6, e6, c6)" "good c6" by blast
    from assms(1) [OF r5(2), of "[5, 0, 0] @ (case ParseAddr local of Some a \<Rightarrow> a | None \<Rightarrow> [])"] obtain k7 e7 c7 where
      w7: "wr c5 ([5, 0, 0] @ (case ParseAddr local of Some a \<Rightarrow> a | None \<Rightarrow> [])) = ret (k7, e7, c7)" "good c7" by blast
    show ?thesis
    proof (cases e5)
      case (Some x)
      with start show ?thesis by (simp add: HandShake_def)
    next
      case None
      with start w6 w7 show ?thesis
        by (cases "b4 ! 1 = CmdConnect"; cases "b4 ! 1 = CmdUDP \<and> udp"; cases e7) (auto simp: HandShake_def)
    qed
  qed (use r1 i1 r2 r3 r4 in \<open>auto simp: HandShake_def\<close>)
qed

end

text \<open>The client began with a method list and a CONNECT request for a complete address.\<close>

definition asks_connect :: "bytes \<Rightarrow> bool" where
  "asks_connect bs \<longleftrightarrow> (\<exists>v n methods v' rsv a rest. bs = [v, n] @ methods @ [v', CmdConnect, rsv] @ a @ rest \<and> length methods = unat n \<and> addr_wf a)"

text \<open>What the handler of a client has done when it is over.\<close>

definition served :: "(goerr + conn) \<Rightarrow> conn \<Rightarrow> (conn, conn timedConn shadow_conn) handled \<Rightarrow> bool" where
  "served remote c h =
     (case h of
        Drained c' err \<Rightarrow> conn_content c' = [] \<and> err = (if c_fin c = EOF then None else Some (c_fin c))
      | Relays _ _ \<Rightarrow> False
      | _ \<Rightarrow> asks_connect (conn_content c) \<and> (case h of NoConnection e _ \<Rightarrow> remote = Inl e | _ \<Rightarrow> \<exists>up. remote = Inr up))"

interpretation kept_fin: total_reader conn_Read "\<lambda>c. c_fin c = f" "\<lambda>c. conn_left c + length (conn_content c)" for f
proof
  fix c :: conn and p :: bytes
  assume "c_fin c = f" "p \<noteq> []"
  from tcp.total.total_read [where s = c, OF TrueI this(2)] obtain k p' e c' where
    r: "conn_Read c p = ret (int k, p', e, c')" "read_total (\<lambda>c. conn_left c + length (conn_content c)) c p k p' e c'"
    by blast
  have "c_fin c' = f" using only_read_fields [OF conn_Read_frame [OF r(1)]] \<open>c_fin c = f\<close> by simp
  with r show "\<exists>k p' e s'. conn_Read c p = ret (int k, p', e, s') \<and> c_fin s' = f \<and>
      read_total (\<lambda>c. conn_left c + length (conn_content c)) c p k p' e s'"
    by blast
qed

lemma HandShake_any:
  "\<exists>res err c'. HandShake conn_Read conn_Write udp addr c = ret ((res, err), c') \<and> c_fin c' = c_fin c \<and> (err = None \<longrightarrow> (\<exists>a. res = Some a \<and> addr_wf a))"
proof (rule kept_fin.HandShake_total [OF _ refl])
  fix d :: conn and b :: bytes
  assume "c_fin d = c_fin c"
  then show "\<exists>n e c'. conn_Write d b = ret (n, e, c') \<and> c_fin c' = c_fin c"
    by (auto simp: conn_Write_def split: option.split)
qed

lemma corked_ok:
  assumes "\<And>a. ciph = aeadCipher a \<Longrightarrow> cipher_made cr a" "sf_ok bl en (wd_salts g)"
  shows "left_ok cr bl en (StreamConn ciph (corked_conn fires c)) g" "reader_ok (StreamConn ciph (corked_conn fires c))"
  using assms timedCork_wf [where c = c and usable = "\<lambda>_. True"]
  by (cases ciph; simp add: left_ok_def reader_ok_def shadow_base_def StreamConn_def NewConn_def corked_conn_def)+

lemma local_handler_any:
  assumes "crypto_ok cr" "\<And>a. ciph = aeadCipher a \<Longrightarrow> cipher_made cr a" "sf_ok bl en (wd_salts g)"
  shows "\<exists>h g'. local_handler cr bl en buffer_Read conn_Read conn_Write late go_first fires udp addr dial ciph srv c g = ret (h, g') \<and>
    served (dial (cf_RemoteServer (cf_Server (srv_Config srv)))) c h \<and> sf_ok bl en (wd_salts g')"
proof -
  let ?remote = "dial (cf_RemoteServer (cf_Server (srv_Config srv)))"
  from HandShake_any [of udp addr c] obtain res err c1 where
    h: "HandShake conn_Read conn_Write udp addr c = ret ((res, err), c1)" "c_fin c1 = c_fin c" "err = None \<longrightarrow> (\<exists>a. res = Some a \<and> addr_wf a)"
    by blast
  show ?thesis
  proof (cases err)
    case (Some e)
    with h tcp.discard_all [where c = c1, OF TrueI] assms(3) show ?thesis by (auto simp: local_handler_def local_meet_def served_def)
  next
    case None
    with h(3) obtain a where a: "res = Some a" "addr_wf a" by blast
    with tcp_duplex.HandShake_accepts [OF TrueI] h(1) None
    have req: "asks_connect (conn_content c)" unfolding asks_connect_def by blast
    show ?thesis
    proof (cases ?remote)
      case (Inl e)
      with h(1) None a req assms(3) show ?thesis by (simp add: local_handler_def local_meet_def served_def)
    next
      case (Inr up)
      let ?l = "StreamConn ciph (corked_conn fires up)"
      have ok: "left_ok cr bl en ?l g" "reader_ok ?l" using corked_ok [OF assms(2,3)] by blast+
      from shadow_Write_any [OF assms(1) ok(1), of a] obtain n we l g1 where
        w: "shadow_Write cr bl en buffer_Read (timed_Write conn_Write) (?l, g) a = ret (n, we, (l, g1))" "left_ok cr bl en l g1" "reader_ok l"
        using ok(2) by auto
      from relay_returns [OF assms(1) w(2,3), where late = late and go_first = go_first and srv = srv and d = c1] h(1) None a req Inr w(1) show ?thesis
        by (cases we) (use w(2) in \<open>auto simp: local_handler_def local_meet_def served_def left_ok_def Let_def\<close>)
    qed
  qed
qed

text \<open>
  C6: The local side under any client.  Whatever bytes a client sends, in whatever segments, wherever it stops reading, and whatever the
  remote side does, the handler of the client's connection returns without a panic.  It calls the remote side only for a client that
  began with a complete CONNECT request; every other client is read to its end and told nothing more.  The salt store, which the
  handlers share, is intact afterwards.
\<close>

theorem local_handler_total:
  assumes "crypto_ok cr" "\<And>a. ciph = aeadCipher a \<Longrightarrow> cipher_made cr a" "sf_ok bl en (wd_salts g)"
  shows "\<exists>h g'. local_handler cr bl en buffer_Read conn_Read conn_Write late go_first fires udp addr dial ciph srv c g = ret (h, g') \<and>
    served (dial (cf_RemoteServer (cf_Server (srv_Config srv)))) c h \<and> sf_ok bl en (wd_salts g')"
  using assms by (rule local_handler_any)

theorem local_handler_total_witness:
  "\<exists>h g'. local_handler sample_crypto sample_bloom sample_env buffer_Read conn_Read conn_Write (\<lambda>_ c. c) False [True] False '''' (\<lambda>_. Inl EOF)
      (aeadCipher sample_cipher) (NewServer zero_Conf [] [] :: unit Server) (sample_conn [[5, 1, 0], [5, 2, 0, 1, 127]]) sample_world = ret (h, g') \<and>
    served (Inl EOF) (sample_conn [[5, 1, 0], [5, 2, 0, 1, 127]]) h"
proof -
  have "sf_ok sample_bloom sample_env (wd_salts sample_world)" by (simp add: sample_world_def sample_sf_ok)
  from local_handler_total [where dial = "\<lambda>_. Inl EOF" and srv = "NewServer zero_Conf [] [] :: unit Server", OF sample_crypto_ok _ this, of "aeadCipher sample_cipher" "\<lambda>_ c. c" False "[True]" False "''''"
      "sample_conn [[5, 1, 0], [5, 2, 0, 1, 127]]"] sample_cipher_made
  show ?thesis by auto
qed

end
