(* ===== verification/Server_Main.thy ===== *)
theory Server_Main
  imports Server_Client
begin

text \<open>
  \<^verbatim>\<open>proxy.go\<close>, \<^verbatim>\<open>Start\<close> of \<^verbatim>\<open>m_server/server.go\<close>, \<^verbatim>\<open>m_util/exit.go\<close> and \<^verbatim>\<open>m_debug/debug.go\<close>: the whole program, from its command line to
  the goroutines it starts.
\<close>

subsection \<open>What the program runs on\<close>

text \<open>
  The packages and the operating system: cryptography, Bloom filters, environment variables, \<^verbatim>\<open>unicode.ToUpper\<close>, the random source, reading, writing,
  deadlines, dialling and listening, and the text of a connection's own address.
\<close>

record ('f, 'g, 'c) runtime =
  rt_crypto :: crypto
  rt_bloom :: "'f bloom"
  rt_env :: env
  rt_upper :: "string \<Rightarrow> string"
  rt_rnd :: "'g reader_fn"
  rt_rd :: "'c reader_fn"
  rt_wr :: "'c writer_fn"
  rt_late :: "duration \<Rightarrow> 'c \<Rightarrow> 'c"
  rt_dial :: "string \<Rightarrow> goerr + 'c"
  rt_listen :: "string \<Rightarrow> goerr + 'c accept_result list"
  rt_LocalAddr :: "'c \<Rightarrow> string"

text \<open>A started goroutine: the order of the copies of its relay and the firings of its timer are decided while it runs.\<close>

type_synonym ('f, 'g, 'r) task = "bool \<Rightarrow> bool list \<Rightarrow> ('f, 'g) world \<Rightarrow> ('r \<times> ('f, 'g) world) go"

type_synonym ('f, 'g, 'c) local_task = "('f, 'g, ('c, 'c timedConn shadow_conn) handled) task"
type_synonym ('f, 'g, 'c, 'l) remote_task = "('f, 'g, ('c timedConn shadow_conn, 'c) handled \<times> 'l Server) task"

subsection \<open>Starting\<close>

definition UDPEnabled :: bool where "UDPEnabled = False"

definition handle_local :: "('f, 'g, 'c) runtime \<Rightarrow> Cipher \<Rightarrow> 'l Server \<Rightarrow> 'c \<Rightarrow> ('f, 'g, 'c) local_task" where
  "handle_local rt ciph s c = (\<lambda>go_first fires g.
     local_handler (rt_crypto rt) (rt_bloom rt) (rt_env rt) (rt_rnd rt) (rt_rd rt) (rt_wr rt) (rt_late rt) go_first fires
       UDPEnabled (rt_LocalAddr rt c) (rt_dial rt) ciph s c g)"

definition handle_server :: "('f, 'g, 'c) runtime \<Rightarrow> Cipher \<Rightarrow> 'l Server \<Rightarrow> 'c \<Rightarrow> ('f, 'g, 'c, 'l) remote_task" where
  "handle_server rt ciph s c = (\<lambda>go_first fires g.
     gobind (server_handler (rt_crypto rt) (rt_bloom rt) (rt_env rt) (rt_rnd rt) (rt_rd rt) (rt_wr rt) (rt_late rt) go_first fires
       (rt_dial rt) ciph s c g) (\<lambda>(h, s, g). ret ((h, s), g)))"

text \<open>The method value \<^verbatim>\<open>s.Cipher.StreamConn\<close> panics on a nil cipher.\<close>

definition ServeSocksLocal :: "('f, 'g, 'c) runtime \<Rightarrow> 'l Server \<Rightarrow> (goerr option \<times> (('f, 'g, 'c) local_task, 'l) accept_loop) go" where
  "ServeSocksLocal rt s =
     (case srv_Cipher s of None \<Rightarrow> throw NilDeref | Some ciph \<Rightarrow> ret (ServeLocal (rt_listen rt) (handle_local rt ciph s) s))"

definition ServeSocksServer :: "('f, 'g, 'c) runtime \<Rightarrow> 'l Server \<Rightarrow> (goerr option \<times> (('f, 'g, 'c, 'l) remote_task, 'l) accept_loop) go" where
  "ServeSocksServer rt s =
     (case srv_Cipher s of None \<Rightarrow> throw NilDeref | Some ciph \<Rightarrow> ret (ServeServer (rt_listen rt) (handle_server rt ciph s) s))"

text \<open>
  \<^verbatim>\<open>Start\<close> waits for the goroutine that serves; beside its error the model returns the accept loop as it is then.  No error stands for a
  loop that still waits for its next connection; when listening fails, the loop has started nothing and the error is that of \<^verbatim>\<open>net.Listen\<close>.
\<close>

datatype ('f, 'g, 'c, 'l) serving =
    NotServing
  | ServesLocal "(('f, 'g, 'c) local_task, 'l) accept_loop"
  | ServesRemote "(('f, 'g, 'c, 'l) remote_task, 'l) accept_loop"

definition Start :: "('f, 'g, 'c) runtime \<Rightarrow> Conf \<Rightarrow> string \<Rightarrow> string \<Rightarrow> (goerr option \<times> ('f, 'g, 'c, 'l) serving) go" where
  "Start rt cfg version confRoot =
     (let s = NewServer cfg confRoot version in
      gobind (PickCipher (rt_crypto rt) (rt_upper rt) (cf_Cipher (cf_Server (srv_Config s))) [] ''password'') (\<lambda>ciph.
      case ciph of
        Inl err \<Rightarrow> ret (Some err, NotServing)
      | Inr ciph \<Rightarrow>
          let s = s\<lparr>srv_Cipher := Some ciph\<rparr> in
          if cf_Local (cf_Server (srv_Config s))
          then gobind (ServeSocksLocal rt s) (\<lambda>(err, l). ret (err, ServesLocal l))
          else gobind (ServeSocksServer rt s) (\<lambda>(err, l). ret (err, ServesRemote l))))"

subsection \<open>The main program\<close>

text \<open>The options of the command line after \<^verbatim>\<open>flag.Parse\<close>, which ends the program itself when it cannot read them; the debug switches, and how the program ends: it printed something, it exited, or it ran the server.\<close>

record flags =
  fl_help :: bool
  fl_confRoot :: string
  fl_logPath :: string
  fl_stdOut :: bool
  fl_showVersion :: bool
  fl_showVerbose :: bool
  fl_debugLog :: bool

record debug =
  DebugIsOpen :: bool
  DebugHealthCheck :: bool

definition debug_init :: debug where "debug_init = \<lparr>DebugIsOpen = False, DebugHealthCheck = False\<rparr>"

datatype ('f, 'g, 'c, 'l) main_end =
    PrintedHelp | PrintedVersion | Exit int | Fatal goerr | Served "goerr option" "('f, 'g, 'c, 'l) serving"

definition AbnormalExit :: "('f, 'g, 'c, 'l) main_end" where "AbnormalExit = Exit 1"

definition version :: string where "version = ''0.1''"

text \<open>
  \<open>log_Init\<close>, \<open>path_Join\<close> and \<open>ReadFileInto\<close> are the functions of the logging, path and configuration packages.
\<close>

definition main :: "('f, 'g, 'c) runtime \<Rightarrow> (string \<Rightarrow> string \<Rightarrow> bool \<Rightarrow> goerr option) \<Rightarrow> (string \<Rightarrow> string \<Rightarrow> string) \<Rightarrow>
    (Conf \<Rightarrow> string \<Rightarrow> goerr option \<times> Conf) \<Rightarrow> flags \<Rightarrow> (('f, 'g, 'c, 'l) main_end \<times> debug) go" where
  "main rt log_Init path_Join ReadFileInto fl =
     (if fl_help fl then ret (PrintedHelp, debug_init)
      else if fl_showVerbose fl then ret (PrintedVersion, debug_init)
      else
        let logSwitch = (if fl_debugLog fl then ''DEBUG'' else ''INFO'');
            dbg = debug_init\<lparr>DebugIsOpen := fl_debugLog fl\<rparr> in
        case log_Init logSwitch (fl_logPath fl) (fl_stdOut fl) of
          Some e \<Rightarrow> ret (AbnormalExit, dbg)
        | None \<Rightarrow>
            (case ConfigLoad ReadFileInto (path_Join (fl_confRoot fl) ''proxy.conf'') (fl_confRoot fl) SetDefaultConfig of
               Inl e \<Rightarrow> ret (Fatal e, dbg)
             | Inr (config, Some e) \<Rightarrow> ret (AbnormalExit, dbg)
             | Inr (config, None) \<Rightarrow> gobind (Start rt config version (fl_confRoot fl)) (\<lambda>(err, sv). ret (Served err sv, dbg))))"

subsection \<open>What is served\<close>

text \<open>
  What \<^verbatim>\<open>Start\<close> gives the serving goroutine: the cipher of the configured name, of its algorithm (\<open>named_cipher\<close>) and with the key of the literal
  password, and the server with it.
\<close>

definition key_of :: "crypto \<Rightarrow> string \<Rightarrow> Cipher \<Rightarrow> bool" where
  "key_of cr N ciph = (case ciph of dummy \<Rightarrow> N = ''DUMMY'' | aeadCipher a \<Rightarrow> N \<noteq> ''DUMMY'' \<and> named_cipher cr N a \<and> kdf cr ''password'' (int (key_size N)) = ret (mc_psk a))"

definition start_server :: "Conf \<Rightarrow> string \<Rightarrow> string \<Rightarrow> Cipher \<Rightarrow> 'l Server" where
  "start_server cfg v r ciph = (NewServer cfg r v)\<lparr>srv_Cipher := Some ciph\<rparr>"

lemma Start_known:
  fixes cfg rt
  assumes "crypto_ok (rt_crypto rt)"
  defines "N \<equiv> ToUpper (rt_upper rt) (cf_Cipher (cf_Server cfg))"
  assumes "N \<in> cipher_names"
  shows "\<exists>ciph. key_of (rt_crypto rt) N ciph \<and> Start rt cfg v r =
    (let s = start_server cfg v r ciph in
     if cf_Local (cf_Server cfg)
     then case ServeLocal (rt_listen rt) (handle_local rt ciph s) s of (e, l) \<Rightarrow> ret (e, ServesLocal l)
     else case ServeServer (rt_listen rt) (handle_server rt ciph s) s of (e, l) \<Rightarrow> ret (e, ServesRemote l))"
proof -
  have "\<exists>ciph. key_of (rt_crypto rt) N ciph \<and> PickCipher (rt_crypto rt) (rt_upper rt) (cf_Cipher (cf_Server cfg)) [] ''password'' = ret (Inr ciph)"
    using PickCipher_derived [OF assms(1), of "rt_upper rt" "cf_Cipher (cf_Server cfg)" "''password''"] assms(3)
      PickCipher_dummy [of "rt_upper rt" "cf_Cipher (cf_Server cfg)" "rt_crypto rt" "[]" "''password''"]
    unfolding N_def by (cases "ToUpper (rt_upper rt) (cf_Cipher (cf_Server cfg)) = ''DUMMY''") (auto simp: key_of_def)
  then obtain ciph where c: "key_of (rt_crypto rt) N ciph" "PickCipher (rt_crypto rt) (rt_upper rt) (cf_Cipher (cf_Server cfg)) [] ''password'' = ret (Inr ciph)"
    by blast
  then show ?thesis
    by (intro exI [of _ ciph]) (auto simp: Start_def NewServer_fields ServeSocksLocal_def ServeSocksServer_def start_server_def Let_def split: prod.split)
qed

lemma Start_unknown:
  "ToUpper (rt_upper rt) (cf_Cipher (cf_Server cfg)) \<notin> cipher_names \<Longrightarrow> Start rt cfg v r = ret (Some ErrCipherNotSupported, NotServing)"
  by (simp add: Start_def NewServer_fields PickCipher_unknown)

lemma main_runs:
  assumes "\<not> fl_help fl" "\<not> fl_showVerbose fl" "log_Init (if fl_debugLog fl then ''DEBUG'' else ''INFO'') (fl_logPath fl) (fl_stdOut fl) = None"
    and "ReadFileInto (SetDefaultConfig zero_Conf) (path_Join (fl_confRoot fl) ''proxy.conf'') = (None, cfg)"
  shows "main rt log_Init path_Join ReadFileInto fl =
    gobind (Start rt cfg version (fl_confRoot fl)) (\<lambda>(err, sv). ret (Served err sv, \<lparr>DebugIsOpen = fl_debugLog fl, DebugHealthCheck = False\<rparr>))"
  using assms by (simp add: main_def ConfigLoad_def debug_init_def Let_def)

lemma main_served:
  assumes "main rt log_Init path_Join ReadFileInto fl = ret (Served e sv, dbg)"
  shows "\<exists>cfg. Start rt cfg version (fl_confRoot fl) = ret (e, sv)"
  using assms by (auto simp: main_def AbnormalExit_def gobind_eq_ret Let_def split: if_splits option.splits sum.splits prod.splits)

lemma ServeLocal_started:
  "\<exists>cs. al_started (snd (ServeLocal listen handle srv)) = map handle cs"
proof (cases "listen (srv_Addr srv)")
  case (Inr rs)
  then show ?thesis using accept_local_run [of "new_loop srv" 0 handle rs]
    by (cases "accept_all (accept_local handle) (new_loop srv) rs") (auto simp: ServeLocal_def new_loop_def next_delay_def)
qed (simp add: ServeLocal_def new_loop_def)

lemma ServeServer_started:
  "\<exists>cs. al_started (snd (ServeServer listen handle srv)) = map handle cs"
  using accept_server_run [of handle "new_loop srv"] by (cases "listen (srv_Addr srv)") (auto simp: ServeServer_def new_loop_def)

lemma start_server_fields:
  "srv_Addr (start_server cfg v r ciph) = CHR '':'' # int_text (cf_Port (cf_Server cfg))" "srv_Config (start_server cfg v r ciph) = cfg"
  "srv_Cipher (start_server cfg v r ciph) = Some ciph" "srv_ReadTimeout (start_server cfg v r ciph) = seconds (cf_ClientReadTimeout (cf_Server cfg))"
  by (simp_all add: start_server_def NewServer_def InitConfig_def zero_Server_def seconds_def Let_def)

subsection \<open>Running the goroutines\<close>

text \<open>Goroutines one after the other, on the state they share.\<close>

fun run_tasks :: "('w \<Rightarrow> ('r \<times> 'w) go) list \<Rightarrow> 'w \<Rightarrow> ('r list \<times> 'w) go" where
  "run_tasks [] g = ret ([], g)"
| "run_tasks (t # ts) g = gobind (t g) (\<lambda>(r, g). gobind (run_tasks ts g) (\<lambda>(rs, g). ret (r # rs, g)))"

lemma run_tasks_ok:
  assumes "\<And>t g. t \<in> set ts \<Longrightarrow> I g \<Longrightarrow> \<exists>r g'. t g = ret (r, g') \<and> I g'" "I g"
  shows "\<exists>rs g'. run_tasks ts g = ret (rs, g') \<and> length rs = length ts \<and> I g'"
  using assms
proof (induction ts arbitrary: g)
  case (Cons t ts)
  from Cons.prems(1) [of t g] Cons.prems(2) obtain r g1 where t: "t g = ret (r, g1)" "I g1" by auto
  from Cons.IH [OF _ t(2)] Cons.prems(1) obtain rs g2 where "run_tasks ts g1 = ret (rs, g2)" "length rs = length ts" "I g2" by auto
  with t(1) show ?case by simp
qed simp

text \<open>The connections are TCP connections and the random source a supply of bytes.\<close>

definition over_tcp :: "('f, bytes, conn) runtime \<Rightarrow> bool" where
  "over_tcp rt \<longleftrightarrow> rt_rnd rt = buffer_Read \<and> rt_rd rt = conn_Read \<and> rt_wr rt = conn_Write"

lemma handle_local_ok:
  assumes "over_tcp rt" "crypto_ok (rt_crypto rt)" "key_of (rt_crypto rt) N ciph" "sf_ok (rt_bloom rt) (rt_env rt) (wd_salts g)"
  shows "\<exists>h g'. handle_local rt ciph s c go_first fires g = ret (h, g') \<and> sf_ok (rt_bloom rt) (rt_env rt) (wd_salts g')"
proof -
  have "\<And>a. ciph = aeadCipher a \<Longrightarrow> cipher_made (rt_crypto rt) a" using assms(3) by (simp add: key_of_def named_cipher_def)
  from local_handler_any [where ciph = ciph, OF assms(2) this assms(4), where late = "rt_late rt" and dial = "rt_dial rt" and srv = s and c = c
      and go_first = go_first and fires = fires and udp = UDPEnabled and addr = "rt_LocalAddr rt c"] assms(1)
  show ?thesis by (auto simp: handle_local_def over_tcp_def)
qed

lemma handle_server_ok:
  assumes "over_tcp rt" "crypto_ok (rt_crypto rt)" "key_of (rt_crypto rt) N ciph" "sf_ok (rt_bloom rt) (rt_env rt) (wd_salts g)"
  shows "\<exists>h g'. handle_server rt ciph s c go_first fires g = ret (h, g') \<and> sf_ok (rt_bloom rt) (rt_env rt) (wd_salts g')"
proof -
  have "\<And>a. ciph = aeadCipher a \<Longrightarrow> cipher_made (rt_crypto rt) a" using assms(3) by (simp add: key_of_def named_cipher_def)
  from server_handler_any [where ciph = ciph, OF assms(2) this assms(4), where late = "rt_late rt" and dial = "rt_dial rt" and srv = s and c = c
      and go_first = go_first and fires = fires] assms(1)
  show ?thesis by (fastforce simp: handle_server_def over_tcp_def)
qed

text \<open>Any of the goroutines, any number of times, with any decisions of the runtime.\<close>

definition all_return :: "'f bloom \<Rightarrow> env \<Rightarrow> ('f, 'g, 'r) task list \<Rightarrow> ('f, 'g) world \<Rightarrow> bool" where
  "all_return bl en started g \<longleftrightarrow> (\<forall>xs. fst ` set xs \<subseteq> set started \<longrightarrow>
     (\<exists>rs g'. run_tasks (map (\<lambda>(t, go_first, fires). t go_first fires) xs) g = ret (rs, g') \<and> length rs = length xs \<and> sf_ok bl en (wd_salts g')))"

lemma all_returnI:
  assumes "\<And>t go_first fires g. t \<in> set started \<Longrightarrow> sf_ok bl en (wd_salts g) \<Longrightarrow> \<exists>r g'. t go_first fires g = ret (r, g') \<and> sf_ok bl en (wd_salts g')"
    and "sf_ok bl en (wd_salts g)"
  shows "all_return bl en started g"
  unfolding all_return_def
proof (intro allI impI)
  fix xs :: "(('a, 'b, 'c) task \<times> bool \<times> bool list) list" assume "fst ` set xs \<subseteq> set started"
  then have ok: "\<exists>r g'. t g = ret (r, g') \<and> sf_ok bl en (wd_salts g')"
    if "t \<in> set (map (\<lambda>(t, go_first, fires). t go_first fires) xs)" "sf_ok bl en (wd_salts g)" for t g
    using that assms(1) by force
  from run_tasks_ok [where ts = "map (\<lambda>(t, go_first, fires). t go_first fires) xs" and g = g and I = "\<lambda>g. sf_ok bl en (wd_salts g)"] ok assms(2)
  show "\<exists>rs g'. run_tasks (map (\<lambda>(t, go_first, fires). t go_first fires) xs) g = ret (rs, g') \<and> length rs = length xs \<and> sf_ok bl en (wd_salts g')"
    by simp
qed

subsection \<open>Properties\<close>

lemma Start_tasks:
  fixes sv :: "('f, bytes, conn, 'l) serving"
  assumes "over_tcp rt" "crypto_ok (rt_crypto rt)" "Start rt cfg v r = ret (e, sv)" "sf_ok (rt_bloom rt) (rt_env rt) (wd_salts g)"
  shows "case sv of NotServing \<Rightarrow> e = Some ErrCipherNotSupported
    | ServesLocal l \<Rightarrow> all_return (rt_bloom rt) (rt_env rt) (al_started l) g
    | ServesRemote l \<Rightarrow> all_return (rt_bloom rt) (rt_env rt) (al_started l) g"
proof (cases "ToUpper (rt_upper rt) (cf_Cipher (cf_Server cfg)) \<in> cipher_names")
  case False
  with assms(3) show ?thesis by (simp add: Start_unknown)
next
  case True
  from Start_known [OF assms(2) True, of v r] obtain ciph where
    k: "key_of (rt_crypto rt) (ToUpper (rt_upper rt) (cf_Cipher (cf_Server cfg))) ciph"
    and st: "Start rt cfg v r = (let s :: 'l Server = start_server cfg v r ciph in
     if cf_Local (cf_Server cfg)
     then case ServeLocal (rt_listen rt) (handle_local rt ciph s) s of (e, l) \<Rightarrow> ret (e, ServesLocal l)
     else case ServeServer (rt_listen rt) (handle_server rt ciph s) s of (e, l) \<Rightarrow> ret (e, ServesRemote l))"
    by blast
  let ?s = "start_server cfg v r ciph :: 'l Server"
  have "all_return (rt_bloom rt) (rt_env rt) (map (handle_local rt ciph ?s) cs) g" for cs
    by (rule all_returnI [OF _ assms(4)]) (use handle_local_ok [OF assms(1,2) k] in auto)
  moreover have "all_return (rt_bloom rt) (rt_env rt) (map (handle_server rt ciph ?s) cs) g" for cs
    by (rule all_returnI [OF _ assms(4)]) (use handle_server_ok [OF assms(1,2) k] in auto)
  moreover obtain cs where "al_started (snd (ServeLocal (rt_listen rt) (handle_local rt ciph ?s) ?s)) = map (handle_local rt ciph ?s) cs"
    using ServeLocal_started by blast
  moreover obtain cs' where "al_started (snd (ServeServer (rt_listen rt) (handle_server rt ciph ?s) ?s)) = map (handle_server rt ciph ?s) cs'"
    using ServeServer_started by blast
  ultimately show ?thesis using assms(3) unfolding st by (auto simp: Let_def split: if_splits prod.splits)
qed

lemma main_returns:
  assumes "crypto_ok (rt_crypto rt)"
  shows "\<exists>(r :: ('f, 'g, 'c, 'l) main_end) dbg. main rt log_Init path_Join ReadFileInto fl = ret (r, dbg)"
proof -
  have "\<exists>e (sv :: ('f, 'g, 'c, 'l) serving). Start rt cfg version (fl_confRoot fl) = ret (e, sv)" for cfg
    using Start_known [OF assms, of cfg version "fl_confRoot fl"] Start_unknown [of rt cfg version "fl_confRoot fl"]
    by (cases "ToUpper (rt_upper rt) (cf_Cipher (cf_Server cfg)) \<in> cipher_names") (auto simp: Let_def split: if_splits prod.splits)
  then show ?thesis by (auto simp: main_def Let_def gobind_eq_ret split: option.split sum.split)
qed


definition sample_runtime :: "(bytes list, bytes, conn) runtime" where
  "sample_runtime = \<lparr>rt_crypto = sample_crypto, rt_bloom = sample_bloom, rt_env = sample_env, rt_upper = id, rt_rnd = buffer_Read, rt_rd = conn_Read,
     rt_wr = conn_Write, rt_late = (\<lambda>_ c. c), rt_dial = (\<lambda>_. Inl EOF),
     rt_listen = (\<lambda>_. Inr [Accepted (sample_conn [[5, 1, 0], [5, 1]]), AcceptError EOF False]), rt_LocalAddr = (\<lambda>_. '''')\<rparr>"

definition sample_conf :: Conf where
  "sample_conf = zero_Conf\<lparr>cf_Server := (cf_Server zero_Conf)\<lparr>cf_Local := True, cf_Port := 1080, cf_Cipher := ''aes-128-gcm''\<rparr>\<rparr>"

definition sample_flags :: flags where
  "sample_flags = \<lparr>fl_help = False, fl_confRoot = ''./conf'', fl_logPath = ''./log'', fl_stdOut = False, fl_showVersion = False, fl_showVerbose = False, fl_debugLog = True\<rparr>"

lemma sample_main:
  "\<exists>(l :: ((bytes list, bytes, conn) local_task, unit) accept_loop) ciph. main sample_runtime (\<lambda>_ _ _. None) (@) (\<lambda>_ _. (None, sample_conf)) sample_flags =
     ret (Served (Some EOF) (ServesLocal l), \<lparr>DebugIsOpen = True, DebugHealthCheck = False\<rparr>) \<and>
   al_started l = [handle_local sample_runtime ciph (start_server sample_conf version ''./conf'' ciph :: unit Server) (sample_conn [[5, 1, 0], [5, 1]])]"
proof -
  have n: "ToUpper (rt_upper sample_runtime) (cf_Cipher (cf_Server sample_conf)) \<in> cipher_names"
  proof -
    have "ToUpper id ''aes-128-gcm'' = ''AES-128-GCM''" by code_simp
    then show ?thesis by (simp add: sample_runtime_def sample_conf_def cipher_names_def)
  qed
  have "crypto_ok (rt_crypto sample_runtime)" using sample_crypto_ok by (simp add: sample_runtime_def)
  from Start_known [OF this n, of version "''./conf''"] obtain ciph where
    st: "Start sample_runtime sample_conf version ''./conf'' = (let s :: unit Server = start_server sample_conf version ''./conf'' ciph in
     if cf_Local (cf_Server sample_conf)
     then case ServeLocal (rt_listen sample_runtime) (handle_local sample_runtime ciph s) s of (e, l) \<Rightarrow> ret (e, ServesLocal l)
     else case ServeServer (rt_listen sample_runtime) (handle_server sample_runtime ciph s) s of (e, l) \<Rightarrow> ret (e, ServesRemote l))"
    by blast
  let ?s = "start_server sample_conf version ''./conf'' ciph :: unit Server"
  obtain e l where l: "ServeLocal (rt_listen sample_runtime) (handle_local sample_runtime ciph ?s) ?s = (e, l)" by force
  have "\<not> CheckGracefulShutdown (count_request ?s)"
    by (simp add: CheckGracefulShutdown_def count_request_def start_server_def NewServer_fields)
  with l have "e = Some EOF" "al_started l = [handle_local sample_runtime ciph ?s (sample_conn [[5, 1, 0], [5, 1]])]"
    by (auto simp: ServeLocal_def sample_runtime_def accept_local_def start_handler_def new_loop_def isTimeout_def)
  moreover have "cf_Local (cf_Server sample_conf)" by (simp add: sample_conf_def)
  ultimately show ?thesis using st l
    by (intro exI [of _ l] exI [of _ ciph]) (simp add: main_runs [where cfg = sample_conf] sample_flags_def)
qed


text \<open>
  C10: What the program serves.  With a readable configuration that names a known cipher, \<^verbatim>\<open>main\<close> listens on the configured port and starts,
  for every connection accepted before the first permanent error (on the remote side: for every one), the handler of the configured side; it
  runs with the configured read timeout and with the named cipher, of the algorithm the name stands for, under the key of the literal \<^verbatim>\<open>"password"\<close>, whatever password is configured.
\<close>

theorem main_serves:
  fixes rt :: "('f, 'g, 'c) runtime"
  assumes "crypto_ok (rt_crypto rt)" "\<not> fl_help fl" "\<not> fl_showVerbose fl"
    and "log_Init (if fl_debugLog fl then ''DEBUG'' else ''INFO'') (fl_logPath fl) (fl_stdOut fl) = None"
    and "ReadFileInto (SetDefaultConfig zero_Conf) (path_Join (fl_confRoot fl) ''proxy.conf'') = (None, cfg)"
    and "ToUpper (rt_upper rt) (cf_Cipher (cf_Server cfg)) \<in> cipher_names"
    and "rt_listen rt (CHR '':'' # int_text (cf_Port (cf_Server cfg))) = Inr rs"
  shows "\<exists>ciph (srv :: 'l Server) e (sv :: ('f, 'g, 'c, 'l) serving).
    main rt log_Init path_Join ReadFileInto fl = ret (Served e sv, \<lparr>DebugIsOpen = fl_debugLog fl, DebugHealthCheck = False\<rparr>) \<and>
    key_of (rt_crypto rt) (ToUpper (rt_upper rt) (cf_Cipher (cf_Server cfg))) ciph \<and>
    srv_Config srv = cfg \<and> srv_Cipher srv = Some ciph \<and> srv_ReadTimeout srv = seconds (cf_ClientReadTimeout (cf_Server cfg)) \<and>
    (if cf_Local (cf_Server cfg)
     then e = first_error (dropWhile (\<lambda>r. \<not> permanent r) rs) \<and>
       (\<exists>l. sv = ServesLocal l \<and> al_started l = map (handle_local rt ciph srv) (connections (before_end rs)))
     else e = None \<and> (\<exists>l. sv = ServesRemote l \<and> al_started l = map (handle_server rt ciph srv) (connections rs)))"
proof -
  from Start_known [OF assms(1,6), of version "fl_confRoot fl"] obtain ciph where
    k: "key_of (rt_crypto rt) (ToUpper (rt_upper rt) (cf_Cipher (cf_Server cfg))) ciph"
    and st: "Start rt cfg version (fl_confRoot fl) = (let s :: 'l Server = start_server cfg version (fl_confRoot fl) ciph in
     if cf_Local (cf_Server cfg)
     then case ServeLocal (rt_listen rt) (handle_local rt ciph s) s of (e, l) \<Rightarrow> ret (e, ServesLocal l)
     else case ServeServer (rt_listen rt) (handle_server rt ciph s) s of (e, l) \<Rightarrow> ret (e, ServesRemote l))"
    by blast
  let ?s = "start_server cfg version (fl_confRoot fl) ciph :: 'l Server"
  obtain e l where l: "ServeLocal (rt_listen rt) (handle_local rt ciph ?s) ?s = (e, l)" by force
  obtain e' l' where l': "ServeServer (rt_listen rt) (handle_server rt ciph ?s) ?s = (e', l')" by force
  have "accept_all (accept_local (handle_local rt ciph ?s)) (new_loop ?s) rs = (e, l)"
    using l assms(7) by (simp add: ServeLocal_def start_server_fields(1))
  note run = accept_local_run [OF _ this, of 0]
  have "e = first_error (dropWhile (\<lambda>r. \<not> permanent r) rs)" "al_started l = map (handle_local rt ciph ?s) (connections (before_end rs))"
    using run [THEN conjunct1] run [THEN conjunct2, THEN conjunct1] by (simp_all add: new_loop_def next_delay_def)
  moreover have "e' = None" "al_started l' = map (handle_server rt ciph ?s) (connections rs)"
    using l' assms(7) accept_server_run [of "handle_server rt ciph ?s" "new_loop ?s" rs]
    by (simp_all add: ServeServer_def start_server_fields(1), simp_all add: new_loop_def)
  moreover have "main rt log_Init path_Join ReadFileInto fl =
      ret (if cf_Local (cf_Server cfg) then Served e (ServesLocal l) else Served e' (ServesRemote l'), \<lparr>DebugIsOpen = fl_debugLog fl, DebugHealthCheck = False\<rparr>)"
    unfolding main_runs [where log_Init = log_Init and path_Join = path_Join and ReadFileInto = ReadFileInto and fl = fl and cfg = cfg, OF assms(2-5)] st using l l' by (simp add: Let_def)
  moreover note k
  ultimately show ?thesis
    by (cases "cf_Local (cf_Server cfg)")
      (intro exI [of _ ciph] exI [of _ ?s] exI [of _ e] exI [of _ "ServesLocal l"], simp add: start_server_fields, intro exI [of _ ciph] exI [of _ ?s] exI [of _ e'] exI [of _ "ServesRemote l'"], simp add: start_server_fields)
qed

theorem main_serves_witness:
  "\<exists>ciph (srv :: unit Server) (l :: ((bytes list, bytes, conn) local_task, unit) accept_loop).
    main sample_runtime (\<lambda>_ _ _. None) (@) (\<lambda>_ _. (None, sample_conf)) sample_flags =
      ret (Served (Some EOF) (ServesLocal l), \<lparr>DebugIsOpen = True, DebugHealthCheck = False\<rparr>) \<and>
    srv_Cipher srv = Some ciph \<and> ciph \<noteq> dummy \<and> al_started l = [handle_local sample_runtime ciph srv (sample_conn [[5, 1, 0], [5, 1]])]"
proof -
  have n: "ToUpper (rt_upper sample_runtime) (cf_Cipher (cf_Server sample_conf)) = ''AES-128-GCM''"
  proof -
    have "ToUpper id ''aes-128-gcm'' = ''AES-128-GCM''" by code_simp
    then show ?thesis by (simp add: sample_runtime_def sample_conf_def)
  qed
  let ?rs = "[Accepted (sample_conn [[5, 1, 0], [5, 1]]), AcceptError EOF False]"
  have given: "crypto_ok (rt_crypto sample_runtime)" "\<not> fl_help sample_flags" "\<not> fl_showVerbose sample_flags"
    "ToUpper (rt_upper sample_runtime) (cf_Cipher (cf_Server sample_conf)) \<in> cipher_names" "cf_Local (cf_Server sample_conf)" "fl_debugLog sample_flags"
    "rt_listen sample_runtime (CHR '':'' # int_text (cf_Port (cf_Server sample_conf))) = Inr ?rs"
    using sample_crypto_ok n by (simp_all add: cipher_names_def sample_flags_def, simp_all add: sample_runtime_def sample_conf_def)
  have rs: "first_error (dropWhile (\<lambda>r. \<not> permanent r) ?rs) = Some EOF" "connections (before_end ?rs) = [sample_conn [[5, 1, 0], [5, 1]]]"
    by (simp_all add: before_end_def permanent_def isTimeout_def)
  from main_serves [where 'l = unit and log_Init = "\<lambda>_ _ _. None" and path_Join = "(@)" and ReadFileInto = "\<lambda>_ _. (None, sample_conf)" and cfg = sample_conf,
      OF given(1-3) refl refl given(4,7)] given(5,6) rs n
  obtain ciph and srv :: "unit Server" and l :: "((bytes list, bytes, conn) local_task, unit) accept_loop" where
    "main sample_runtime (\<lambda>_ _ _. None) (@) (\<lambda>_ _. (None, sample_conf)) sample_flags =
      ret (Served (Some EOF) (ServesLocal l), \<lparr>DebugIsOpen = True, DebugHealthCheck = False\<rparr>)"
    "key_of (rt_crypto sample_runtime) ''AES-128-GCM'' ciph" "srv_Cipher srv = Some ciph" "al_started l = [handle_local sample_runtime ciph srv (sample_conn [[5, 1, 0], [5, 1]])]"
    by auto
  then show ?thesis by (intro exI [of _ ciph] exI [of _ srv] exI [of _ l]) (auto simp: key_of_def)
qed

text \<open>The flag \<^verbatim>\<open>-v\<close>, documented to show the version, is not looked at.\<close>

lemma main_ignores_showVersion:
  "main rt li pj rf (fl\<lparr>fl_showVersion := b\<rparr>) = main rt li pj rf fl"
  by (simp add: main_def Let_def split: option.split sum.split)

end
