(* ===== verification/Copy_Rounds.thy ===== *)
theory Copy_Rounds
  imports Session_Flow
begin

text \<open>
  The copying loops of \<^verbatim>\<open>m_shadow/stream.go\<close>, one round at a time: what a goroutine that copies does between two moments at which another
  one may run.  A round ends the loop (\<open>Inl\<close>, with the bytes counted and the error) or goes on (\<open>Inr\<close>).  The loops are the iterated rounds.
\<close>

subsection \<open>Rounds\<close>

type_synonym verdict = "(int \<times> goerr option) + int"

text \<open>What a loop does with the error of its source.\<close>

definition source_end :: "int \<Rightarrow> goerr option \<Rightarrow> verdict" where
  "source_end n er = (case er of Some e \<Rightarrow> Inl (n, if e \<noteq> EOF then Some e else None) | None \<Rightarrow> Inr n)"

definition writer_round :: "'w writer_fn \<Rightarrow> 's reader_fn \<Rightarrow> 'w swriter \<Rightarrow> 's \<Rightarrow> int \<Rightarrow> (verdict \<times> 'w swriter \<times> 's) go" where
  "writer_round wr rd w s n =
     gobind (go_slice (w_buf w) (2 + w_Overhead w) (2 + w_Overhead w + payloadSizeMask)) (\<lambda>payloadBuf.
     gobind (rd s payloadBuf) (\<lambda>(nr, payloadBuf', er, s').
     let w = w\<lparr>w_buf := overwrite (w_buf w) (2 + w_Overhead w) payloadBuf'\<rparr> in
     if 0 < nr then
       gobind (writer_seal w nr) (\<lambda>(buf, w).
       gobind (wr (w_Writer w) buf) (\<lambda>(_, ew, wst).
       ret (case ew of Some e \<Rightarrow> Inl (n + nr, Some e) | None \<Rightarrow> source_end (n + nr) er, w\<lparr>w_Writer := wst\<rparr>, s')))
     else ret (source_end n er, w, s')))"

definition leftover_round :: "'w writer_fn \<Rightarrow> 's sreader \<Rightarrow> 'w \<Rightarrow> int \<Rightarrow> (verdict \<times> 's sreader \<times> 'w) go" where
  "leftover_round wr r w n =
     gobind (wr w (r_leftover r)) (\<lambda>(nw, ew, w).
     gobind (go_slice (r_leftover r) nw (ilen (r_leftover r))) (\<lambda>left.
     ret (case ew of Some e \<Rightarrow> Inl (n + nw, Some e) | None \<Rightarrow> Inr (n + nw), r\<lparr>r_leftover := left\<rparr>, w)))"

definition reader_round :: "'s reader_fn \<Rightarrow> 'w writer_fn \<Rightarrow> 's sreader \<Rightarrow> 'w \<Rightarrow> int \<Rightarrow> (verdict \<times> 's sreader \<times> 'w) go" where
  "reader_round rd wr r w n =
     gobind (reader_read rd r) (\<lambda>(nr, er, r).
     if 0 < nr then
       gobind (go_slice (r_buf r) 0 nr) (\<lambda>payload.
       gobind (wr w payload) (\<lambda>(nw, ew, w).
       ret (case ew of Some e \<Rightarrow> Inl (n + nw, Some e) | None \<Rightarrow> source_end (n + nw) er, r, w)))
     else ret (source_end n er, r, w))"

subsection \<open>The loops are iterated rounds\<close>

lemma writer_body:
  "gobind (go_slice (w_buf w) (2 + w_Overhead w) (2 + w_Overhead w + payloadSizeMask)) (\<lambda>payloadBuf.
     gobind (rd s payloadBuf) (\<lambda>(nr, payloadBuf', er, s').
     let w = w\<lparr>w_buf := overwrite (w_buf w) (2 + w_Overhead w) payloadBuf'\<rparr> in
     if 0 < nr then
       gobind (writer_seal w nr) (\<lambda>(buf, w).
       gobind (wr (w_Writer w) buf) (\<lambda>(_, ew, wst).
       let w = w\<lparr>w_Writer := wst\<rparr> in
       (case ew of
          Some e \<Rightarrow> ret (n + nr, Some e, w, s')
        | None \<Rightarrow>
           (case er of
              Some e \<Rightarrow> ret (n + nr, (if e \<noteq> EOF then Some e else None), w, s')
            | None \<Rightarrow> loop wr rd w s' (n + nr)))))
     else
       (case er of
          Some e \<Rightarrow> ret (n, (if e \<noteq> EOF then Some e else None), w, s')
        | None \<Rightarrow> loop wr rd w s' n))) =
     gobind (writer_round wr rd w s n) (\<lambda>(q, w, s). case q of Inl (n, err) \<Rightarrow> ret (n, err, w, s) | Inr n \<Rightarrow> loop wr rd w s n)"
  unfolding writer_round_def gobind_assoc
  by (intro gobind_cong refl) (auto simp: gobind_assoc Let_def source_end_def split: prod.split option.split intro!: gobind_cong)

lemma writer_loop_rounds:
  "writer_ReadFrom_loop wr rd w s n =
     gobind (writer_round wr rd w s n) (\<lambda>(q, w, s). case q of Inl (n, err) \<Rightarrow> ret (n, err, w, s) | Inr n \<Rightarrow> writer_ReadFrom_loop wr rd w s n)"
  using writer_ReadFrom_loop.simps [of wr rd w s n] unfolding writer_body .

lemma leftover_body:
  "(if 0 < length (r_leftover r) then
        gobind (wr w (r_leftover r)) (\<lambda>(nw, ew, w).
        gobind (go_slice (r_leftover r) nw (ilen (r_leftover r))) (\<lambda>left.
        let r = r\<lparr>r_leftover := left\<rparr> in
        (case ew of
           Some e \<Rightarrow> ret (n + nw, Some e, r, w)
         | None \<Rightarrow> loop wr r w (n + nw))))
      else ret (n, None, r, w)) =
     (if r_leftover r = [] then ret (n, None, r, w) else gobind (leftover_round wr r w n) (\<lambda>(q, r, w). case q of Inl (n, err) \<Rightarrow> ret (n, err, r, w) | Inr n \<Rightarrow> loop wr r w n))"
  unfolding leftover_round_def gobind_assoc
  by (auto simp: gobind_assoc Let_def split: prod.split option.split intro!: gobind_cong)

lemma leftover_loop_rounds:
  "reader_WriteTo_leftover wr r w n =
     (if r_leftover r = [] then ret (n, None, r, w) else gobind (leftover_round wr r w n) (\<lambda>(q, r, w). case q of Inl (n, err) \<Rightarrow> ret (n, err, r, w) | Inr n \<Rightarrow> reader_WriteTo_leftover wr r w n))"
  using reader_WriteTo_leftover.simps [of wr r w n] unfolding leftover_body .

lemma reader_body:
  "gobind (reader_read rd r) (\<lambda>(nr, er, r).
     if 0 < nr then
       gobind (go_slice (r_buf r) 0 nr) (\<lambda>payload.
       gobind (wr w payload) (\<lambda>(nw, ew, w).
       (case ew of
          Some e \<Rightarrow> ret (n + nw, Some e, r, w)
        | None \<Rightarrow>
            (case er of
               Some e \<Rightarrow> ret (n + nw, (if e \<noteq> EOF then Some e else None), r, w)
             | None \<Rightarrow> loop rd wr r w (n + nw)))))
     else
       (case er of
          Some e \<Rightarrow> ret (n, (if e \<noteq> EOF then Some e else None), r, w)
        | None \<Rightarrow> loop rd wr r w n)) =
     gobind (reader_round rd wr r w n) (\<lambda>(q, r, w). case q of Inl (n, err) \<Rightarrow> ret (n, err, r, w) | Inr n \<Rightarrow> loop rd wr r w n)"
  unfolding reader_round_def gobind_assoc
  by (intro gobind_cong refl) (auto simp: gobind_assoc Let_def source_end_def split: prod.split option.split intro!: gobind_cong)

lemma reader_loop_rounds:
  "reader_WriteTo_loop rd wr r w n =
     gobind (reader_round rd wr r w n) (\<lambda>(q, r, w). case q of Inl (n, err) \<Rightarrow> ret (n, err, r, w) | Inr n \<Rightarrow> reader_WriteTo_loop rd wr r w n)"
  using reader_WriteTo_loop.simps [of rd wr r w n] unfolding reader_body .

text \<open>A run of rounds from \<open>n\<close> bytes counted to the end.\<close>

inductive writer_rounds :: "'w writer_fn \<Rightarrow> 's reader_fn \<Rightarrow> 'w swriter \<Rightarrow> 's \<Rightarrow> int \<Rightarrow> int \<Rightarrow> goerr option \<Rightarrow> 'w swriter \<Rightarrow> 's \<Rightarrow> bool" for wr rd where
  writer_last: "writer_round wr rd w s n = ret (Inl (k, err), w', s') \<Longrightarrow> writer_rounds wr rd w s n k err w' s'"
| writer_more: "writer_round wr rd w s n = ret (Inr j, w1, s1) \<Longrightarrow> writer_rounds wr rd w1 s1 j k err w' s' \<Longrightarrow> writer_rounds wr rd w s n k err w' s'"

lemma writer_loop_run:
  assumes "writer_ReadFrom_loop wr rd w s n = ret (k, err, w', s')"
  shows "writer_rounds wr rd w s n k err w' s'"
proof -
  let ?P = "\<lambda>wr rd w s n y. \<forall>k err w' s'. y = Val (k, err, w', s') \<longrightarrow> writer_rounds wr rd w s n k err w' s'"
  have "?P wr rd w s n (Val (k, err, w', s'))"
  proof (rule writer_ReadFrom_loop.raw_induct [where P = ?P])
    show "writer_ReadFrom_loop wr rd w s n = Some (Val (k, err, w', s'))" using assms by (simp add: some_ret)
    fix loop :: "'a writer_fn \<Rightarrow> 'b reader_fn \<Rightarrow> 'a swriter \<Rightarrow> 'b \<Rightarrow> int \<Rightarrow> (int \<times> goerr option \<times> 'a swriter \<times> 'b) go" and wr rd w s n y
    assume IH: "\<And>wr rd w s n y. loop wr rd w s n = Some y \<Longrightarrow> ?P wr rd w s n y"
      and body: "gobind (go_slice (w_buf w) (2 + w_Overhead w) (2 + w_Overhead w + payloadSizeMask)) (\<lambda>payloadBuf.
     gobind (rd s payloadBuf) (\<lambda>(nr, payloadBuf', er, s').
     let w = w\<lparr>w_buf := overwrite (w_buf w) (2 + w_Overhead w) payloadBuf'\<rparr> in
     if 0 < nr then
       gobind (writer_seal w nr) (\<lambda>(buf, w).
       gobind (wr (w_Writer w) buf) (\<lambda>(_, ew, wst).
       let w = w\<lparr>w_Writer := wst\<rparr> in
       (case ew of
          Some e \<Rightarrow> ret (n + nr, Some e, w, s')
        | None \<Rightarrow>
           (case er of
              Some e \<Rightarrow> ret (n + nr, (if e \<noteq> EOF then Some e else None), w, s')
            | None \<Rightarrow> loop wr rd w s' (n + nr)))))
     else
       (case er of
          Some e \<Rightarrow> ret (n, (if e \<noteq> EOF then Some e else None), w, s')
        | None \<Rightarrow> loop wr rd w s' n))) = Some y"
    show "?P wr rd w s n y"
    proof (intro allI impI)
      fix k err w' s' assume y: "y = Val (k, err, w', s')"
      from body [unfolded writer_body y some_ret] obtain q w1 s1 where r: "writer_round wr rd w s n = ret (q, w1, s1)"
        and q: "(case q of Inl (n, err) \<Rightarrow> ret (n, err, w1, s1) | Inr n \<Rightarrow> loop wr rd w1 s1 n) = ret (k, err, w', s')"
        by (auto simp: gobind_eq_ret)
      show "writer_rounds wr rd w s n k err w' s'"
      proof (cases q)
        case (Inl z)
        with q r show ?thesis by (cases z) (auto intro: writer_last)
      next
        case (Inr j)
        with q have "loop wr rd w1 s1 j = Some (Val (k, err, w', s'))" by (simp add: some_ret)
        from IH [OF this] have "writer_rounds wr rd w1 s1 j k err w' s'" by blast
        with r Inr show ?thesis by (auto intro: writer_more)
      qed
    qed
  qed
  then show ?thesis by blast
qed

text \<open>A run of rounds from \<open>n\<close> bytes counted to the end.\<close>

inductive leftover_rounds :: "'w writer_fn \<Rightarrow> 's sreader \<Rightarrow> 'w \<Rightarrow> int \<Rightarrow> int \<Rightarrow> goerr option \<Rightarrow> 's sreader \<Rightarrow> 'w \<Rightarrow> bool" for wr where
  leftover_none: "r_leftover r = [] \<Longrightarrow> leftover_rounds wr r w n n None r w"
| leftover_last: "r_leftover r \<noteq> [] \<Longrightarrow> leftover_round wr r w n = ret (Inl (k, err), r', w') \<Longrightarrow> leftover_rounds wr r w n k err r' w'"
| leftover_more: "r_leftover r \<noteq> [] \<Longrightarrow> leftover_round wr r w n = ret (Inr j, r1, w1) \<Longrightarrow> leftover_rounds wr r1 w1 j k err r' w' \<Longrightarrow> leftover_rounds wr r w n k err r' w'"

lemma leftover_loop_run:
  assumes "reader_WriteTo_leftover wr r w n = ret (k, err, r', w')"
  shows "leftover_rounds wr r w n k err r' w'"
proof -
  let ?P = "\<lambda>wr r w n y. \<forall>k err r' w'. y = Val (k, err, r', w') \<longrightarrow> leftover_rounds wr r w n k err r' w'"
  have "?P wr r w n (Val (k, err, r', w'))"
  proof (rule reader_WriteTo_leftover.raw_induct [where P = ?P])
    show "reader_WriteTo_leftover wr r w n = Some (Val (k, err, r', w'))" using assms by (simp add: some_ret)
    fix loop :: "'b writer_fn \<Rightarrow> 'a sreader \<Rightarrow> 'b \<Rightarrow> int \<Rightarrow> (int \<times> goerr option \<times> 'a sreader \<times> 'b) go" and wr r w n y
    assume IH: "\<And>wr r w n y. loop wr r w n = Some y \<Longrightarrow> ?P wr r w n y"
      and body: "(if 0 < length (r_leftover r) then
        gobind (wr w (r_leftover r)) (\<lambda>(nw, ew, w).
        gobind (go_slice (r_leftover r) nw (ilen (r_leftover r))) (\<lambda>left.
        let r = r\<lparr>r_leftover := left\<rparr> in
        (case ew of
           Some e \<Rightarrow> ret (n + nw, Some e, r, w)
         | None \<Rightarrow> loop wr r w (n + nw))))
      else ret (n, None, r, w)) = Some y"
    show "?P wr r w n y"
    proof (intro allI impI)
      fix k err r' w' assume y: "y = Val (k, err, r', w')"
      show "leftover_rounds wr r w n k err r' w'"
      proof (cases "r_leftover r = []")
        case True
        with body [unfolded leftover_body y some_ret] show ?thesis by (auto intro: leftover_none)
      next
        case F: False
      from body [unfolded leftover_body y some_ret] F obtain q r1 w1 where r: "leftover_round wr r w n = ret (q, r1, w1)"
        and q: "(case q of Inl (n, err) \<Rightarrow> ret (n, err, r1, w1) | Inr n \<Rightarrow> loop wr r1 w1 n) = ret (k, err, r', w')"
        by (auto simp: gobind_eq_ret)
      show "leftover_rounds wr r w n k err r' w'"
      proof (cases q)
        case (Inl z)
        with q r F show ?thesis by (cases z) (auto intro: leftover_last)
      next
        case (Inr j)
        with q have "loop wr r1 w1 j = Some (Val (k, err, r', w'))" by (simp add: some_ret)
        from IH [OF this] have "leftover_rounds wr r1 w1 j k err r' w'" by blast
        with r Inr F show ?thesis by (auto intro: leftover_more)
      qed
      qed
    qed
  qed
  then show ?thesis by blast
qed

text \<open>A run of rounds from \<open>n\<close> bytes counted to the end.\<close>

inductive reader_rounds :: "'s reader_fn \<Rightarrow> 'w writer_fn \<Rightarrow> 's sreader \<Rightarrow> 'w \<Rightarrow> int \<Rightarrow> int \<Rightarrow> goerr option \<Rightarrow> 's sreader \<Rightarrow> 'w \<Rightarrow> bool" for rd wr where
  reader_last: "reader_round rd wr r w n = ret (Inl (k, err), r', w') \<Longrightarrow> reader_rounds rd wr r w n k err r' w'"
| reader_more: "reader_round rd wr r w n = ret (Inr j, r1, w1) \<Longrightarrow> reader_rounds rd wr r1 w1 j k err r' w' \<Longrightarrow> reader_rounds rd wr r w n k err r' w'"

lemma reader_loop_run:
  assumes "reader_WriteTo_loop rd wr r w n = ret (k, err, r', w')"
  shows "reader_rounds rd wr r w n k err r' w'"
proof -
  let ?P = "\<lambda>rd wr r w n y. \<forall>k err r' w'. y = Val (k, err, r', w') \<longrightarrow> reader_rounds rd wr r w n k err r' w'"
  have "?P rd wr r w n (Val (k, err, r', w'))"
  proof (rule reader_WriteTo_loop.raw_induct [where P = ?P])
    show "reader_WriteTo_loop rd wr r w n = Some (Val (k, err, r', w'))" using assms by (simp add: some_ret)
    fix loop :: "'a reader_fn \<Rightarrow> 'b writer_fn \<Rightarrow> 'a sreader \<Rightarrow> 'b \<Rightarrow> int \<Rightarrow> (int \<times> goerr option \<times> 'a sreader \<times> 'b) go" and rd wr r w n y
    assume IH: "\<And>rd wr r w n y. loop rd wr r w n = Some y \<Longrightarrow> ?P rd wr r w n y"
      and body: "gobind (reader_read rd r) (\<lambda>(nr, er, r).
     if 0 < nr then
       gobind (go_slice (r_buf r) 0 nr) (\<lambda>payload.
       gobind (wr w payload) (\<lambda>(nw, ew, w).
       (case ew of
          Some e \<Rightarrow> ret (n + nw, Some e, r, w)
        | None \<Rightarrow>
            (case er of
               Some e \<Rightarrow> ret (n + nw, (if e \<noteq> EOF then Some e else None), r, w)
             | None \<Rightarrow> loop rd wr r w (n + nw)))))
     else
       (case er of
          Some e \<Rightarrow> ret (n, (if e \<noteq> EOF then Some e else None), r, w)
        | None \<Rightarrow> loop rd wr r w n)) = Some y"
    show "?P rd wr r w n y"
    proof (intro allI impI)
      fix k err r' w' assume y: "y = Val (k, err, r', w')"
      from body [unfolded reader_body y some_ret] obtain q r1 w1 where r: "reader_round rd wr r w n = ret (q, r1, w1)"
        and q: "(case q of Inl (n, err) \<Rightarrow> ret (n, err, r1, w1) | Inr n \<Rightarrow> loop rd wr r1 w1 n) = ret (k, err, r', w')"
        by (auto simp: gobind_eq_ret)
      show "reader_rounds rd wr r w n k err r' w'"
      proof (cases q)
        case (Inl z)
        with q r show ?thesis by (cases z) (auto intro: reader_last)
      next
        case (Inr j)
        with q have "loop rd wr r1 w1 j = Some (Val (k, err, r', w'))" by (simp add: some_ret)
        from IH [OF this] have "reader_rounds rd wr r1 w1 j k err r' w'" by blast
        with r Inr show ?thesis by (auto intro: reader_more)
      qed
    qed
  qed
  then show ?thesis by blast
qed

subsection \<open>Rounds over a peer that keeps reading\<close>

definition end_err :: "goerr \<Rightarrow> goerr option" where
  "end_err e = (if e = EOF then None else Some e)"

context live_pump
begin

lemma writer_round_spec:
  assumes "good s" "usable (w_Writer w)" "sw_wf w"
  shows "\<exists>q ps w' s'. writer_round wr rd w s n = ret (q, w', s') \<and> good s' \<and> usable (w_Writer w') \<and> fin s' = fin s \<and>
    sealed_run content sent w s ps [] w' s' \<and>
    (case q of Inl (n', err) \<Rightarrow> content s' = [] \<and> err = end_err (fin s) | Inr n' \<Rightarrow> left s' < left s)"
proof -
  from assms(1,3) obtain k p' e s' w1 where
    sl: "go_slice (w_buf w) (2 + w_Overhead w) (2 + w_Overhead w + payloadSizeMask) =
       ret (seg (w_buf w) (2 + w_Overhead w) (2 + w_Overhead w + payloadSizeMask))"
    and rd: "rd s (seg (w_buf w) (2 + w_Overhead w) (2 + w_Overhead w + payloadSizeMask)) = ret (int k, p', e, s')"
    and w1: "w1 = w\<lparr>w_buf := overwrite (w_buf w) (2 + w_Overhead w) p'\<rparr>" "sw_wf w1"
    and s': "good s'" "content s = take k p' @ content s'" "fin s' = fin s"
    and k: "int k \<le> payloadSizeMask" "k \<le> length p'"
      "seg (w_buf w1) (2 + w_Overhead w) (2 + w_Overhead w + int k) = take k p'"
    and e: "e = None \<longrightarrow> left s' < left s" "\<forall>x. e = Some x \<longrightarrow> x = fin s \<and> content s' = []"
    by (rule writer_step)
  have same: "w_Writer w1 = w_Writer w" "w_AEAD w1 = w_AEAD w" "w_nonce w1 = w_nonce w" by (simp_all add: w1(1))
  have q: "case source_end m e of Inl (n', err) \<Rightarrow> content s' = [] \<and> err = end_err (fin s) | Inr n' \<Rightarrow> left s' < left s" for m
    using e by (cases e) (auto simp: source_end_def end_err_def)
  show ?thesis
  proof (cases "k = 0")
    case True
    with s'(2) w1(2) same have "sealed_run content sent w s [] [] w1 s'" by (simp add: sealed_run_def)
    moreover have "writer_round wr rd w s n = ret (source_end n e, w1, s')"
      using True by (simp add: writer_round_def sl rd Let_def flip: w1(1))
    ultimately show ?thesis using s' q assms(2) same(1) by (intro exI [of _ "source_end n e"] exI [of _ "[]"] exI [of _ w1] exI [of _ s']) simp
  next
    case False
    let ?p = "take k p'"
    let ?rec = "a_Seal (w_AEAD w) (w_nonce w) (be16 k) @ a_Seal (w_AEAD w) (increment (w_nonce w)) ?p"
    from writer_seal_spec [OF w1(2) k(1)] k(3) same obtain w2 where
      seal: "writer_seal w1 (int k) = ret (?rec, w2)" and w2: "sw_wf w2" "w_Writer w2 = w_Writer w"
        "w_AEAD w2 = w_AEAD w" "w_nonce w2 = increment (increment (w_nonce w))"
      by auto
    from dst.write_all [OF assms(2), of ?rec] obtain v where
      wr: "wr (w_Writer w) ?rec = ret (ilen ?rec, None, v)" "usable v" "sent v = sent (w_Writer w) @ ?rec"
      by blast
    let ?w = "w2\<lparr>w_Writer := v\<rparr>"
    have "writer_round wr rd w s n = ret (source_end (n + int k) e, ?w, s')"
      using False seal wr(1) w2(2) by (simp add: writer_round_def sl rd Let_def flip: w1(1))
    moreover have "sealed_run content sent w s [?p] [] ?w s'"
      using s'(2) w2 wr(3) False k by (auto simp: sealed_run_def numeral_2_eq_2 min_absorb2)
    ultimately show ?thesis using s' wr(2) q by (intro exI [of _ "source_end (n + int k) e"] exI [of _ "[?p]"] exI [of _ ?w] exI [of _ s']) simp
  qed
qed

lemma leftover_round_spec:
  assumes "usable w"
  shows "\<exists>w'. leftover_round wr r w n = ret (Inr (n + ilen (r_leftover r)), r\<lparr>r_leftover := []\<rparr>, w') \<and> usable w' \<and> sent w' = sent w @ r_leftover r"
  using dst.write_all [OF assms, of "r_leftover r"] by (auto simp: leftover_round_def go_slice_def seg_def)

lemma reader_round_spec:
  assumes "sr_good content fin good r" "r_leftover r = []" "usable w"
  shows "\<exists>q p r' w'. reader_round rd wr r w n = ret (q, r', w') \<and> sr_good content fin good r' \<and> r_leftover r' = [] \<and> usable w' \<and>
    sent w' = sent w @ p \<and> sr_content content fin r = p @ sr_content content fin r' \<and> fin (r_Reader r') = fin (r_Reader r) \<and>
    (case q of Inl (n', err) \<Rightarrow> sr_content content fin r' = [] \<and> err = end_err (fin (r_Reader r))
     | Inr n' \<Rightarrow> length (content (r_Reader r')) < length (content (r_Reader r)))"
proof -
  let ?D = "sr_decode content fin"
  have g: "good (r_Reader r)" "sr_wf r" "snd (snd (?D r)) = []" using assms(1) by (simp_all add: sr_good_def)
  show ?thesis
  proof (cases "open_record (r_AEAD r) (r_nonce r) (fin (r_Reader r)) (content (r_Reader r))")
    case (Inl e)
    have c: "content (r_Reader r) = []" "e = fin (r_Reader r)"
      using g(3) decode_Inl [OF Inl] by (simp_all add: sr_decode_def)
    from src.reader_read_err [OF g(1,2) Inl] c obtain r' where
      rr: "reader_read rd r = ret (0, Some e, r')" and r': "sr_same good fin r r'" "content (r_Reader r') = []"
      by auto
    have "sr_good content fin good r'" "sr_content content fin r' = []" "sr_content content fin r = []"
      using r' c(1) assms(2) by (simp_all add: sr_good_def sr_same_def sr_decode_def sr_content_def)
    with rr r' c(2) assms(2,3) show ?thesis
      by (intro exI [of _ "Inl (n, end_err e)"] exI [of _ "[]"] exI [of _ r'] exI [of _ w])
        (simp add: reader_round_def source_end_def end_err_def sr_same_def)
  next
    case (Inr z)
    then obtain p rest where
      op: "open_record (r_AEAD r) (r_nonce r) (fin (r_Reader r)) (content (r_Reader r)) = Inr (p, rest)"
      by (cases z) auto
    from src.reader_read_ok [OF g(1,2) op] obtain r' where
      rr: "reader_read rd r = ret (ilen p, None, r')" and same: "sr_same good fin r r'"
      and p: "take (length p) (r_buf r') = p" "ilen p \<le> payloadSizeMask"
      and r': "content (r_Reader r') = rest" "r_nonce r' = increment (increment (r_nonce r))"
      by blast
    have D: "?D r = (p # fst (?D r'), snd (?D r'))"
      using decode_Inr [OF op] same r' by (simp add: sr_decode_def sr_same_def)
    have g': "sr_good content fin good r'" "r_leftover r' = []" "fin (r_Reader r') = fin (r_Reader r)"
      using same g(3) assms(2) by (simp_all add: sr_same_def sr_good_def D)
    have c: "sr_content content fin r = p @ sr_content content fin r'" using D g'(2) assms(2) by (simp add: sr_content_def)
    have len: "ilen p \<le> ilen (r_buf r')" using same p(2) by (simp add: sr_wf_def sr_same_def)
    have lt: "length (content (r_Reader r')) < length (content (r_Reader r))" using open_record_shorter [OF op] r'(1) by simp
    from dst.write_all [OF assms(3), of p] obtain v where v: "wr w p = ret (ilen p, None, v)" "usable v" "sent v = sent w @ p" by blast
    show ?thesis
    proof (cases "p = []")
      case True
      with rr g' c lt assms(3) show ?thesis
        by (intro exI [of _ "Inr n"] exI [of _ "[]"] exI [of _ r'] exI [of _ w]) (simp add: reader_round_def source_end_def)
    next
      case False
      with rr g' c lt p(1) len v show ?thesis
        by (intro exI [of _ "Inr (n + ilen p)"] exI [of _ p] exI [of _ r'] exI [of _ v]) (simp add: reader_round_def source_end_def seg_0)
    qed
  qed
qed

end

end
