(* ===== verification/Server_Tunnel.thy ===== *)
theory Server_Tunnel
  imports Server_Probe Copy_Rounds
begin

text \<open>
  The two handlers against honest peers: each of them turns the session it reads and the plain connection next to it into the session
  it writes, whenever the timer of the corked connection fires, in whichever order the copies of the relay run, and with a deadline
  that cuts nothing off.
\<close>

interpretation flow_in: live_pump conn_Read conn_content c_fin "only_read C" conn_left
  "timed_Write conn_Write" "tc_accepted c_out" "\<lambda>w. tcp_live_cork.live_ck F (tc_conn w)" for C F
  by unfold_locales

interpretation flow_out: live_pump "timed_Read conn_Read" "\<lambda>w. conn_content (net_conn w)" "\<lambda>w. c_fin (net_conn w)" "tcp_framed.framed F W"
  "\<lambda>w. conn_left (net_conn w)" conn_Write c_out "only_written C" for F W C
  by unfold_locales

interpretation flow_session: session_stream "timed_Read conn_Read" "\<lambda>w. conn_content (net_conn w)" "\<lambda>w. c_fin (net_conn w)" "tcp_framed.framed F W"
  "\<lambda>w. conn_left (net_conn w)" for F W
  by unfold_locales

subsection \<open>A live corked connection\<close>

definition live_conn :: "conn timedConn \<Rightarrow> bool" where
  "live_conn w \<longleftrightarrow> tcp_live_cork.live_ck (net_conn w) (tc_conn w)"

lemma live_written:
  assumes "tcp_live_cork.live_ck F (tc_conn w)"
  shows "live_conn w \<and> only_written F (net_conn w)"
  using assms by (auto simp: live_conn_def tcp_live_cork.live_ck_def ck_wf_def wb_wf_def net_conn_def only_written_def)

lemma live_set_net: "live_conn w \<Longrightarrow> c_room v = None \<Longrightarrow> live_conn (set_net v w)"
  by (simp add: live_conn_def tcp_live_cork.live_ck_def ck_wf_def wb_wf_def net_conn_def set_net_def only_written_def)

lemma live_room: "live_conn w \<Longrightarrow> c_room (net_conn w) = None"
  using live_written unfolding live_conn_def only_written_def by blast

lemma live_corked: "c_room c = None \<Longrightarrow> live_conn (corked_conn fires c)"
proof -
  assume "c_room c = None"
  then have "ck_wf (only_written c) (timedCork c cork_delay cork_size)" by (intro timedCork_wf only_refl)
  moreover have "ck_err (timedCork c cork_delay cork_size) = None" "wb_err (ck_bufw (timedCork c cork_delay cork_size)) = None"
    by (simp_all add: timedCork_def new_Writer_def)
  ultimately show ?thesis unfolding live_conn_def set_net_corked by (simp add: tcp_live_cork.live_ck_def corked_conn_def)
qed

text \<open>Once the timer has fired, all that was accepted is on its way.\<close>

lemma live_uncorked: "live_conn w \<Longrightarrow> \<not> ck_corked (tc_conn w) \<Longrightarrow> c_out (net_conn w) = tc_accepted c_out w"
  by (simp add: live_conn_def tcp_live_cork.live_ck_def ck_wf_def tc_accepted_def ck_accepted_def accepted_def waiting_def net_conn_def)

subsection \<open>The two copies\<close>

text \<open>What a copy out of the session leaves: the plain side got \<open>m\<close>, and of the session only the incoming direction changed.\<close>

definition given :: "bytes \<Rightarrow> conn timedConn streamConn \<Rightarrow> conn \<Rightarrow> conn timedConn streamConn \<Rightarrow> conn \<Rightarrow> bool" where
  "given m s r s' r' \<longleftrightarrow> c_out r' = c_out r @ m \<and> only_written r r' \<and> sc_w s' = sc_w s \<and> sc_Cipher s' = sc_Cipher s \<and>
     (\<exists>v. sc_Conn s' = set_net v (sc_Conn s) \<and> only_read (net_conn (sc_Conn s)) v)"

text \<open>What a copy into the session leaves: \<open>m\<close> was read from the plain side, and of the session only the outgoing direction changed.\<close>

definition taken_from :: "bytes \<Rightarrow> conn timedConn streamConn \<Rightarrow> conn \<Rightarrow> conn timedConn streamConn \<Rightarrow> conn \<Rightarrow> bool" where
  "taken_from m s r s' r' \<longleftrightarrow> conn_content r = m @ conn_content r' \<and> only_read r r' \<and> sc_r s' = sc_r s \<and> sc_Cipher s' = sc_Cipher s \<and>
     live_conn (sc_Conn s') \<and> only_written (net_conn (sc_Conn s)) (net_conn (sc_Conn s'))"

abbreviation reads_m :: "bytes \<Rightarrow> conn timedConn streamConn \<Rightarrow> bool" where
  "reads_m m s \<equiv> sess_in (\<lambda>w. conn_content (net_conn w)) (\<lambda>w. c_fin (net_conn w)) (tcp_framed.framed (net_conn (sc_Conn s)) (sc_Conn s)) m s"

abbreviation wrote :: "crypto \<Rightarrow> bytes \<Rightarrow> bytes \<Rightarrow> bytes \<Rightarrow> conn timedConn streamConn \<Rightarrow> bool" where
  "wrote cr salt base m s \<equiv> sess_out cr salt (tc_accepted c_out) base m s"

lemma framed_given:
  assumes "tcp_framed.framed (net_conn w) w w'"
  shows "\<exists>v. w' = set_net v w \<and> only_read (net_conn w) v"
  using framed_fields [OF assms] by blast

lemma copy_right_open:
  assumes "reads_m m s" "c_room r = None"
  shows "\<exists>s' r'. copy_right cr bl en (timed_Read conn_Read) conn_Write (Shadowed s) g r =
    ret (ilen m, end_err (c_fin (net_conn (sc_Conn s))), Shadowed s', g, r') \<and> given m s r s' r'"
proof -
  from flow_out.copy_out [OF only_refl(2) [OF assms(2)] assms(1), of cr bl en g, folded end_err_def] obtain s' r' where
    "streamConn_WriteTo cr bl en (timed_Read conn_Read) conn_Write s g r = ret (ilen m, end_err (c_fin (net_conn (sc_Conn s))), s', g, r')"
    "tcp_framed.framed (net_conn (sc_Conn s)) (sc_Conn s) (sc_Conn s')" "only_written r r'" "c_out r' = c_out r @ m" "sc_w s' = sc_w s" "sc_Cipher s' = sc_Cipher s"
    by (elim exE conjE) (rule that)
  then show ?thesis using framed_given by (fastforce simp: copy_right_def given_def)
qed

lemma copy_right_new:
  assumes "crypto_ok cr" "cipher_made cr (sc_Cipher s)" "sc_r s = None" "carries cr (sc_Cipher s) salt m (conn_content (net_conn (sc_Conn s)))"
    and "CheckSalt bl en (wd_salts g) salt = ret (False, sf)" "c_room r = None"
  shows "\<exists>s' r'. copy_right cr bl en (timed_Read conn_Read) conn_Write (Shadowed s) g r =
    ret (ilen m, end_err (c_fin (net_conn (sc_Conn s))), Shadowed s', g\<lparr>wd_salts := sf\<rparr>, r') \<and> given m s r s' r'"
proof -
  let ?w = "sc_Conn s"
  from flow_session.open_reader [OF framed_self assms(1-5)] obtain s1 where
    i: "streamConn_initReader cr bl en (timed_Read conn_Read) s g = ret (None, s1, g\<lparr>wd_salts := sf\<rparr>)"
    and f: "tcp_framed.framed (net_conn ?w) ?w (sc_Conn s1)"
    and s1: "sess_in (\<lambda>w. conn_content (net_conn w)) (\<lambda>w. c_fin (net_conn w)) (tcp_framed.framed (net_conn ?w) ?w) m s1"
      "c_fin (net_conn (sc_Conn s1)) = c_fin (net_conn ?w)" "sc_w s1 = sc_w s" "sc_Cipher s1 = sc_Cipher s"
    by (elim exE conjE) (rule that)
  from framed_given [OF f] obtain v where v: "sc_Conn s1 = set_net v ?w" "only_read (net_conn ?w) v" by blast
  have "sc_r s1 \<noteq> None" using s1(1) by (simp add: sess_in_def)
  then have eq: "copy_right cr bl en (timed_Read conn_Read) conn_Write (Shadowed s) g r =
      copy_right cr bl en (timed_Read conn_Read) conn_Write (Shadowed s1) (g\<lparr>wd_salts := sf\<rparr>) r"
    using flow_session.WriteTo_after_init [OF assms(3) i, of conn_Write r] by (simp add: copy_right_def)
  have "reads_m m s1" using sess_in_conn [OF s1(1), of "sc_Conn s1" "tcp_framed.framed (net_conn (sc_Conn s1)) (sc_Conn s1)"] framed_self by simp
  from copy_right_open [OF this assms(6), of cr bl en "g\<lparr>wd_salts := sf\<rparr>"] obtain s' r' where
    "copy_right cr bl en (timed_Read conn_Read) conn_Write (Shadowed s1) (g\<lparr>wd_salts := sf\<rparr>) r =
      ret (ilen m, end_err (c_fin (net_conn (sc_Conn s1))), Shadowed s', g\<lparr>wd_salts := sf\<rparr>, r')" "given m s1 r s' r'"
    by blast
  moreover from this(2) have "given m s r s' r'"
    using v s1(3,4) unfolding given_def by (auto intro: only_read_trans)
  ultimately show ?thesis unfolding eq using s1(2) by auto
qed

lemma copy_left_open:
  assumes "live_conn (sc_Conn s)" "wrote cr salt base m s"
  shows "\<exists>s' r'. copy_left cr bl en rnd (timed_Write conn_Write) conn_Read (Shadowed s) g r =
    ret (ilen (conn_content r), end_err (c_fin r), Shadowed s', g, r') \<and> taken_from (conn_content r) s r s' r' \<and> wrote cr salt base (m @ conn_content r) s'"
proof -
  from flow_in.copy_into [OF only_refl(1) _ assms(2), of "net_conn (sc_Conn s)" bl en rnd g r, folded end_err_def] assms(1) obtain s' r' where
    "streamConn_ReadFrom cr bl en rnd (timed_Write conn_Write) conn_Read s g r = ret (ilen (conn_content r), end_err (c_fin r), s', g, r')"
    "only_read r r'" "conn_content r' = []" "tcp_live_cork.live_ck (net_conn (sc_Conn s)) (tc_conn (sc_Conn s'))"
    "wrote cr salt base (m @ conn_content r) s'" "sc_r s' = sc_r s" "sc_Cipher s' = sc_Cipher s"
    unfolding live_conn_def by blast
  then show ?thesis using live_written by (fastforce simp: copy_left_def taken_from_def)
qed

lemma copy_left_new:
  assumes "live_conn (sc_Conn s)" "sc_w s = None" "crypto_ok cr" "cipher_made cr (sc_Cipher s)" "sf_ok bl en (wd_salts g)"
    and "metaCipher_SaltSize (sc_Cipher s) \<le> length (wd_rand g)"
  shows "\<exists>s' g' r'. copy_left cr bl en buffer_Read (timed_Write conn_Write) conn_Read (Shadowed s) g r =
    ret (ilen (conn_content r), end_err (c_fin r), Shadowed s', g', r') \<and> taken_from (conn_content r) s r s' r' \<and>
    wrote cr (take (metaCipher_SaltSize (sc_Cipher s)) (wd_rand g)) (tc_accepted c_out (sc_Conn s)) (conn_content r) s'"
proof -
  from flow_in.copy_into_new [OF only_refl(1) _ assms(2-6), of "net_conn (sc_Conn s)" r, folded end_err_def] assms(1) obtain s' g' r' where
    "streamConn_ReadFrom cr bl en buffer_Read (timed_Write conn_Write) conn_Read s g r = ret (ilen (conn_content r), end_err (c_fin r), s', g', r')"
    "only_read r r'" "conn_content r' = []" "tcp_live_cork.live_ck (net_conn (sc_Conn s)) (tc_conn (sc_Conn s'))"
    "wrote cr (take (metaCipher_SaltSize (sc_Cipher s)) (wd_rand g)) (tc_accepted c_out (sc_Conn s)) (conn_content r) s'" "sc_r s' = sc_r s" "sc_Cipher s' = sc_Cipher s"
    unfolding live_conn_def by blast
  then show ?thesis using live_written by (fastforce simp: copy_left_def taken_from_def)
qed

subsection \<open>The relay\<close>

text \<open>
  A deadline within which everything arrives: it changes neither what was sent nor what comes, but a read behind the last byte may now
  end with the deadline's error.
\<close>

definition in_time :: "(duration \<Rightarrow> conn \<Rightarrow> conn) \<Rightarrow> bool" where
  "in_time late \<longleftrightarrow> (\<forall>t c. conn_content (late t c) = conn_content c \<and> c_out (late t c) = c_out c \<and> c_room (late t c) = c_room c \<and>
     c_fin (late t c) \<in> {c_fin c, ErrDeadlineExceeded})"

definition unblock :: "(duration \<Rightarrow> 'c \<Rightarrow> 'c) \<Rightarrow> 'l Server \<Rightarrow> 'c \<Rightarrow> 'c" where
  "unblock late srv c = (if 0 < sint (srv_ReadTimeout srv) then late (srv_ReadTimeout srv) c else c)"

definition unblock_sess :: "(duration \<Rightarrow> 'c \<Rightarrow> 'c) \<Rightarrow> 'l Server \<Rightarrow> 'c timedConn streamConn \<Rightarrow> 'c timedConn streamConn" where
  "unblock_sess late srv s = s\<lparr>sc_Conn := set_net (unblock late srv (net_conn (sc_Conn s))) (sc_Conn s)\<rparr>"

lemma unblock_in_time:
  assumes "in_time late"
  shows "conn_content (unblock late srv c) = conn_content c" "c_out (unblock late srv c) = c_out c" "c_room (unblock late srv c) = c_room c"
    "c_fin c \<in> {EOF, ErrDeadlineExceeded} \<Longrightarrow> c_fin (unblock late srv c) \<in> {EOF, ErrDeadlineExceeded}"
  using assms [unfolded in_time_def, rule_format, of "srv_ReadTimeout srv" c] by (auto simp: unblock_def)

lemma relay_first:
  assumes "copy_right cr bl en (timed_Read rd) wr (Shadowed s) g r = ret (n1, e1, Shadowed s1, g1, r1)"
    and "copy_left cr bl en rnd (timed_Write wr) rd (Shadowed s1) g1 (unblock late srv r1) = ret (n2, e2, Shadowed s2, g2, r2)"
  shows "relay cr bl en rnd rd wr late True srv (Shadowed s) g r = ret (relay_err e1 e2, Shadowed (unblock_sess late srv s2), g2, r2)"
  using assms by (simp add: relay_def Let_def unblock_def unblock_sess_def shadow_update_def split: if_splits)

lemma relay_last:
  assumes "copy_left cr bl en rnd (timed_Write wr) rd (Shadowed s) g r = ret (n1, e1, Shadowed s1, g1, r1)"
    and "copy_right cr bl en (timed_Read rd) wr (Shadowed (unblock_sess late srv s1)) g1 r1 = ret (n2, e2, Shadowed s2, g2, r2)"
  shows "relay cr bl en rnd rd wr late False srv (Shadowed s) g r = ret (relay_err e2 e1, Shadowed s2, g2, unblock late srv r2)"
  using assms by (simp add: relay_def Let_def unblock_def unblock_sess_def shadow_update_def split: if_splits)

lemma relay_err_None: "f \<in> {EOF, ErrDeadlineExceeded} \<Longrightarrow> f' \<in> {EOF, ErrDeadlineExceeded} \<Longrightarrow> relay_err (end_err f) (end_err f') = None"
  by (auto simp: relay_err_def end_err_def)

text \<open>One direction leaves the other one as it was.\<close>

lemma given_keeps:
  assumes "given m s r s' r'"
  shows "wrote cr salt base m' s' = wrote cr salt base m' s" "live_conn (sc_Conn s) \<Longrightarrow> live_conn (sc_Conn s')"
    "tc_accepted c_out (sc_Conn s') = tc_accepted c_out (sc_Conn s)" "conn_content r' = conn_content r" "c_fin r' = c_fin r" "c_room r' = None"
proof -
  from assms obtain v where v: "sc_Conn s' = set_net v (sc_Conn s)" "only_read (net_conn (sc_Conn s)) v" by (auto simp: given_def)
  note f = only_read_fields [OF v(2)]
  then show acc: "tc_accepted c_out (sc_Conn s') = tc_accepted c_out (sc_Conn s)" using v(1) by (simp add: tc_accepted_set_net)
  with assms show "wrote cr salt base m' s' = wrote cr salt base m' s" by (simp add: sess_out_def given_def)
  show "live_conn (sc_Conn s) \<Longrightarrow> live_conn (sc_Conn s')" using live_room [of "sc_Conn s"] f by (simp add: v(1) live_set_net)
  show "conn_content r' = conn_content r" "c_fin r' = c_fin r" "c_room r' = None"
    using assms by (simp_all add: given_def only_written_def conn_content_def)
qed

lemma reads_moved:
  assumes "reads_m m s" "sc_r s' = sc_r s" "conn_content (net_conn (sc_Conn s')) = conn_content (net_conn (sc_Conn s))"
  shows "reads_m m s'"
proof -
  from sess_in_conn [OF assms(1), of "sc_Conn s'" "tcp_framed.framed (net_conn (sc_Conn s')) (sc_Conn s')"] assms(3) framed_self
  have "sess_in (\<lambda>w. conn_content (net_conn w)) (\<lambda>w. c_fin (net_conn w)) (tcp_framed.framed (net_conn (sc_Conn s')) (sc_Conn s')) m (s\<lparr>sc_Conn := sc_Conn s'\<rparr>)"
    by simp
  with assms(2) show ?thesis by (simp add: sess_in_def session_reader_def)
qed

lemma taken_keeps:
  assumes "taken_from m s r s' r'"
  shows "conn_content (net_conn (sc_Conn s')) = conn_content (net_conn (sc_Conn s))" "c_fin (net_conn (sc_Conn s')) = c_fin (net_conn (sc_Conn s))"
    "c_out r' = c_out r" "c_room r' = c_room r" "c_fin r' = c_fin r"
  using assms by (auto simp: taken_from_def only_written_def conn_content_def dest: only_read_fields)

lemma unblock_sess_keeps:
  assumes "in_time late"
  shows "conn_content (net_conn (sc_Conn (unblock_sess late srv s))) = conn_content (net_conn (sc_Conn s))"
    "wrote cr salt base m (unblock_sess late srv s) = wrote cr salt base m s" "live_conn (sc_Conn s) \<Longrightarrow> live_conn (sc_Conn (unblock_sess late srv s))"
    "sc_r (unblock_sess late srv s) = sc_r s" "sc_Cipher (unblock_sess late srv s) = sc_Cipher s"
    "c_fin (net_conn (sc_Conn s)) \<in> {EOF, ErrDeadlineExceeded} \<Longrightarrow> c_fin (net_conn (sc_Conn (unblock_sess late srv s))) \<in> {EOF, ErrDeadlineExceeded}"
  using unblock_in_time [OF assms, where srv = srv and c = "net_conn (sc_Conn s)"] live_room [of "sc_Conn s"]
  by (simp_all add: unblock_sess_def sess_out_def tc_accepted_set_net live_set_net)

text \<open>The local side: it has sent something and has not read its peer's salt.\<close>

lemma relay_local:
  assumes "crypto_ok cr" "cipher_made cr (sc_Cipher s)" "live_conn (sc_Conn s)" "wrote cr salt base m s" "sc_r s = None"
    and "carries cr (sc_Cipher s) salt' reply (conn_content (net_conn (sc_Conn s)))" "CheckSalt bl en (wd_salts g) salt' = ret (False, sf)"
    and "c_room r = None" "in_time late" "c_fin r \<in> {EOF, ErrDeadlineExceeded}" "c_fin (net_conn (sc_Conn s)) \<in> {EOF, ErrDeadlineExceeded}"
  shows "\<exists>s' g' r'. relay cr bl en rnd conn_Read conn_Write late go_first srv (Shadowed s) g r = ret (None, Shadowed s', g', r') \<and>
    c_out r' = c_out r @ reply \<and> wrote cr salt base (m @ conn_content r) s' \<and> live_conn (sc_Conn s') \<and> sc_Cipher s' = sc_Cipher s"
proof (cases go_first)
  case True
  from copy_right_new [OF assms(1,2,5-8)] obtain s1 r1 where
    c1: "copy_right cr bl en (timed_Read conn_Read) conn_Write (Shadowed s) g r =
      ret (ilen reply, end_err (c_fin (net_conn (sc_Conn s))), Shadowed s1, g\<lparr>wd_salts := sf\<rparr>, r1)" and g1: "given reply s r s1 r1"
    by blast
  note k1 = given_keeps [OF g1] and u = unblock_in_time [OF assms(9), where srv = srv and c = r1]
  have "live_conn (sc_Conn s1)" "wrote cr salt base m s1" using k1(1,2) assms(3,4) by simp_all
  from copy_left_open [OF this, where r = "unblock late srv r1"] obtain s2 r2 where
    c2: "copy_left cr bl en rnd (timed_Write conn_Write) conn_Read (Shadowed s1) (g\<lparr>wd_salts := sf\<rparr>) (unblock late srv r1) =
      ret (ilen (conn_content r), end_err (c_fin (unblock late srv r1)), Shadowed s2, g\<lparr>wd_salts := sf\<rparr>, r2)"
    and t: "taken_from (conn_content r) s1 (unblock late srv r1) s2 r2" and o: "wrote cr salt base (m @ conn_content r) s2"
    unfolding u(1) k1(4) by blast
  have "c_fin (unblock late srv r1) \<in> {EOF, ErrDeadlineExceeded}" using u(4) k1(5) assms(10) by simp
  with relay_first [OF c1 c2] relay_err_None [OF assms(11)] True
  have "relay cr bl en rnd conn_Read conn_Write late go_first srv (Shadowed s) g r = ret (None, Shadowed (unblock_sess late srv s2), g\<lparr>wd_salts := sf\<rparr>, r2)"
    by simp
  moreover have "c_out r2 = c_out r @ reply" using taken_keeps(3) [OF t] u(2) g1 by (simp add: given_def)
  moreover have "live_conn (sc_Conn s2)" "sc_Cipher s2 = sc_Cipher s" using t g1 by (simp_all add: taken_from_def given_def)
  ultimately show ?thesis using o unblock_sess_keeps [OF assms(9), where s = s2 and srv = srv] by auto
next
  case False
  from copy_left_open [OF assms(3,4), where r = r] obtain s1 r1 where
    c1: "copy_left cr bl en rnd (timed_Write conn_Write) conn_Read (Shadowed s) g r = ret (ilen (conn_content r), end_err (c_fin r), Shadowed s1, g, r1)"
    and t: "taken_from (conn_content r) s r s1 r1" and o: "wrote cr salt base (m @ conn_content r) s1"
    by blast
  let ?s = "unblock_sess late srv s1"
  note k = taken_keeps [OF t] and u = unblock_sess_keeps [OF assms(9), where s = s1 and srv = srv]
  have c: "sc_Cipher ?s = sc_Cipher s" "sc_r ?s = None" using t u(4,5) assms(5) by (simp_all add: taken_from_def)
  have w: "conn_content (net_conn (sc_Conn ?s)) = conn_content (net_conn (sc_Conn s))" using u(1) k(1) by simp
  have "c_room r1 = None" using k(4) assms(8) by simp
  from copy_right_new [OF assms(1) _ c(2) _ assms(7) this, of reply] assms(2,6) obtain s2 r2 where
    c2: "copy_right cr bl en (timed_Read conn_Read) conn_Write (Shadowed ?s) g r1 =
      ret (ilen reply, end_err (c_fin (net_conn (sc_Conn ?s))), Shadowed s2, g\<lparr>wd_salts := sf\<rparr>, r2)" and g2: "given reply ?s r1 s2 r2"
    unfolding c(1) w by blast
  note k2 = given_keeps [OF g2]
  have "c_fin (net_conn (sc_Conn ?s)) \<in> {EOF, ErrDeadlineExceeded}" using u(6) k(2) assms(11) by simp
  with relay_last [OF c1 c2] relay_err_None [OF _ assms(10)] False
  have "relay cr bl en rnd conn_Read conn_Write late go_first srv (Shadowed s) g r = ret (None, Shadowed s2, g\<lparr>wd_salts := sf\<rparr>, unblock late srv r2)"
    by simp
  moreover have "c_out (unblock late srv r2) = c_out r @ reply"
    using unblock_in_time(2) [OF assms(9), where srv = srv and c = r2] k(3) g2 by (simp add: given_def)
  moreover have "live_conn (sc_Conn s2)" "wrote cr salt base (m @ conn_content r) s2" "sc_Cipher s2 = sc_Cipher s"
    using k2(1,2) u(2,3) o t g2 c(1) by (simp_all add: taken_from_def given_def)
  ultimately show ?thesis by blast
qed

text \<open>The remote side: it has read something and has not sent its own salt.\<close>

lemma relay_remote:
  assumes "crypto_ok cr" "cipher_made cr (sc_Cipher s)" "live_conn (sc_Conn s)" "reads_m m s" "sc_w s = None"
    and "sf_ok bl en (wd_salts g)" "metaCipher_SaltSize (sc_Cipher s) \<le> length (wd_rand g)"
    and "c_room r = None" "in_time late" "c_fin r \<in> {EOF, ErrDeadlineExceeded}" "c_fin (net_conn (sc_Conn s)) \<in> {EOF, ErrDeadlineExceeded}"
  shows "\<exists>s' g' r'. relay cr bl en buffer_Read conn_Read conn_Write late go_first srv (Shadowed s) g r = ret (None, Shadowed s', g', r') \<and>
    c_out r' = c_out r @ m \<and> wrote cr (take (metaCipher_SaltSize (sc_Cipher s)) (wd_rand g)) (tc_accepted c_out (sc_Conn s)) (conn_content r) s' \<and>
    live_conn (sc_Conn s') \<and> sc_Cipher s' = sc_Cipher s"
proof (cases go_first)
  case True
  from copy_right_open [OF assms(4,8)] obtain s1 r1 where
    c1: "copy_right cr bl en (timed_Read conn_Read) conn_Write (Shadowed s) g r = ret (ilen m, end_err (c_fin (net_conn (sc_Conn s))), Shadowed s1, g, r1)"
    and g1: "given m s r s1 r1"
    by blast
  note k1 = given_keeps [OF g1] and u = unblock_in_time [OF assms(9), where srv = srv and c = r1]
  have s1: "live_conn (sc_Conn s1)" "sc_w s1 = None" "sc_Cipher s1 = sc_Cipher s" using k1(2) g1 assms(3,5) by (simp_all add: given_def)
  from copy_left_new [OF s1(1,2) assms(1) _ assms(6), where r = "unblock late srv r1"] assms(2,7) obtain s2 g2 r2 where
    c2: "copy_left cr bl en buffer_Read (timed_Write conn_Write) conn_Read (Shadowed s1) g (unblock late srv r1) =
      ret (ilen (conn_content r), end_err (c_fin (unblock late srv r1)), Shadowed s2, g2, r2)"
    and t: "taken_from (conn_content r) s1 (unblock late srv r1) s2 r2"
    and o: "wrote cr (take (metaCipher_SaltSize (sc_Cipher s)) (wd_rand g)) (tc_accepted c_out (sc_Conn s)) (conn_content r) s2"
    unfolding u(1) k1(3,4) s1(3) by blast
  have "c_fin (unblock late srv r1) \<in> {EOF, ErrDeadlineExceeded}" using u(4) k1(5) assms(10) by simp
  with relay_first [OF c1 c2] relay_err_None [OF assms(11)] True
  have "relay cr bl en buffer_Read conn_Read conn_Write late go_first srv (Shadowed s) g r = ret (None, Shadowed (unblock_sess late srv s2), g2, r2)"
    by simp
  moreover have "c_out r2 = c_out r @ m" using taken_keeps(3) [OF t] u(2) g1 by (simp add: given_def)
  moreover have "live_conn (sc_Conn s2)" "sc_Cipher s2 = sc_Cipher s" using t s1(3) by (simp_all add: taken_from_def)
  ultimately show ?thesis using o unblock_sess_keeps [OF assms(9), where s = s2 and srv = srv] by auto
next
  case False
  from copy_left_new [OF assms(3,5,1,2,6,7), where r = r] obtain s1 g1 r1 where
    c1: "copy_left cr bl en buffer_Read (timed_Write conn_Write) conn_Read (Shadowed s) g r = ret (ilen (conn_content r), end_err (c_fin r), Shadowed s1, g1, r1)"
    and t: "taken_from (conn_content r) s r s1 r1"
    and o: "wrote cr (take (metaCipher_SaltSize (sc_Cipher s)) (wd_rand g)) (tc_accepted c_out (sc_Conn s)) (conn_content r) s1"
    by blast
  let ?s = "unblock_sess late srv s1"
  note k = taken_keeps [OF t] and u = unblock_sess_keeps [OF assms(9), where s = s1 and srv = srv]
  have "reads_m m ?s" by (rule reads_moved [OF assms(4)]) (use t u(1,4) k(1) in \<open>simp_all add: taken_from_def\<close>)
  moreover have "c_room r1 = None" using k(4) assms(8) by simp
  ultimately obtain s2 r2 where
    c2: "copy_right cr bl en (timed_Read conn_Read) conn_Write (Shadowed ?s) g1 r1 = ret (ilen m, end_err (c_fin (net_conn (sc_Conn ?s))), Shadowed s2, g1, r2)"
    and g2: "given m ?s r1 s2 r2"
    using copy_right_open by blast
  note k2 = given_keeps [OF g2]
  have "c_fin (net_conn (sc_Conn ?s)) \<in> {EOF, ErrDeadlineExceeded}" using u(6) k(2) assms(11) by simp
  with relay_last [OF c1 c2] relay_err_None [OF _ assms(10)] False
  have "relay cr bl en buffer_Read conn_Read conn_Write late go_first srv (Shadowed s) g r = ret (None, Shadowed s2, g1, unblock late srv r2)"
    by simp
  moreover have "c_out (unblock late srv r2) = c_out r @ m"
    using unblock_in_time(2) [OF assms(9), where srv = srv and c = r2] k(3) g2 by (simp add: given_def)
  moreover have "live_conn (sc_Conn s2)" "sc_Cipher s2 = sc_Cipher s"
    "wrote cr (take (metaCipher_SaltSize (sc_Cipher s)) (wd_rand g)) (tc_accepted c_out (sc_Conn s)) (conn_content r) s2"
    using k2(1,2) u(2,3,5) o t g2 by (simp_all add: taken_from_def given_def)
  ultimately show ?thesis by blast
qed

subsection \<open>Reading the address\<close>

text \<open>Reading from a connection that has not taken the salt yet is reading after taking it.\<close>

lemma Read_after_init:
  assumes "sc_r c = None" "streamConn_initReader cr bl en rd c g = ret (None, c1, g1)" "sc_r c1 \<noteq> None"
  shows "streamConn_Read cr bl en rd (c, g) p = streamConn_Read cr bl en rd (c1, g1) p"
  using assms by (auto simp: streamConn_Read_def streamConn_needReader_def)

lemma ReadFull_first:
  assumes "p \<noteq> []" "\<And>q. rd s q = rd s1 q"
  shows "ReadFull rd s p = ReadFull rd s1 p"
  using assms by (simp add: ReadFull_def ReadAtLeast_loop.simps [of rd s] ReadAtLeast_loop.simps [of rd s1])

lemma ReadAddr_first:
  assumes "\<And>q. rd s q = rd s1 q"
  shows "ReadAddr rd s = ReadAddr rd s1"
proof -
  have "ReadFull_at rd s (replicate MaxAddrLen 0) 0 1 = ReadFull_at rd s1 (replicate MaxAddrLen 0) 0 1"
    unfolding ReadFull_at_def
    by (rule gobind_cong) (auto simp: go_slice_def seg_def MaxAddrLen_def split: if_splits intro!: arg_cong [where f = "\<lambda>m. gobind m _"] ReadFull_first assms)
  then show ?thesis by (simp add: ReadAddr_def readAddr_def)
qed

subsection \<open>The remote side\<close>

context session_stream
begin

definition shadow_good_at :: "'a shadow_conn \<times> ('f, 'g) world \<Rightarrow> bool" where
  "shadow_good_at = (\<lambda>(c, g). case c of Bare c \<Rightarrow> good c | Shadowed s \<Rightarrow> session_good content fin good (s, g))"

lemma shadow_read_spec:
  assumes "shadow_good_at cg" "p \<noteq> []"
  shows "\<exists>k p' e cg'. shadow_Read cr bl en rd cg p = ret (int k, p', e, cg') \<and> shadow_good_at cg' \<and>
    read_step (\<lambda>(c, _). case c of Bare c \<Rightarrow> content c | Shadowed s \<Rightarrow> sr_content content fin (session_reader s)) (\<lambda>(c, _). fin (shadow_base c))
      (\<lambda>(c, _). case c of Bare c \<Rightarrow> left c | Shadowed s \<Rightarrow> sr_left content (session_reader s)) cg p k p' e cg'"
proof -
  obtain c g where cg: "cg = (c, g)" by (cases cg) auto
  show ?thesis
  proof (cases c)
    case (Bare b)
    with assms(1) cg have "good b" by (simp add: shadow_good_at_def)
    from read_spec [OF this assms(2)] obtain k p' e b' where "rd b p = ret (int k, p', e, b')" "good b'" "read_step content fin left b p k p' e b'"
      by (elim exE conjE) (rule that)
    then show ?thesis
      by (intro exI [of _ k] exI [of _ p'] exI [of _ e] exI [of _ "(Bare b', g)"])
        (simp add: cg Bare shadow_Read_def shadow_good_at_def shadow_base_def read_step_def)
  next
    case (Shadowed s)
    with assms(1) cg have "session_good content fin good (s, g)" by (simp add: shadow_good_at_def)
    from session_read_spec [OF this assms(2), of cr bl en] obtain k p' e s' g' where
      "streamConn_Read cr bl en rd (s, g) p = ret (int k, p', e, (s', g'))" "session_good content fin good (s', g')"
      "read_step (\<lambda>(c, _). sr_content content fin (session_reader c)) (\<lambda>(c, _). fin (sc_Conn c)) (\<lambda>(c, _). sr_left content (session_reader c)) (s, g) p k p' e (s', g')"
      by auto
    then show ?thesis
      by (intro exI [of _ k] exI [of _ p'] exI [of _ e] exI [of _ "(Shadowed s', g')"])
        (simp add: cg Shadowed shadow_Read_def shadow_good_at_def shadow_base_def read_step_def)
  qed
qed

end

sublocale session_stream \<subseteq> shadow: stream_reader "shadow_Read cr bl en rd"
  "\<lambda>(c, _). case c of Bare c \<Rightarrow> content c | Shadowed s \<Rightarrow> sr_content content fin (session_reader s)" "\<lambda>(c, _). fin (shadow_base c)" shadow_good_at
  "\<lambda>(c, _). case c of Bare c \<Rightarrow> left c | Shadowed s \<Rightarrow> sr_left content (session_reader s)" for cr bl en
  by unfold_locales (rule shadow_read_spec)

text \<open>An open session that only gets read keeps its writing side and the world.\<close>

definition opened :: "metaCipher \<Rightarrow> ('f, 'g) world \<Rightarrow> 'c shadow_conn \<times> ('f, 'g) world \<Rightarrow> bool" where
  "opened mc g = (\<lambda>(c, g'). \<exists>s. c = Shadowed s \<and> sc_r s \<noteq> None \<and> sc_w s = None \<and> sc_Cipher s = mc \<and> g' = g)"

lemma opened_Read: "opened mc g cg \<Longrightarrow> shadow_Read cr bl en rd cg p = ret (n, p', e, cg') \<Longrightarrow> opened mc g cg'"
  by (auto simp: opened_def shadow_Read_def streamConn_Read_def streamConn_needReader_def gobind_eq_ret split: option.splits)

lemma server_addr:
  assumes "crypto_ok cr" "cipher_made cr mc" "carries cr mc salt (a @ payload) (conn_content d)" "addr_wf a"
    and "CheckSalt bl en (wd_salts g) salt = ret (False, sf)"
  shows "\<exists>s. ReadAddr (shadow_Read cr bl en (timed_Read conn_Read)) (StreamConn (aeadCipher mc) (corked_conn fires d), g) =
      ret ((Some a, None), (Shadowed s, g\<lparr>wd_salts := sf\<rparr>)) \<and>
    quiet fires d (sc_Conn s) \<and> reads_m payload s \<and> sc_w s = None \<and> sc_Cipher s = mc"
proof -
  let ?W = "corked_conn fires d" and ?g = "g\<lparr>wd_salts := sf\<rparr>"
  let ?in = "sess_in (\<lambda>w. conn_content (net_conn w)) (\<lambda>w. c_fin (net_conn w)) (tcp_framed.framed d ?W)"
  have W: "tcp_framed.framed d ?W ?W" using quiet_corked quiet_framed by blast
  from flow_session.open_reader [where c = "NewConn ?W mc" and F = d and W = ?W and cr = cr and salt = salt and m = "a @ payload"
      and bl = bl and en = en and g = g and sf = sf] W assms(1,2,3,5)
  obtain s1 where
    i: "streamConn_initReader cr bl en (timed_Read conn_Read) (NewConn ?W mc) g = ret (None, s1, ?g)"
    and s1: "?in (a @ payload) s1" "sc_w s1 = None" "sc_Cipher s1 = mc"
    by (auto simp: NewConn_def set_net_corked)
  have r1: "sc_r s1 \<noteq> None" using s1(1) by (simp add: sess_in_def)
  have "shadow_Read cr bl en (timed_Read conn_Read) (Shadowed (NewConn ?W mc), g) q = shadow_Read cr bl en (timed_Read conn_Read) (Shadowed s1, ?g) q" for q
    using Read_after_init [OF _ i r1] by (simp add: shadow_Read_def NewConn_def)
  then have "ReadAddr (shadow_Read cr bl en (timed_Read conn_Read)) (Shadowed (NewConn ?W mc), g) =
      ReadAddr (shadow_Read cr bl en (timed_Read conn_Read)) (Shadowed s1, ?g)"
    by (rule ReadAddr_first)
  then have first: "ReadAddr (shadow_Read cr bl en (timed_Read conn_Read)) (StreamConn (aeadCipher mc) ?W, g) =
      ReadAddr (shadow_Read cr bl en (timed_Read conn_Read)) (Shadowed s1, ?g)"
    by (simp add: StreamConn_def)
  have good: "flow_session.shadow_good_at d ?W (Shadowed s1, ?g)" "sr_content (\<lambda>w. conn_content (net_conn w)) (\<lambda>w. c_fin (net_conn w)) (session_reader s1) = a @ payload"
    using s1(1) by (simp_all add: flow_session.shadow_good_at_def sess_in_def session_good_def)
  from flow_session.shadow.ReadAddr_ok [OF good(1), of a cr bl en] good(2) addr_wf_append [OF assms(4), of payload] obtain c2 g2 where
    read: "ReadAddr (shadow_Read cr bl en (timed_Read conn_Read)) (Shadowed s1, ?g) = ret ((Some a, None), (c2, g2))"
    and good2: "flow_session.shadow_good_at d ?W (c2, g2)"
    and rest: "payload = (case c2 of Bare c \<Rightarrow> conn_content (net_conn c) | Shadowed s \<Rightarrow> sr_content (\<lambda>w. conn_content (net_conn w)) (\<lambda>w. c_fin (net_conn w)) (session_reader s))"
    by auto
  have o: "opened mc ?g (Shadowed s1, ?g)" using r1 s1(2,3) by (simp add: opened_def)
  have "opened mc ?g (c2, g2)" by (rule ReadAddr_inv [where I = "opened mc ?g", OF _ o read]) (rule opened_Read)
  then obtain s2 where
    s2: "c2 = Shadowed s2" "sc_r s2 \<noteq> None" "sc_w s2 = None" "sc_Cipher s2 = mc" "g2 = ?g"
    by (auto simp: opened_def)
  have in2: "?in payload s2" using good2 rest s2(1) by (simp add: flow_session.shadow_good_at_def sess_in_def session_good_def)
  then have f: "tcp_framed.framed d ?W (sc_Conn s2)" by (simp add: sess_in_def sr_good_def session_reader_def)
  have "reads_m payload s2" using sess_in_conn [OF in2, of "sc_Conn s2" "tcp_framed.framed (net_conn (sc_Conn s2)) (sc_Conn s2)"] framed_self by simp
  with first read s2 f show ?thesis by (auto simp: quiet_framed)
qed

lemma quiet_live:
  assumes "quiet fires d w" "c_room d = None"
  shows "live_conn w" "tc_accepted c_out w = c_out d" "c_fin (net_conn w) = c_fin d"
proof -
  from assms(1) obtain v where v: "w = corked_conn fires v" "only_read d v" by (auto simp: quiet_def)
  note f = only_read_fields [OF v(2)]
  with assms(2) live_corked show "live_conn w" by (simp add: v(1))
  from f show "c_fin (net_conn w) = c_fin d" by (simp add: v(1) set_net_corked)
  from f show "tc_accepted c_out w = c_out d"
    by (simp add: v(1) tc_accepted_def corked_conn_def ck_accepted_def accepted_def waiting_def timedCork_def new_Writer_def)
qed

lemma server_relays:
  assumes "crypto_ok cr" "cipher_made cr mc" "carries cr mc salt (a @ payload) (conn_content d)" "addr_wf a"
    and "CheckSalt bl en (wd_salts g) salt = ret (False, sf)" "Addr_String a = ret host" "dial host = Inr t" "c_room d = None"
  shows "\<exists>s. server_meet cr bl en conn_Read fires dial (aeadCipher mc) srv d g = ret (Relays (Shadowed s) t, count_request srv, g\<lparr>wd_salts := sf\<rparr>) \<and>
    live_conn (sc_Conn s) \<and> reads_m payload s \<and> tc_accepted c_out (sc_Conn s) = c_out d \<and> c_fin (net_conn (sc_Conn s)) = c_fin d \<and> sc_w s = None \<and> sc_Cipher s = mc"
proof -
  from server_addr [OF assms(1-5), of fires] obtain s where
    r: "ReadAddr (shadow_Read cr bl en (timed_Read conn_Read)) (StreamConn (aeadCipher mc) (corked_conn fires d), g) = ret ((Some a, None), (Shadowed s, g\<lparr>wd_salts := sf\<rparr>))"
    and s: "quiet fires d (sc_Conn s)" "reads_m payload s" "sc_w s = None" "sc_Cipher s = mc"
    by blast
  from r assms(6,7) have "server_meet cr bl en conn_Read fires dial (aeadCipher mc) srv d g = ret (Relays (Shadowed s) t, count_request srv, g\<lparr>wd_salts := sf\<rparr>)"
    by (simp add: server_meet_def)
  with s quiet_live [OF s(1) assms(8)] show ?thesis by blast
qed

lemma server_session:
  assumes "crypto_ok cr" "cipher_made cr mc" "carries cr mc salt (a @ payload) (conn_content d)" "addr_wf a"
    and "sf_ok bl en (wd_salts g)" "CheckSalt bl en (wd_salts g) salt = ret (False, sf)" "metaCipher_SaltSize mc \<le> length (wd_rand g)"
    and "Addr_String a = ret host" "dial host = Inr t" "c_room d = None" "c_room t = None" "in_time late"
    and "c_fin d \<in> {EOF, ErrDeadlineExceeded}" "c_fin t \<in> {EOF, ErrDeadlineExceeded}"
  shows "\<exists>s' t' g' bs. server_handler cr bl en buffer_Read conn_Read conn_Write late go_first fires dial (aeadCipher mc) srv d g =
      ret (Relayed None (Shadowed s') t', count_request srv, g') \<and>
    c_out t' = c_out t @ payload \<and> live_conn (sc_Conn s') \<and> tc_accepted c_out (sc_Conn s') = c_out d @ bs \<and>
    carries cr mc (take (metaCipher_SaltSize mc) (wd_rand g)) (conn_content t) bs"
proof -
  let ?g = "g\<lparr>wd_salts := sf\<rparr>" and ?salt = "take (metaCipher_SaltSize mc) (wd_rand g)"
  from server_relays [where dial = dial and t = t, OF assms(1-4,6,8-10), of fires srv] obtain s where
    m: "server_meet cr bl en conn_Read fires dial (aeadCipher mc) srv d g = ret (Relays (Shadowed s) t, count_request srv, ?g)"
    and s: "live_conn (sc_Conn s)" "reads_m payload s" "tc_accepted c_out (sc_Conn s) = c_out d" "c_fin (net_conn (sc_Conn s)) = c_fin d" "sc_w s = None" "sc_Cipher s = mc"
    by blast
  have ok: "sf_ok bl en (wd_salts ?g)" using CheckSalt_eq [OF assms(5), of salt] assms(6) by auto
  from relay_remote [OF assms(1) _ s(1,2,5) ok _ assms(11,12,14), where go_first = go_first and srv = "count_request srv"] assms(2,7,13) s(4,6)
  obtain s' g' t' where rel: "relay cr bl en buffer_Read conn_Read conn_Write late go_first (count_request srv) (Shadowed s) ?g t = ret (None, Shadowed s', g', t')"
    and s': "c_out t' = c_out t @ payload" "wrote cr ?salt (tc_accepted c_out (sc_Conn s)) (conn_content t) s'" "live_conn (sc_Conn s')" "sc_Cipher s' = mc"
    by auto
  from sess_out_carries [OF s'(2)] s'(4) assms(7) s(3) obtain bs where
    "tc_accepted c_out (sc_Conn s') = c_out d @ bs" "carries cr mc ?salt (conn_content t) bs"
    by auto
  with m rel s'(1,3) show ?thesis by (auto simp: server_handler_def)
qed

subsection \<open>The local side\<close>

interpretation flow_bytes: live_pump buffer_Read "\<lambda>b. b" "\<lambda>_. EOF" "\<lambda>_. True" length
  "timed_Write conn_Write" "tc_accepted c_out" "\<lambda>w. tcp_live_cork.live_ck F (tc_conn w)" for F
  by unfold_locales

lemma corked_accepted: "tc_accepted c_out (corked_conn fires c) = c_out c"
  by (simp add: tc_accepted_def corked_conn_def ck_accepted_def accepted_def waiting_def timedCork_def new_Writer_def)

lemma local_addr:
  assumes "crypto_ok cr" "cipher_made cr mc" "sf_ok bl en (wd_salts g)" "metaCipher_SaltSize mc \<le> length (wd_rand g)" "c_room up = None"
  defines "salt \<equiv> take (metaCipher_SaltSize mc) (wd_rand g)"
  shows "\<exists>s g'. shadow_Write cr bl en buffer_Read (timed_Write conn_Write) (StreamConn (aeadCipher mc) (corked_conn fires up), g) a =
      ret (ilen a, None, (Shadowed s, g')) \<and> AddSalt bl en (wd_salts g) salt = ret (wd_salts g') \<and> live_conn (sc_Conn s) \<and>
    only_written up (net_conn (sc_Conn s)) \<and> wrote cr salt (c_out up) a s \<and> sc_r s = None \<and> sc_Cipher s = mc"
proof -
  let ?c = "NewConn (corked_conn fires up) mc"
  have live: "tcp_live_cork.live_ck up (tc_conn (sc_Conn ?c))"
    using live_corked [OF assms(5), of fires] by (simp add: live_conn_def set_net_corked NewConn_def)
  from flow_bytes.copy_into_new [where F = up and c = ?c and s = a and cr = cr and bl = bl and en = en and g = g, OF TrueI live] assms(1-4)
  obtain s g' where
    r: "streamConn_ReadFrom cr bl en buffer_Read (timed_Write conn_Write) buffer_Read ?c g a = ret (ilen a, None, s, g', [])"
    and s: "AddSalt bl en (wd_salts g) salt = ret (wd_salts g')" "tcp_live_cork.live_ck up (tc_conn (sc_Conn s))" "wrote cr salt (c_out up) a s"
      "sc_r s = None" "sc_Cipher s = mc"
    by (auto simp: NewConn_def corked_accepted salt_def)
  have "shadow_Write cr bl en buffer_Read (timed_Write conn_Write) (StreamConn (aeadCipher mc) (corked_conn fires up), g) a = ret (ilen a, None, (Shadowed s, g'))"
    using r by (simp add: StreamConn_def shadow_Write_def Write_as_ReadFrom)
  with s live_written [OF s(2)] show ?thesis by blast
qed

lemma local_relays:
  assumes "crypto_ok cr" "cipher_made cr mc" "sf_ok bl en (wd_salts g)" "metaCipher_SaltSize mc \<le> length (wd_rand g)"
    and "c_room client = None" "conn_content client = [v, n] @ methods @ [v', CmdConnect, rsv] @ a @ payload"
    and "length methods = unat n" "addr_wf a" "dial (cf_RemoteServer (cf_Server (srv_Config srv))) = Inr up" "c_room up = None"
    and "AddSalt bl en (wd_salts g) (take (metaCipher_SaltSize mc) (wd_rand g)) = ret sf"
  shows "\<exists>c s g'. local_meet cr bl en buffer_Read conn_Read conn_Write fires udp addr dial (aeadCipher mc) srv client g = ret (Relays c (Shadowed s), g') \<and>
    c_room c = None \<and> conn_content c = payload \<and> c_fin c = c_fin client \<and> c_out c = c_out client @ [5, 0] @ [5, 0, 0, 1, 0, 0, 0, 0, 0, 0] \<and>
    wd_salts g' = sf \<and> live_conn (sc_Conn s) \<and> conn_content (net_conn (sc_Conn s)) = conn_content up \<and> c_fin (net_conn (sc_Conn s)) = c_fin up \<and>
    wrote cr (take (metaCipher_SaltSize mc) (wd_rand g)) (c_out up) a s \<and> sc_r s = None \<and> sc_Cipher s = mc"
proof -
  have "\<exists>d'. conn_Write d b = ret (ilen b, None, d')" if "c_room d = None" for d b
    using that by (simp add: conn_Write_def)
  from live_duplex.HandShake_request [where c = client and udp = udp and local = addr, OF TrueI assms(5) this assms(6-8)] obtain c where
    h: "HandShake conn_Read conn_Write udp addr client = ret ((Some a, None), c)"
    and c: "c_room c = None" "conn_content c = payload" "c_fin c = c_fin client" "c_out c = c_out client @ [5, 0] @ [5, 0, 0, 1, 0, 0, 0, 0, 0, 0]"
    by auto
  from local_addr [OF assms(1-4,10), where fires = fires and a = a] obtain s g' where
    w: "shadow_Write cr bl en buffer_Read (timed_Write conn_Write) (StreamConn (aeadCipher mc) (corked_conn fires up), g) a = ret (ilen a, None, (Shadowed s, g'))"
    and s: "wd_salts g' = sf" "live_conn (sc_Conn s)" "only_written up (net_conn (sc_Conn s))" "wrote cr (take (metaCipher_SaltSize mc) (wd_rand g)) (c_out up) a s" "sc_r s = None" "sc_Cipher s = mc"
    using assms(11) by auto
  have "local_meet cr bl en buffer_Read conn_Read conn_Write fires udp addr dial (aeadCipher mc) srv client g = ret (Relays c (Shadowed s), g')"
    using h w assms(9) by (simp add: local_meet_def Let_def)
  moreover have "conn_content (net_conn (sc_Conn s)) = conn_content up" "c_fin (net_conn (sc_Conn s)) = c_fin up"
    using s(3) by (simp_all add: only_written_def conn_content_def)
  ultimately show ?thesis using c s by blast
qed

lemma local_session:
  assumes "crypto_ok cr" "cipher_made cr mc" "sf_ok bl en (wd_salts g)" "metaCipher_SaltSize mc \<le> length (wd_rand g)"
    and "c_room client = None" "conn_content client = [v, n] @ methods @ [v', CmdConnect, rsv] @ a @ payload"
    and "length methods = unat n" "addr_wf a" "dial (cf_RemoteServer (cf_Server (srv_Config srv))) = Inr up" "c_room up = None"
    and "carries cr mc salt' reply (conn_content up)" "AddSalt bl en (wd_salts g) (take (metaCipher_SaltSize mc) (wd_rand g)) = ret sf"
    and "CheckSalt bl en sf salt' = ret (False, sf')" "in_time late"
    and "c_fin client \<in> {EOF, ErrDeadlineExceeded}" "c_fin up \<in> {EOF, ErrDeadlineExceeded}"
  shows "\<exists>c' s' g' bs. local_handler cr bl en buffer_Read conn_Read conn_Write late go_first fires udp addr dial (aeadCipher mc) srv client g =
      ret (Relayed None c' (Shadowed s'), g') \<and>
    c_out c' = c_out client @ [5, 0] @ [5, 0, 0, 1, 0, 0, 0, 0, 0, 0] @ reply \<and> live_conn (sc_Conn s') \<and>
    tc_accepted c_out (sc_Conn s') = c_out up @ bs \<and> carries cr mc (take (metaCipher_SaltSize mc) (wd_rand g)) (a @ payload) bs"
proof -
  let ?salt = "take (metaCipher_SaltSize mc) (wd_rand g)"
  from local_relays [where dial = dial and srv = srv and up = up and v = v and n = n and methods = methods and a = a and payload = payload,
      OF assms(1-10,12), where fires = fires and udp = udp and addr = addr] obtain c s g' where
    m: "local_meet cr bl en buffer_Read conn_Read conn_Write fires udp addr dial (aeadCipher mc) srv client g = ret (Relays c (Shadowed s), g')"
    and c: "c_room c = None" "conn_content c = payload" "c_fin c = c_fin client" "c_out c = c_out client @ [5, 0] @ [5, 0, 0, 1, 0, 0, 0, 0, 0, 0]"
    and s: "wd_salts g' = sf" "live_conn (sc_Conn s)" "conn_content (net_conn (sc_Conn s)) = conn_content up" "c_fin (net_conn (sc_Conn s)) = c_fin up"
      "wrote cr ?salt (c_out up) a s" "sc_r s = None" "sc_Cipher s = mc"
    by (elim exE conjE) (rule that)
  from relay_local [OF assms(1) _ s(2,5,6) _ _ c(1) assms(14), where salt' = salt' and reply = reply and bl = bl and en = en and g = g' and sf = sf'
      and go_first = go_first and srv = srv and rnd = buffer_Read] assms(2,11,13,15,16) s c(3)
  obtain s' g2 c' where rel: "relay cr bl en buffer_Read conn_Read conn_Write late go_first srv (Shadowed s) g' c = ret (None, Shadowed s', g2, c')"
    and s': "c_out c' = c_out c @ reply" "wrote cr ?salt (c_out up) (a @ conn_content c) s'" "live_conn (sc_Conn s')" "sc_Cipher s' = mc"
    by auto
  from sess_out_carries [OF s'(2)] s'(4) assms(4) c(2) obtain bs where
    "tc_accepted c_out (sc_Conn s') = c_out up @ bs" "carries cr mc ?salt (a @ payload) bs"
    by auto
  with m rel s'(1,3) c(4) show ?thesis by (auto simp: local_handler_def)
qed

end
