(* ===== verification/Server_Interleave.thy ===== *)
theory Server_Interleave
  imports Server_Tunnel
begin

text \<open>
  The two goroutines of \<^verbatim>\<open>Server.relay\<close> at a finer grain: each of them takes the salt exchange or one round of its loop as a step, and the
  steps interleave in every way.  The sequential relay that the handlers run is one of the schedules, whatever the peers do; between honest
  peers every schedule comes to an end, with the same result.
\<close>

subsection \<open>The machine\<close>

text \<open>Where the goroutine of \<^verbatim>\<open>io.Copy(right, left)\<close> and the caller's \<^verbatim>\<open>io.Copy(left, right)\<close> stand, with the bytes they have counted.\<close>

datatype right_pc = RStart | RLeftover int | RLoop int | REnd "goerr option"
datatype left_pc = LStart | LLoop int | LEnd "goerr option"

record ('f, 'g, 'c) relay_run =
  rr_left :: "'c timedConn streamConn"
  rr_world :: "('f, 'g) world"
  rr_right :: 'c
  rr_rpc :: right_pc
  rr_lpc :: left_pc

definition relay_begin :: "'c timedConn streamConn \<Rightarrow> ('f, 'g) world \<Rightarrow> 'c \<Rightarrow> ('f, 'g, 'c) relay_run" where
  "relay_begin s g r = \<lparr>rr_left = s, rr_world = g, rr_right = r, rr_rpc = RStart, rr_lpc = LStart\<rparr>"

text \<open>A copy that is over sets the deadline of the other one's source.\<close>

definition right_over :: "(duration \<Rightarrow> 'c \<Rightarrow> 'c) \<Rightarrow> 'l Server \<Rightarrow> goerr option \<Rightarrow> ('f, 'g, 'c) relay_run \<Rightarrow> ('f, 'g, 'c) relay_run" where
  "right_over late srv err x = x\<lparr>rr_right := unblock late srv (rr_right x), rr_rpc := REnd err\<rparr>"

definition left_over :: "(duration \<Rightarrow> 'c \<Rightarrow> 'c) \<Rightarrow> 'l Server \<Rightarrow> goerr option \<Rightarrow> ('f, 'g, 'c) relay_run \<Rightarrow> ('f, 'g, 'c) relay_run" where
  "left_over late srv err x = x\<lparr>rr_left := unblock_sess late srv (rr_left x), rr_lpc := LEnd err\<rparr>"

definition step_right :: "crypto \<Rightarrow> 'f bloom \<Rightarrow> env \<Rightarrow> 'c reader_fn \<Rightarrow> 'c writer_fn \<Rightarrow> (duration \<Rightarrow> 'c \<Rightarrow> 'c) \<Rightarrow> 'l Server \<Rightarrow>
    ('f, 'g, 'c) relay_run \<Rightarrow> ('f, 'g, 'c) relay_run go" where
  "step_right cr bl en rd wr late srv x =
     (let moved = (\<lambda>pc (q, r, w).
            let x = x\<lparr>rr_left := (rr_left x)\<lparr>sc_Conn := r_Reader r, sc_r := Some r\<rparr>, rr_right := w\<rparr> in
            case q of Inl (_, err) \<Rightarrow> right_over late srv err x | Inr n \<Rightarrow> x\<lparr>rr_rpc := pc n\<rparr>) in
      case rr_rpc x of
        RStart \<Rightarrow>
          gobind (streamConn_needReader cr bl en (timed_Read rd) (rr_left x) (rr_world x)) (\<lambda>(err, s, g).
          let x = x\<lparr>rr_left := s, rr_world := g\<rparr> in
          ret (if err \<noteq> None then right_over late srv err x else x\<lparr>rr_rpc := RLeftover 0\<rparr>))
      | RLeftover n \<Rightarrow>
          gobind (sc_reader (rr_left x)) (\<lambda>r.
          if r_leftover r = [] then ret (x\<lparr>rr_rpc := RLoop n\<rparr>)
          else gobind (leftover_round wr r (rr_right x) n) (\<lambda>y. ret (moved RLeftover y)))
      | RLoop n \<Rightarrow>
          gobind (sc_reader (rr_left x)) (\<lambda>r.
          gobind (reader_round (timed_Read rd) wr r (rr_right x) n) (\<lambda>y. ret (moved RLoop y)))
      | REnd _ \<Rightarrow> ret x)"

definition step_left :: "crypto \<Rightarrow> 'f bloom \<Rightarrow> env \<Rightarrow> 'g reader_fn \<Rightarrow> 'c reader_fn \<Rightarrow> 'c writer_fn \<Rightarrow> (duration \<Rightarrow> 'c \<Rightarrow> 'c) \<Rightarrow> 'l Server \<Rightarrow>
    ('f, 'g, 'c) relay_run \<Rightarrow> ('f, 'g, 'c) relay_run go" where
  "step_left cr bl en rnd rd wr late srv x =
     (case rr_lpc x of
        LStart \<Rightarrow>
          gobind (streamConn_needWriter cr bl en rnd (timed_Write wr) (rr_left x) (rr_world x)) (\<lambda>(err, s, g).
          let x = x\<lparr>rr_left := s, rr_world := g\<rparr> in
          ret (if err \<noteq> None then left_over late srv err x else x\<lparr>rr_lpc := LLoop 0\<rparr>))
      | LLoop n \<Rightarrow>
          gobind (sc_writer (rr_left x)) (\<lambda>w.
          gobind (writer_round (timed_Write wr) rd w (rr_right x) n) (\<lambda>(q, w, r).
          let x = x\<lparr>rr_left := (rr_left x)\<lparr>sc_Conn := w_Writer w, sc_w := Some w\<rparr>, rr_right := r\<rparr> in
          ret (case q of Inl (_, err) \<Rightarrow> left_over late srv err x | Inr n \<Rightarrow> x\<lparr>rr_lpc := LLoop n\<rparr>)))
      | LEnd _ \<Rightarrow> ret x)"

inductive relay_turn :: "crypto \<Rightarrow> 'f bloom \<Rightarrow> env \<Rightarrow> 'g reader_fn \<Rightarrow> 'c reader_fn \<Rightarrow> 'c writer_fn \<Rightarrow> (duration \<Rightarrow> 'c \<Rightarrow> 'c) \<Rightarrow> 'l Server \<Rightarrow>
    ('f, 'g, 'c) relay_run \<Rightarrow> ('f, 'g, 'c) relay_run \<Rightarrow> bool"
  for cr bl en rnd rd wr late srv where
  turn_right: "\<forall>e. rr_rpc x \<noteq> REnd e \<Longrightarrow> step_right cr bl en rd wr late srv x = ret y \<Longrightarrow> relay_turn cr bl en rnd rd wr late srv x y"
| turn_left: "\<forall>e. rr_lpc x \<noteq> LEnd e \<Longrightarrow> step_left cr bl en rnd rd wr late srv x = ret y \<Longrightarrow> relay_turn cr bl en rnd rd wr late srv x y"

subsection \<open>One round of each copy\<close>

lemma reads_here:
  assumes "sess_in (\<lambda>w. conn_content (net_conn w)) (\<lambda>w. c_fin (net_conn w)) (tcp_framed.framed F W) m s"
  shows "reads_m m s"
  using sess_in_conn [OF assms, of "sc_Conn s" "tcp_framed.framed (net_conn (sc_Conn s)) (sc_Conn s)"] framed_self by simp

lemma reader_conn: "sc_reader s = ret (session_reader s)" if "sc_r s \<noteq> None"
  using that by (auto simp: sc_reader_def session_reader_def)

lemma right_round:
  assumes "reads_m m s" "r_leftover (session_reader s) = []" "c_room r = None"
  shows "\<exists>q p x r' rest. reader_round (timed_Read conn_Read) conn_Write (session_reader s) r n = ret (q, x, r') \<and>
    given p s r (s\<lparr>sc_Conn := r_Reader x, sc_r := Some x\<rparr>) r' \<and> reads_m rest (s\<lparr>sc_Conn := r_Reader x, sc_r := Some x\<rparr>) \<and> m = p @ rest \<and> r_leftover x = [] \<and>
    (case q of Inl (_, err) \<Rightarrow> rest = [] \<and> err = end_err (c_fin (net_conn (sc_Conn s)))
     | Inr _ \<Rightarrow> length (conn_content (net_conn (r_Reader x))) < length (conn_content (net_conn (sc_Conn s))))"
proof -
  have g: "sr_good (\<lambda>w. conn_content (net_conn w)) (\<lambda>w. c_fin (net_conn w)) (tcp_framed.framed (net_conn (sc_Conn s)) (sc_Conn s)) (session_reader s)"
    and m: "sr_content (\<lambda>w. conn_content (net_conn w)) (\<lambda>w. c_fin (net_conn w)) (session_reader s) = m"
    using assms(1) by (simp_all add: sess_in_def)
  have rc: "r_Reader (session_reader s) = sc_Conn s" by (simp add: session_reader_def)
  from flow_out.reader_round_spec [OF g assms(2) only_refl(2) [OF assms(3)], of n] obtain q p x r' where
    x: "reader_round (timed_Read conn_Read) conn_Write (session_reader s) r n = ret (q, x, r')"
      "sr_good (\<lambda>w. conn_content (net_conn w)) (\<lambda>w. c_fin (net_conn w)) (tcp_framed.framed (net_conn (sc_Conn s)) (sc_Conn s)) x" "r_leftover x = []"
    and o: "only_written r r'" "c_out r' = c_out r @ p" "m = p @ sr_content (\<lambda>w. conn_content (net_conn w)) (\<lambda>w. c_fin (net_conn w)) x"
    and q: "case q of Inl (n', err) \<Rightarrow> sr_content (\<lambda>w. conn_content (net_conn w)) (\<lambda>w. c_fin (net_conn w)) x = [] \<and> err = end_err (c_fin (net_conn (sc_Conn s)))
     | Inr n' \<Rightarrow> length (conn_content (net_conn (r_Reader x))) < length (conn_content (net_conn (sc_Conn s)))"
    unfolding m rc by (elim exE conjE) (rule that)
  let ?s = "s\<lparr>sc_Conn := r_Reader x, sc_r := Some x\<rparr>"
  have sx: "session_reader ?s = x" by (simp add: session_reader_def)
  have "sess_in (\<lambda>w. conn_content (net_conn w)) (\<lambda>w. c_fin (net_conn w)) (tcp_framed.framed (net_conn (sc_Conn s)) (sc_Conn s))
      (sr_content (\<lambda>w. conn_content (net_conn w)) (\<lambda>w. c_fin (net_conn w)) x) ?s"
    using x(2) sx by (simp add: sess_in_def)
  from reads_here [OF this] have "reads_m (sr_content (\<lambda>w. conn_content (net_conn w)) (\<lambda>w. c_fin (net_conn w)) x) ?s" .
  moreover have "given p s r ?s r'"
    using o(1,2) x(2) framed_given [of "sc_Conn s" "r_Reader x"] by (simp add: given_def sr_good_def)
  ultimately show ?thesis using x(1,3) o(3) q by (intro exI [of _ q] exI [of _ p] exI [of _ x] exI [of _ r'] exI) auto
qed

lemma left_round:
  assumes "live_conn (sc_Conn s)" "wrote cr salt base m s" "sc_w s = Some w"
  shows "\<exists>q p x r'. writer_round (timed_Write conn_Write) conn_Read (w\<lparr>w_Writer := sc_Conn s\<rparr>) r n = ret (q, x, r') \<and>
    taken_from p s r (s\<lparr>sc_Conn := w_Writer x, sc_w := Some x\<rparr>) r' \<and> wrote cr salt base (m @ p) (s\<lparr>sc_Conn := w_Writer x, sc_w := Some x\<rparr>) \<and>
    (case q of Inl (_, err) \<Rightarrow> conn_content r' = [] \<and> err = end_err (c_fin r) | Inr _ \<Rightarrow> conn_left r' < conn_left r)"
proof -
  let ?w = "w\<lparr>w_Writer := sc_Conn s\<rparr>"
  have wf: "tcp_live_cork.live_ck (net_conn (sc_Conn s)) (tc_conn (w_Writer ?w))" "sw_wf ?w"
    using assms by (auto simp: live_conn_def sess_out_def)
  from flow_in.writer_round_spec [OF only_refl(1) wf, of r n] obtain q ps x r' where
    x: "writer_round (timed_Write conn_Write) conn_Read ?w r n = ret (q, x, r')" "only_read r r'"
      "tcp_live_cork.live_ck (net_conn (sc_Conn s)) (tc_conn (w_Writer x))" "sealed_run conn_content (tc_accepted c_out) ?w r ps [] x r'"
      "case q of Inl (n', err) \<Rightarrow> conn_content r' = [] \<and> err = end_err (c_fin r) | Inr n' \<Rightarrow> conn_left r' < conn_left r"
    by (elim exE conjE) (rule that)
  have "conn_content r = concat ps @ conn_content r'" using x(4) by (simp add: sealed_run_def)
  with x(2) live_written [OF x(3)] have "taken_from (concat ps) s r (s\<lparr>sc_Conn := w_Writer x, sc_w := Some x\<rparr>) r'"
    by (simp add: taken_from_def)
  with x(1,5) sess_out_run [OF assms(2,3) x(4)] show ?thesis
    by (intro exI [of _ q] exI [of _ "concat ps"] exI [of _ x] exI [of _ r']) simp
qed

subsection \<open>The salt exchanges\<close>

lemma open_right:
  assumes "crypto_ok cr" "cipher_made cr (sc_Cipher s)" "sc_r s = None" "carries cr (sc_Cipher s) salt m (conn_content (net_conn (sc_Conn s)))"
    and "CheckSalt bl en (wd_salts g) salt = ret (False, sf)" "c_room r = None"
  shows "\<exists>s'. streamConn_initReader cr bl en (timed_Read conn_Read) s g = ret (None, s', g\<lparr>wd_salts := sf\<rparr>) \<and> reads_m m s' \<and> given [] s r s' r"
proof -
  from flow_session.open_reader [OF framed_self assms(1-5)] obtain s1 where
    i: "streamConn_initReader cr bl en (timed_Read conn_Read) s g = ret (None, s1, g\<lparr>wd_salts := sf\<rparr>)"
    and f: "tcp_framed.framed (net_conn (sc_Conn s)) (sc_Conn s) (sc_Conn s1)"
    and s1: "sess_in (\<lambda>w. conn_content (net_conn w)) (\<lambda>w. c_fin (net_conn w)) (tcp_framed.framed (net_conn (sc_Conn s)) (sc_Conn s)) m s1"
      "sc_w s1 = sc_w s" "sc_Cipher s1 = sc_Cipher s"
    by (elim exE conjE) (rule that)
  with reads_here [OF s1(1)] framed_given [OF f] only_refl(2) [OF assms(6)] show ?thesis
    by (intro exI [of _ s1]) (simp add: given_def)
qed

lemma open_left:
  assumes "live_conn (sc_Conn s)" "crypto_ok cr" "cipher_made cr (sc_Cipher s)" "sf_ok bl en (wd_salts g)"
    and "metaCipher_SaltSize (sc_Cipher s) \<le> length (wd_rand g)"
  shows "\<exists>s' g'. streamConn_initWriter cr bl en buffer_Read (timed_Write conn_Write) s g = ret (None, s', g') \<and> taken_from [] s r s' r \<and>
    wrote cr (take (metaCipher_SaltSize (sc_Cipher s)) (wd_rand g)) (tc_accepted c_out (sc_Conn s)) [] s'"
proof -
  from live_sink.open_writer [OF tcp_live_cork.tlive.live_sink_axioms [where F = "net_conn (sc_Conn s)"] assms(2-5)] assms(1) obtain s' g' where
    "streamConn_initWriter cr bl en buffer_Read (timed_Write conn_Write) s g = ret (None, s', g')"
    "tcp_live_cork.live_ck (net_conn (sc_Conn s)) (tc_conn (sc_Conn s'))"
    "wrote cr (take (metaCipher_SaltSize (sc_Cipher s)) (wd_rand g)) (tc_accepted c_out (sc_Conn s)) [] s'" "sc_r s' = sc_r s" "sc_Cipher s' = sc_Cipher s"
    unfolding live_conn_def by blast
  with live_written [OF this(2)] only_refl(1) [of r] show ?thesis
    by (intro exI [of _ s'] exI [of _ g']) (simp add: taken_from_def)
qed

subsection \<open>The invariant\<close>

text \<open>The bytes \<open>m\<close> come out of the session, which may not have taken its peer's salt yet.\<close>

definition arrives :: "crypto \<Rightarrow> 'f bloom \<Rightarrow> env \<Rightarrow> bytes \<Rightarrow> conn timedConn streamConn \<Rightarrow> ('f, 'g) world \<Rightarrow> bool" where
  "arrives cr bl en m s g \<longleftrightarrow>
     (sc_r s = None \<and> (\<exists>salt sf. carries cr (sc_Cipher s) salt m (conn_content (net_conn (sc_Conn s))) \<and> CheckSalt bl en (wd_salts g) salt = ret (False, sf))) \<or>
     reads_m m s"

text \<open>The bytes \<open>m\<close> went into the session, behind \<open>base\<close> and under \<open>salt\<close>, which may not have been sent yet.\<close>

definition departs :: "crypto \<Rightarrow> 'f bloom \<Rightarrow> env \<Rightarrow> bytes \<Rightarrow> bytes \<Rightarrow> bytes \<Rightarrow> conn timedConn streamConn \<Rightarrow> ('f, bytes) world \<Rightarrow> bool" where
  "departs cr bl en salt base m s g \<longleftrightarrow>
     (sc_w s = None \<and> m = [] \<and> tc_accepted c_out (sc_Conn s) = base \<and> salt = take (metaCipher_SaltSize (sc_Cipher s)) (wd_rand g) \<and>
      metaCipher_SaltSize (sc_Cipher s) \<le> length (wd_rand g) \<and> sf_ok bl en (wd_salts g)) \<or>
     wrote cr salt base m s"

definition right_inv :: "crypto \<Rightarrow> 'f bloom \<Rightarrow> env \<Rightarrow> bytes \<Rightarrow> bytes \<Rightarrow> ('f, bytes, conn) relay_run \<Rightarrow> bool" where
  "right_inv cr bl en out m x =
     (case rr_rpc x of
        RStart \<Rightarrow> c_out (rr_right x) = out \<and> arrives cr bl en m (rr_left x) (rr_world x)
      | RLeftover n \<Rightarrow> \<exists>p rest. c_out (rr_right x) = out @ p \<and> reads_m rest (rr_left x) \<and> m = p @ rest
      | RLoop n \<Rightarrow> (\<exists>p rest. c_out (rr_right x) = out @ p \<and> reads_m rest (rr_left x) \<and> m = p @ rest) \<and> r_leftover (session_reader (rr_left x)) = []
      | REnd e \<Rightarrow> c_out (rr_right x) = out @ m \<and> e \<in> {None, Some ErrDeadlineExceeded})"

definition left_inv :: "crypto \<Rightarrow> 'f bloom \<Rightarrow> env \<Rightarrow> bytes \<Rightarrow> bytes \<Rightarrow> bytes \<Rightarrow> ('f, bytes, conn) relay_run \<Rightarrow> bool" where
  "left_inv cr bl en salt base m x =
     (case rr_lpc x of
        LStart \<Rightarrow> \<exists>p. departs cr bl en salt base p (rr_left x) (rr_world x) \<and> m = p @ conn_content (rr_right x)
      | LLoop n \<Rightarrow> \<exists>p. wrote cr salt base p (rr_left x) \<and> m = p @ conn_content (rr_right x)
      | LEnd e \<Rightarrow> wrote cr salt base m (rr_left x) \<and> e \<in> {None, Some ErrDeadlineExceeded})"

definition conns_inv :: "crypto \<Rightarrow> metaCipher \<Rightarrow> ('f, bytes, conn) relay_run \<Rightarrow> bool" where
  "conns_inv cr mc x \<longleftrightarrow> live_conn (sc_Conn (rr_left x)) \<and> sc_Cipher (rr_left x) = mc \<and> c_room (rr_right x) = None \<and>
     c_fin (rr_right x) \<in> {EOF, ErrDeadlineExceeded} \<and> c_fin (net_conn (sc_Conn (rr_left x))) \<in> {EOF, ErrDeadlineExceeded} \<and>
     (sc_r (rr_left x) = None \<longrightarrow> sc_w (rr_left x) \<noteq> None)"

lemma end_err_in: "e \<in> {EOF, ErrDeadlineExceeded} \<Longrightarrow> end_err e \<in> {None, Some ErrDeadlineExceeded}"
  by (auto simp: end_err_def)

subsection \<open>What a step of one goroutine keeps of the other one\<close>

lemma wrote_w: "wrote cr salt base m s \<Longrightarrow> sc_w s \<noteq> None"
  by (auto simp: sess_out_def)

lemma reads_r: "reads_m m s \<Longrightarrow> sc_r s \<noteq> None"
  by (simp add: sess_in_def)

lemma left_inv_given:
  assumes "left_inv cr bl en salt base m x" "given p (rr_left x) (rr_right x) (rr_left y) (rr_right y)"
    and "rr_world y = rr_world x \<or> sc_w (rr_left x) \<noteq> None" "rr_lpc y = rr_lpc x"
  shows "left_inv cr bl en salt base m y"
proof -
  note k = given_keeps [OF assms(2)]
  have s: "sc_w (rr_left y) = sc_w (rr_left x)" "sc_Cipher (rr_left y) = sc_Cipher (rr_left x)" using assms(2) by (simp_all add: given_def)
  have "departs cr bl en salt base q (rr_left x) (rr_world x) \<Longrightarrow> departs cr bl en salt base q (rr_left y) (rr_world y)" for q
    using assms(3) s k(1) [of cr salt base q] k(3) by (auto simp: departs_def)
  with assms(1,4) k(1) [of cr salt base] k(4) show ?thesis by (auto simp: left_inv_def split: left_pc.splits)
qed

lemma right_inv_taken:
  assumes "right_inv cr bl en out m x" "taken_from p (rr_left x) (rr_right x) (rr_left y) (rr_right y)"
    and "rr_world y = rr_world x \<or> sc_r (rr_left x) \<noteq> None" "rr_rpc y = rr_rpc x"
  shows "right_inv cr bl en out m y"
proof -
  note k = taken_keeps [OF assms(2)]
  have s: "sc_r (rr_left y) = sc_r (rr_left x)" "sc_Cipher (rr_left y) = sc_Cipher (rr_left x)" using assms(2) by (simp_all add: taken_from_def)
  have rd: "reads_m q (rr_left x) \<Longrightarrow> reads_m q (rr_left y)" for q by (rule reads_moved [OF _ s(1) k(1)])
  have "arrives cr bl en q (rr_left x) (rr_world x) \<Longrightarrow> arrives cr bl en q (rr_left y) (rr_world y)" for q
    using assms(3) s k(1) rd [of q] by (auto simp: arrives_def)
  moreover have "r_leftover (session_reader (rr_left y)) = r_leftover (session_reader (rr_left x))" using s(1) by (simp add: session_reader_def)
  ultimately show ?thesis using assms(1,4) k(3) rd by (auto simp: right_inv_def split: right_pc.splits)
qed

lemma conns_inv_given:
  assumes "conns_inv cr mc x" "given p (rr_left x) (rr_right x) (rr_left y) (rr_right y)" "sc_r (rr_left y) \<noteq> None"
  shows "conns_inv cr mc y"
proof -
  note k = given_keeps [OF assms(2)]
  from assms(2) obtain v where v: "sc_Conn (rr_left y) = set_net v (sc_Conn (rr_left x))" "only_read (net_conn (sc_Conn (rr_left x))) v"
    and s: "sc_Cipher (rr_left y) = sc_Cipher (rr_left x)" by (auto simp: given_def)
  have "c_fin (net_conn (sc_Conn (rr_left y))) = c_fin (net_conn (sc_Conn (rr_left x)))" using only_read_fields [OF v(2)] by (simp add: v(1))
  with assms(1,3) k(2,5,6) s show ?thesis by (auto simp: conns_inv_def)
qed

lemma conns_inv_taken:
  assumes "conns_inv cr mc x" "taken_from p (rr_left x) (rr_right x) (rr_left y) (rr_right y)" "sc_w (rr_left y) \<noteq> None"
  shows "conns_inv cr mc y"
  using assms taken_keeps [OF assms(2)] by (auto simp: conns_inv_def taken_from_def)

text \<open>The deadline that a finished copy sets keeps all of it.\<close>

lemma right_over_inv:
  assumes "in_time late" "left_inv cr bl en salt base m x" "conns_inv cr mc x"
  shows "left_inv cr bl en salt base m (right_over late srv e x)" "conns_inv cr mc (right_over late srv e x)"
  using unblock_in_time [OF assms(1), where srv = srv and c = "rr_right x"] assms(2,3)
  by (auto simp: right_over_def left_inv_def conns_inv_def split: left_pc.splits)

lemma left_over_inv:
  assumes "in_time late" "right_inv cr bl en out m x" "conns_inv cr mc x"
  shows "right_inv cr bl en out m (left_over late srv e x)" "conns_inv cr mc (left_over late srv e x)"
proof -
  note k = unblock_sess_keeps [OF assms(1), where s = "rr_left x" and srv = srv]
  have rd: "reads_m q (rr_left x) \<Longrightarrow> reads_m q (unblock_sess late srv (rr_left x))" for q by (rule reads_moved [OF _ k(4,1)])
  have lo: "r_leftover (session_reader (unblock_sess late srv (rr_left x))) = r_leftover (session_reader (rr_left x))"
    using k(4) by (simp add: session_reader_def)
  have "arrives cr bl en q (rr_left x) g \<Longrightarrow> arrives cr bl en q (unblock_sess late srv (rr_left x)) g" for q g
    using k(1,4,5) rd [of q] by (auto simp: arrives_def)
  then show "right_inv cr bl en out m (left_over late srv e x)"
    using assms(2) rd lo by (auto simp: right_inv_def left_over_def split: right_pc.splits)
  have "sc_w (unblock_sess late srv (rr_left x)) = sc_w (rr_left x)" by (simp add: unblock_sess_def)
  then show "conns_inv cr mc (left_over late srv e x)" using assms(3) k(3-6) by (auto simp: conns_inv_def left_over_def)
qed

subsection \<open>Steps\<close>

text \<open>Every step brings its goroutine nearer to its end.\<close>

definition right_rank :: "('f, 'g, 'c) relay_run \<Rightarrow> nat" where
  "right_rank x = (case rr_rpc x of RStart \<Rightarrow> 3 | RLeftover n \<Rightarrow> 2 | RLoop n \<Rightarrow> 1 | REnd e \<Rightarrow> 0)"

definition right_todo :: "('f, 'g, conn) relay_run \<Rightarrow> nat" where
  "right_todo x = length (r_leftover (session_reader (rr_left x))) + length (conn_content (net_conn (sc_Conn (rr_left x))))"

definition left_rank :: "('f, 'g, 'c) relay_run \<Rightarrow> nat" where
  "left_rank x = (case rr_lpc x of LStart \<Rightarrow> 2 | LLoop n \<Rightarrow> 1 | LEnd e \<Rightarrow> 0)"

definition right_nearer :: "('f, 'g, conn) relay_run \<Rightarrow> ('f, 'g, conn) relay_run \<Rightarrow> bool" where
  "right_nearer y x \<longleftrightarrow> right_rank y < right_rank x \<or> right_rank y = right_rank x \<and> right_todo y < right_todo x"

definition left_nearer :: "('f, 'g, conn) relay_run \<Rightarrow> ('f, 'g, conn) relay_run \<Rightarrow> bool" where
  "left_nearer y x \<longleftrightarrow> right_rank y = right_rank x \<and> right_todo y = right_todo x \<and>
     (left_rank y < left_rank x \<or> left_rank y = left_rank x \<and> conn_left (rr_right y) < conn_left (rr_right x))"

definition relay_inv :: "crypto \<Rightarrow> metaCipher \<Rightarrow> 'f bloom \<Rightarrow> env \<Rightarrow> bytes \<Rightarrow> bytes \<Rightarrow> bytes \<Rightarrow> bytes \<Rightarrow> bytes \<Rightarrow> ('f, bytes, conn) relay_run \<Rightarrow> bool" where
  "relay_inv cr mc bl en out m salt base m' x \<longleftrightarrow> conns_inv cr mc x \<and> right_inv cr bl en out m x \<and> left_inv cr bl en salt base m' x"

text \<open>A step of the goroutine that copies to the right, which may have been its last.\<close>

lemma right_goes_on:
  assumes "relay_inv cr mc bl en out m salt base m' x" "given p (rr_left x) (rr_right x) (rr_left y) (rr_right y)" "sc_r (rr_left y) \<noteq> None"
    and "rr_world y = rr_world x \<or> sc_w (rr_left x) \<noteq> None" "rr_lpc y = rr_lpc x" "right_inv cr bl en out m y"
  shows "relay_inv cr mc bl en out m salt base m' y"
  using assms conns_inv_given [of cr mc x p y] left_inv_given [of cr bl en salt base m' x p y] by (simp add: relay_inv_def)

lemma right_ends:
  assumes "relay_inv cr mc bl en out m salt base m' x" "given p (rr_left x) (rr_right x) (rr_left y) (rr_right y)" "sc_r (rr_left y) \<noteq> None"
    and "rr_world y = rr_world x" "rr_lpc y = rr_lpc x" "in_time late" "c_out (rr_right y) = out @ m" "e \<in> {None, Some ErrDeadlineExceeded}"
  shows "relay_inv cr mc bl en out m salt base m' (right_over late srv e y)"
proof -
  have "conns_inv cr mc y" "left_inv cr bl en salt base m' y"
    using assms conns_inv_given [of cr mc x p y] left_inv_given [of cr bl en salt base m' x p y] by (simp_all add: relay_inv_def)
  from right_over_inv [OF assms(6) this(2,1), where srv = srv and e = e] show ?thesis
    using unblock_in_time(2) [OF assms(6), where srv = srv and c = "rr_right y"] assms(7,8)
    by (simp add: relay_inv_def right_inv_def right_over_def)
qed

lemma step_right_RStart:
  assumes "crypto_ok cr" "cipher_made cr mc" "relay_inv cr mc bl en out m salt base m' x" "rr_rpc x = RStart"
  shows "\<exists>y. step_right cr bl en conn_Read conn_Write late srv x = ret y \<and> relay_inv cr mc bl en out m salt base m' y \<and> right_nearer y x"
proof -
  let ?s = "rr_left x" and ?g = "rr_world x" and ?r = "rr_right x"
  have c: "conns_inv cr mc x" and out: "c_out ?r = out" and a: "arrives cr bl en m ?s ?g"
    using assms(3,4) by (simp_all add: relay_inv_def right_inv_def)
  have room: "c_room ?r = None" and mc: "sc_Cipher ?s = mc" using c by (simp_all add: conns_inv_def)
  have "\<exists>s' g'. streamConn_needReader cr bl en (timed_Read conn_Read) ?s ?g = ret (None, s', g') \<and> reads_m m s' \<and> given [] ?s ?r s' ?r \<and>
      (g' = ?g \<or> sc_w ?s \<noteq> None)"
  proof (cases "sc_r ?s")
    case None
    with a reads_r [of ?s m] obtain salt2 sf where "carries cr (sc_Cipher ?s) salt2 m (conn_content (net_conn (sc_Conn ?s)))" "CheckSalt bl en (wd_salts ?g) salt2 = ret (False, sf)"
      by (auto simp: arrives_def)
    from open_right [OF assms(1) _ None this room] assms(2) mc None c show ?thesis by (auto simp: streamConn_needReader_def conns_inv_def)
  next
    case (Some r)
    have "given [] ?s ?r ?s ?r" using only_refl room by (auto simp: given_def intro: exI [of _ "net_conn (sc_Conn ?s)"])
    with Some a show ?thesis by (auto simp: streamConn_needReader_def arrives_def)
  qed
  then obtain s' g' where s': "streamConn_needReader cr bl en (timed_Read conn_Read) ?s ?g = ret (None, s', g')" "reads_m m s'" "given [] ?s ?r s' ?r"
      "g' = ?g \<or> sc_w ?s \<noteq> None"
    by blast
  let ?y = "x\<lparr>rr_left := s', rr_world := g', rr_rpc := RLeftover 0\<rparr>"
  have "right_inv cr bl en out m ?y" using out s'(2) by (auto simp: right_inv_def)
  then have "relay_inv cr mc bl en out m salt base m' ?y"
    by (rule right_goes_on [OF assms(3), where p = "[]", rotated -1]) (use s' reads_r [OF s'(2)] in simp_all)
  moreover have "right_nearer ?y x" using assms(4) by (simp add: right_nearer_def right_rank_def)
  moreover have "step_right cr bl en conn_Read conn_Write late srv x = ret ?y" using s'(1) assms(4) by (simp add: step_right_def)
  ultimately show ?thesis by blast
qed

lemma given_self: "c_room r = None \<Longrightarrow> given [] s r s r"
  using only_refl by (auto simp: given_def intro: exI [of _ "net_conn (sc_Conn s)"])

lemma session_reader_set [simp]: "session_reader (s\<lparr>sc_Conn := r_Reader r, sc_r := Some r\<rparr>) = r"
  by (simp add: session_reader_def)

lemma step_right_RLeftover:
  assumes "relay_inv cr mc bl en out m salt base m' x" "rr_rpc x = RLeftover n"
  shows "\<exists>y. step_right cr bl en conn_Read conn_Write late srv x = ret y \<and> relay_inv cr mc bl en out m salt base m' y \<and> right_nearer y x"
proof -
  let ?s = "rr_left x" and ?r = "rr_right x"
  from assms obtain p rest where i: "c_out ?r = out @ p" "reads_m rest ?s" "m = p @ rest"
    by (auto simp: relay_inv_def right_inv_def)
  have room: "c_room ?r = None" using assms(1) by (simp add: relay_inv_def conns_inv_def)
  note rd = reads_r [OF i(2)]
  let ?l = "r_leftover (session_reader ?s)"
  show ?thesis
  proof (cases "?l = []")
    case True
    let ?y = "x\<lparr>rr_rpc := RLoop n\<rparr>"
    have "right_inv cr bl en out m ?y" using i True by (auto simp: right_inv_def)
    then have "relay_inv cr mc bl en out m salt base m' ?y"
      by (rule right_goes_on [OF assms(1), where p = "[]", rotated -1]) (use given_self [OF room] rd in simp_all)
    moreover have "right_nearer ?y x" using assms(2) by (simp add: right_nearer_def right_rank_def)
    moreover have "step_right cr bl en conn_Read conn_Write late srv x = ret ?y"
      using True assms(2) reader_conn [OF rd] by (simp add: step_right_def)
    ultimately show ?thesis by blast
  next
    case False
    let ?x = "(session_reader ?s)\<lparr>r_leftover := []\<rparr>"
    let ?s' = "?s\<lparr>sc_Conn := r_Reader ?x, sc_r := Some ?x\<rparr>"
    from flow_out.leftover_round_spec [OF only_refl(2) [OF room], of "session_reader ?s" n] obtain r' where
      r': "leftover_round conn_Write (session_reader ?s) ?r n = ret (Inr (n + ilen ?l), ?x, r')" "only_written ?r r'" "c_out r' = c_out ?r @ ?l"
      by blast
    let ?y = "x\<lparr>rr_left := ?s', rr_right := r', rr_rpc := RLeftover (n + ilen ?l)\<rparr>"
    have conn: "sc_Conn ?s' = sc_Conn ?s" by (simp add: session_reader_def)
    have g: "given ?l ?s ?r ?s' r'"
      using r'(2,3) only_refl(1) conn by (auto simp: given_def session_reader_def intro: exI [of _ "net_conn (sc_Conn ?s)"])
    have rest: "rest = ?l @ concat (fst (sr_decode (\<lambda>w. conn_content (net_conn w)) (\<lambda>w. c_fin (net_conn w)) (session_reader ?s)))"
      using i(2) by (simp add: sess_in_def sr_content_def)
    have "reads_m (concat (fst (sr_decode (\<lambda>w. conn_content (net_conn w)) (\<lambda>w. c_fin (net_conn w)) (session_reader ?s)))) ?s'"
      using i(2) unfolding sess_in_def session_reader_set conn by (simp add: sr_content_def sr_good_def)
    with i(1,3) r'(3) rest have "right_inv cr bl en out m ?y" by (auto simp: right_inv_def)
    then have "relay_inv cr mc bl en out m salt base m' ?y"
      by (rule right_goes_on [OF assms(1), where p = ?l, rotated -1]) (use g in simp_all)
    moreover have "right_nearer ?y x"
      using False assms(2) conn by (simp add: right_nearer_def right_rank_def right_todo_def) (simp add: session_reader_def)
    moreover have "step_right cr bl en conn_Read conn_Write late srv x = ret ?y"
      using False assms(2) reader_conn [OF rd] r'(1) by (simp add: step_right_def)
    ultimately show ?thesis by blast
  qed
qed

lemma step_right_RLoop:
  assumes "in_time late" "relay_inv cr mc bl en out m salt base m' x" "rr_rpc x = RLoop n"
  shows "\<exists>y. step_right cr bl en conn_Read conn_Write late srv x = ret y \<and> relay_inv cr mc bl en out m salt base m' y \<and> right_nearer y x"
proof -
  let ?s = "rr_left x" and ?r = "rr_right x"
  from assms(2,3) obtain p rest where i: "c_out ?r = out @ p" "reads_m rest ?s" "m = p @ rest" and lo: "r_leftover (session_reader ?s) = []"
    by (auto simp: relay_inv_def right_inv_def)
  have room: "c_room ?r = None" and fin: "c_fin (net_conn (sc_Conn ?s)) \<in> {EOF, ErrDeadlineExceeded}"
    using assms(2) by (simp_all add: relay_inv_def conns_inv_def)
  note rd = reads_r [OF i(2)]
  from right_round [OF i(2) lo room, of n] obtain q p' z r' rest' where
    z: "reader_round (timed_Read conn_Read) conn_Write (session_reader ?s) ?r n = ret (q, z, r')"
    and g: "given p' ?s ?r (?s\<lparr>sc_Conn := r_Reader z, sc_r := Some z\<rparr>) r'" and rm: "reads_m rest' (?s\<lparr>sc_Conn := r_Reader z, sc_r := Some z\<rparr>)"
    and rest: "rest = p' @ rest'" and lz: "r_leftover z = []"
    and q: "case q of Inl (_, err) \<Rightarrow> rest' = [] \<and> err = end_err (c_fin (net_conn (sc_Conn ?s)))
     | Inr _ \<Rightarrow> length (conn_content (net_conn (r_Reader z))) < length (conn_content (net_conn (sc_Conn ?s)))"
    by (elim exE conjE) (rule that)
  let ?x = "x\<lparr>rr_left := ?s\<lparr>sc_Conn := r_Reader z, sc_r := Some z\<rparr>, rr_right := r'\<rparr>"
  have o: "c_out r' = out @ p @ p'" using g i(1) by (simp add: given_def)
  show ?thesis
  proof (cases q)
    case (Inl ne)
    then obtain n' err where q': "q = Inl (n', err)" by (cases ne) auto
    with q end_err_in [OF fin] have e: "rest' = []" "err \<in> {None, Some ErrDeadlineExceeded}" by simp_all
    have "relay_inv cr mc bl en out m salt base m' (right_over late srv err ?x)"
      by (rule right_ends [OF assms(2), where p = p']) (use g o i(3) rest e assms(1) in simp_all)
    moreover have "right_nearer (right_over late srv err ?x) x" using assms(3) by (simp add: right_nearer_def right_rank_def right_over_def)
    moreover have "step_right cr bl en conn_Read conn_Write late srv x = ret (right_over late srv err ?x)"
      using q' assms(3) reader_conn [OF rd] z by (simp add: step_right_def Let_def)
    ultimately show ?thesis by blast
  next
    case (Inr n')
    let ?y = "?x\<lparr>rr_rpc := RLoop n'\<rparr>"
    have "right_inv cr bl en out m ?y" using o i(3) rest rm lz by (auto simp: right_inv_def)
    then have "relay_inv cr mc bl en out m salt base m' ?y"
      by (rule right_goes_on [OF assms(2), where p = p', rotated -1]) (use g in simp_all)
    moreover have "right_nearer ?y x" using q Inr lo lz assms(3) by (simp add: right_nearer_def right_rank_def right_todo_def)
    moreover have "step_right cr bl en conn_Read conn_Write late srv x = ret ?y"
      using Inr assms(3) reader_conn [OF rd] z by (simp add: step_right_def Let_def)
    ultimately show ?thesis by blast
  qed
qed

lemma left_goes_on:
  assumes "relay_inv cr mc bl en out m salt base m' x" "taken_from p (rr_left x) (rr_right x) (rr_left y) (rr_right y)" "sc_w (rr_left y) \<noteq> None"
    and "rr_world y = rr_world x \<or> sc_r (rr_left x) \<noteq> None" "rr_rpc y = rr_rpc x" "left_inv cr bl en salt base m' y"
  shows "relay_inv cr mc bl en out m salt base m' y" "right_rank y = right_rank x" "right_todo y = right_todo x"
proof -
  show "relay_inv cr mc bl en out m salt base m' y"
    using assms conns_inv_taken [of cr mc x p y] right_inv_taken [of cr bl en out m x p y] by (simp add: relay_inv_def)
  have "sc_r (rr_left y) = sc_r (rr_left x)" using assms(2) by (simp add: taken_from_def)
  then show "right_rank y = right_rank x" "right_todo y = right_todo x"
    using taken_keeps(1) [OF assms(2)] assms(5) by (simp_all add: right_rank_def right_todo_def session_reader_def)
qed

lemma left_ends:
  assumes "relay_inv cr mc bl en out m salt base m' x" "taken_from p (rr_left x) (rr_right x) (rr_left y) (rr_right y)"
    and "rr_world y = rr_world x" "rr_rpc y = rr_rpc x" "in_time late" "wrote cr salt base m' (rr_left y)" "e \<in> {None, Some ErrDeadlineExceeded}"
  shows "relay_inv cr mc bl en out m salt base m' (left_over late srv e y)"
    "right_rank (left_over late srv e y) = right_rank x" "right_todo (left_over late srv e y) = right_todo x"
proof -
  note k = unblock_sess_keeps [OF assms(5), where s = "rr_left y" and srv = srv]
  have "conns_inv cr mc y" "right_inv cr bl en out m y"
    using assms wrote_w [OF assms(6)] conns_inv_taken [of cr mc x p y] right_inv_taken [of cr bl en out m x p y] by (simp_all add: relay_inv_def)
  from left_over_inv [OF assms(5) this(2,1), where srv = srv and e = e] show "relay_inv cr mc bl en out m salt base m' (left_over late srv e y)"
    using k(2) [of cr salt base m'] assms(6,7) by (simp add: relay_inv_def left_inv_def left_over_def)
  have "sc_r (rr_left y) = sc_r (rr_left x)" using assms(2) by (simp add: taken_from_def)
  then show "right_rank (left_over late srv e y) = right_rank x" "right_todo (left_over late srv e y) = right_todo x"
    using taken_keeps(1) [OF assms(2)] assms(4) k(1,4) by (simp_all add: right_rank_def right_todo_def session_reader_def left_over_def)
qed

lemma step_left_LStart:
  assumes "crypto_ok cr" "cipher_made cr mc" "relay_inv cr mc bl en out m salt base m' x" "rr_lpc x = LStart"
  shows "\<exists>y. step_left cr bl en buffer_Read conn_Read conn_Write late srv x = ret y \<and> relay_inv cr mc bl en out m salt base m' y \<and> left_nearer y x"
proof -
  let ?s = "rr_left x" and ?g = "rr_world x" and ?r = "rr_right x"
  have c: "conns_inv cr mc x" using assms(3) by (simp add: relay_inv_def)
  from assms(3,4) obtain p where p: "departs cr bl en salt base p ?s ?g" "m' = p @ conn_content ?r" by (auto simp: relay_inv_def left_inv_def)
  have live: "live_conn (sc_Conn ?s)" and mc: "sc_Cipher ?s = mc" using c by (simp_all add: conns_inv_def)
  have "\<exists>s' g'. streamConn_needWriter cr bl en buffer_Read (timed_Write conn_Write) ?s ?g = ret (None, s', g') \<and> taken_from [] ?s ?r s' ?r \<and>
      wrote cr salt base p s' \<and> (g' = ?g \<or> sc_r ?s \<noteq> None)"
  proof (cases "sc_w ?s")
    case None
    with p(1) wrote_w [of cr salt base p ?s] have d: "p = []" "tc_accepted c_out (sc_Conn ?s) = base" "salt = take (metaCipher_SaltSize (sc_Cipher ?s)) (wd_rand ?g)"
      "metaCipher_SaltSize (sc_Cipher ?s) \<le> length (wd_rand ?g)" "sf_ok bl en (wd_salts ?g)"
      by (auto simp: departs_def)
    from open_left [OF live assms(1) _ d(5,4), of ?r] assms(2) mc d(1-3) None c show ?thesis by (auto simp: streamConn_needWriter_def conns_inv_def)
  next
    case (Some w)
    have "taken_from [] ?s ?r ?s ?r" using only_refl live live_room [OF live] by (auto simp: taken_from_def)
    with Some p(1) show ?thesis by (auto simp: streamConn_needWriter_def departs_def)
  qed
  then obtain s' g' where s': "streamConn_needWriter cr bl en buffer_Read (timed_Write conn_Write) ?s ?g = ret (None, s', g')"
      "taken_from [] ?s ?r s' ?r" "wrote cr salt base p s'" "g' = ?g \<or> sc_r ?s \<noteq> None"
    by blast
  let ?y = "x\<lparr>rr_left := s', rr_world := g', rr_lpc := LLoop 0\<rparr>"
  have li: "left_inv cr bl en salt base m' ?y" using p(2) s'(3) by (auto simp: left_inv_def)
  have "relay_inv cr mc bl en out m salt base m' ?y" "right_rank ?y = right_rank x" "right_todo ?y = right_todo x"
    by (rule left_goes_on [OF assms(3), where p = "[]", OF _ _ _ _ li], use s' wrote_w [OF s'(3)] in simp_all)+
  moreover from this have "left_nearer ?y x" using assms(4) by (simp add: left_nearer_def left_rank_def)
  moreover have "step_left cr bl en buffer_Read conn_Read conn_Write late srv x = ret ?y" using s'(1) assms(4) by (simp add: step_left_def)
  ultimately show ?thesis by blast
qed

lemma step_left_LLoop:
  assumes "in_time late" "relay_inv cr mc bl en out m salt base m' x" "rr_lpc x = LLoop n"
  shows "\<exists>y. step_left cr bl en buffer_Read conn_Read conn_Write late srv x = ret y \<and> relay_inv cr mc bl en out m salt base m' y \<and> left_nearer y x"
proof -
  let ?s = "rr_left x" and ?r = "rr_right x"
  from assms(2,3) obtain p where i: "wrote cr salt base p ?s" "m' = p @ conn_content ?r" by (auto simp: relay_inv_def left_inv_def)
  have live: "live_conn (sc_Conn ?s)" and fin: "c_fin ?r \<in> {EOF, ErrDeadlineExceeded}" using assms(2) by (simp_all add: relay_inv_def conns_inv_def)
  from wrote_w [OF i(1)] obtain w where w: "sc_w ?s = Some w" by blast
  from left_round [OF live i(1) w, of ?r n] obtain q p' z r' where
    z: "writer_round (timed_Write conn_Write) conn_Read (w\<lparr>w_Writer := sc_Conn ?s\<rparr>) ?r n = ret (q, z, r')"
    and t: "taken_from p' ?s ?r (?s\<lparr>sc_Conn := w_Writer z, sc_w := Some z\<rparr>) r'"
    and o: "wrote cr salt base (p @ p') (?s\<lparr>sc_Conn := w_Writer z, sc_w := Some z\<rparr>)"
    and q: "case q of Inl (_, err) \<Rightarrow> conn_content r' = [] \<and> err = end_err (c_fin ?r) | Inr _ \<Rightarrow> conn_left r' < conn_left ?r"
    by (elim exE conjE) (rule that)
  let ?x = "x\<lparr>rr_left := ?s\<lparr>sc_Conn := w_Writer z, sc_w := Some z\<rparr>, rr_right := r'\<rparr>"
  have m': "m' = (p @ p') @ conn_content r'" using t i(2) by (simp add: taken_from_def)
  show ?thesis
  proof (cases q)
    case (Inl ne)
    then obtain n' err where q': "q = Inl (n', err)" by (cases ne) auto
    with q end_err_in [OF fin] have e: "conn_content r' = []" "err \<in> {None, Some ErrDeadlineExceeded}" by simp_all
    let ?y = "left_over late srv err ?x"
    have "relay_inv cr mc bl en out m salt base m' ?y" "right_rank ?y = right_rank x" "right_todo ?y = right_todo x"
      by (rule left_ends [OF assms(2), where p = p'], use t o m' e assms(1) in simp_all)+
    moreover from this have "left_nearer ?y x" using assms(3) by (simp add: left_nearer_def left_rank_def left_over_def)
    moreover have "step_left cr bl en buffer_Read conn_Read conn_Write late srv x = ret ?y"
      using q' assms(3) w z by (simp add: step_left_def sc_writer_def Let_def)
    ultimately show ?thesis by blast
  next
    case (Inr n')
    let ?y = "?x\<lparr>rr_lpc := LLoop n'\<rparr>"
    have li: "left_inv cr bl en salt base m' ?y" using o m' by (auto simp: left_inv_def)
    have "relay_inv cr mc bl en out m salt base m' ?y" "right_rank ?y = right_rank x" "right_todo ?y = right_todo x"
      by (rule left_goes_on [OF assms(2), where p = p', OF _ _ _ _ li], use t in simp_all)+
    moreover from this have "left_nearer ?y x" using q Inr assms(3) by (simp add: left_nearer_def left_rank_def)
    moreover have "step_left cr bl en buffer_Read conn_Read conn_Write late srv x = ret ?y"
      using Inr assms(3) w z by (simp add: step_left_def sc_writer_def Let_def)
    ultimately show ?thesis by blast
  qed
qed

lemma step_right_ok:
  assumes "crypto_ok cr" "cipher_made cr mc" "in_time late" "relay_inv cr mc bl en out m salt base m' x" "\<forall>e. rr_rpc x \<noteq> REnd e"
  shows "\<exists>y. step_right cr bl en conn_Read conn_Write late srv x = ret y \<and> relay_inv cr mc bl en out m salt base m' y \<and> right_nearer y x"
proof (cases "rr_rpc x")
  case RStart
  with step_right_RStart [OF assms(1,2,4)] show ?thesis by blast
next
  case (RLeftover n)
  with step_right_RLeftover [OF assms(4)] show ?thesis by blast
next
  case (RLoop n)
  with step_right_RLoop [OF assms(3,4)] show ?thesis by blast
qed (use assms(5) in blast)

lemma step_left_ok:
  assumes "crypto_ok cr" "cipher_made cr mc" "in_time late" "relay_inv cr mc bl en out m salt base m' x" "\<forall>e. rr_lpc x \<noteq> LEnd e"
  shows "\<exists>y. step_left cr bl en buffer_Read conn_Read conn_Write late srv x = ret y \<and> relay_inv cr mc bl en out m salt base m' y \<and> left_nearer y x"
proof (cases "rr_lpc x")
  case LStart
  with step_left_LStart [OF assms(1,2,4)] show ?thesis by blast
next
  case (LLoop n)
  with step_left_LLoop [OF assms(3,4)] show ?thesis by blast
qed (use assms(5) in blast)

definition relay_order :: "(('f, 'g, conn) relay_run \<times> ('f, 'g, conn) relay_run) set" where
  "relay_order = inv_image (less_than <*lex*> less_than <*lex*> less_than <*lex*> less_than)
     (\<lambda>x. (right_rank x, right_todo x, left_rank x, conn_left (rr_right x)))"

lemma wf_relay_order: "wf relay_order"
  by (simp add: relay_order_def wf_lex_prod)

lemma turn_ok:
  assumes "crypto_ok cr" "cipher_made cr mc" "in_time late" "relay_turn cr bl en buffer_Read conn_Read conn_Write late srv x y" "relay_inv cr mc bl en out m salt base m' x"
  shows "relay_inv cr mc bl en out m salt base m' y \<and> (y, x) \<in> relay_order"
  using assms(4)
proof cases
  case turn_right
  from step_right_ok [OF assms(1-3,5) turn_right(1), where srv = srv] turn_right(2) show ?thesis
    by (auto simp: relay_order_def right_nearer_def)
next
  case turn_left
  from step_left_ok [OF assms(1-3,5) turn_left(1), where srv = srv] turn_left(2) show ?thesis
    by (auto simp: relay_order_def left_nearer_def)
qed

lemma relay_can_turn:
  assumes "crypto_ok cr" "cipher_made cr mc" "in_time late" "relay_inv cr mc bl en out m salt base m' x"
  shows "(\<exists>y. relay_turn cr bl en buffer_Read conn_Read conn_Write late srv x y) \<or> (\<exists>e1 e. rr_rpc x = REnd e1 \<and> rr_lpc x = LEnd e)"
proof (cases "(\<forall>e. rr_rpc x \<noteq> REnd e) \<or> (\<forall>e. rr_lpc x \<noteq> LEnd e)")
  case True
  then show ?thesis using step_right_ok [OF assms, where srv = srv] step_left_ok [OF assms, where srv = srv] by (blast intro: relay_turn.intros)
qed blast

lemma relay_begin_inv:
  assumes "live_conn (sc_Conn s)" "c_room r = None" "c_fin r \<in> {EOF, ErrDeadlineExceeded}" "c_fin (net_conn (sc_Conn s)) \<in> {EOF, ErrDeadlineExceeded}"
    and "arrives cr bl en reply s g" "departs cr bl en salt base m s g" "sc_r s = None \<longrightarrow> sc_w s \<noteq> None"
  shows "relay_inv cr (sc_Cipher s) bl en (c_out r) reply salt base (m @ conn_content r) (relay_begin s g r)"
  using assms by (auto simp: relay_inv_def conns_inv_def right_inv_def left_inv_def relay_begin_def)

subsection \<open>The sequential relay is a schedule\<close>

text \<open>Runs of rounds as runs of the machine.\<close>

lemma sc_reader_set [simp]: "sc_reader (s\<lparr>sc_Conn := r_Reader r, sc_r := Some r\<rparr>) = ret r"
  by (simp add: sc_reader_def)

lemma sc_writer_set [simp]: "sc_writer (s\<lparr>sc_Conn := w_Writer w, sc_w := Some w\<rparr>) = ret w"
  by (simp add: sc_writer_def)

lemma reader_turns:
  assumes "reader_rounds (timed_Read rd) wr r w n k err r' w'" "rr_rpc x = RLoop n" "sc_reader (rr_left x) = ret r" "rr_right x = w"
  shows "(relay_turn cr bl en rnd rd wr late srv)\<^sup>*\<^sup>* x
    (right_over late srv err (x\<lparr>rr_left := (rr_left x)\<lparr>sc_Conn := r_Reader r', sc_r := Some r'\<rparr>, rr_right := w'\<rparr>))"
  using assms
proof (induction arbitrary: x)
  case (reader_last r w n k err r' w')
  then have "step_right cr bl en rd wr late srv x = ret (right_over late srv err (x\<lparr>rr_left := (rr_left x)\<lparr>sc_Conn := r_Reader r', sc_r := Some r'\<rparr>, rr_right := w'\<rparr>))"
    by (simp add: step_right_def Let_def)
  then show ?case using reader_last(2) turn_right by (intro r_into_rtranclp turn_right) auto
next
  case (reader_more r w n j r1 w1 k err r' w')
  let ?x = "x\<lparr>rr_left := (rr_left x)\<lparr>sc_Conn := r_Reader r1, sc_r := Some r1\<rparr>, rr_right := w1, rr_rpc := RLoop j\<rparr>"
  have "relay_turn cr bl en rnd rd wr late srv x ?x"
    using reader_more.prems reader_more.hyps(1) by (intro turn_right) (auto simp: step_right_def Let_def)
  moreover from reader_more.IH [of ?x]
  have "(relay_turn cr bl en rnd rd wr late srv)\<^sup>*\<^sup>* ?x
      (right_over late srv err (x\<lparr>rr_left := (rr_left x)\<lparr>sc_Conn := r_Reader r', sc_r := Some r'\<rparr>, rr_right := w'\<rparr>))"
    by (simp add: right_over_def)
  ultimately show ?case by (rule converse_rtranclp_into_rtranclp)
qed

text \<open>The same machine but for the reading side of its session.\<close>

definition but_reader :: "('f, 'g, 'c) relay_run \<Rightarrow> ('f, 'g, 'c) relay_run \<Rightarrow> bool" where
  "but_reader x y \<longleftrightarrow> rr_world y = rr_world x \<and> rr_lpc y = rr_lpc x \<and> (\<forall>c r. (rr_left y)\<lparr>sc_Conn := c, sc_r := r\<rparr> = (rr_left x)\<lparr>sc_Conn := c, sc_r := r\<rparr>)"

lemma leftover_turns:
  assumes "leftover_rounds wr r w n k err r' w'" "rr_rpc x = RLeftover n" "sc_reader (rr_left x) = ret r" "rr_right x = w"
  shows "\<exists>y. (relay_turn cr bl en rnd rd wr late srv)\<^sup>*\<^sup>* x y \<and>
    (if err = None then but_reader x y \<and> rr_rpc y = RLoop k \<and> sc_reader (rr_left y) = ret r' \<and> rr_right y = w'
     else y = right_over late srv err (x\<lparr>rr_left := (rr_left x)\<lparr>sc_Conn := r_Reader r', sc_r := Some r'\<rparr>, rr_right := w'\<rparr>))"
  using assms
proof (induction arbitrary: x)
  case (leftover_none r w n)
  then have "relay_turn cr bl en rnd rd wr late srv x (x\<lparr>rr_rpc := RLoop n\<rparr>)" by (intro turn_right) (auto simp: step_right_def)
  with leftover_none show ?case by (intro exI [of _ "x\<lparr>rr_rpc := RLoop n\<rparr>"]) (auto simp: but_reader_def)
next
  case (leftover_last r w n k err r' w')
  then have "err \<noteq> None" by (auto simp: leftover_round_def gobind_eq_ret split: option.splits)
  moreover have "relay_turn cr bl en rnd rd wr late srv x (right_over late srv err (x\<lparr>rr_left := (rr_left x)\<lparr>sc_Conn := r_Reader r', sc_r := Some r'\<rparr>, rr_right := w'\<rparr>))"
    using leftover_last by (intro turn_right) (auto simp: step_right_def Let_def)
  ultimately show ?case by auto
next
  case (leftover_more r w n j r1 w1 k err r' w')
  let ?x = "x\<lparr>rr_left := (rr_left x)\<lparr>sc_Conn := r_Reader r1, sc_r := Some r1\<rparr>, rr_right := w1, rr_rpc := RLeftover j\<rparr>"
  have t: "relay_turn cr bl en rnd rd wr late srv x ?x"
    using leftover_more.prems leftover_more.hyps(1,2) by (intro turn_right) (auto simp: step_right_def Let_def)
  from leftover_more.IH [of ?x] obtain y where y: "(relay_turn cr bl en rnd rd wr late srv)\<^sup>*\<^sup>* ?x y"
    "if err = None then but_reader ?x y \<and> rr_rpc y = RLoop k \<and> sc_reader (rr_left y) = ret r' \<and> rr_right y = w'
     else y = right_over late srv err (?x\<lparr>rr_left := (rr_left ?x)\<lparr>sc_Conn := r_Reader r', sc_r := Some r'\<rparr>, rr_right := w'\<rparr>)"
    by auto
  from converse_rtranclp_into_rtranclp [OF t y(1)] y(2) show ?case
    by (intro exI [of _ y]) (auto simp: but_reader_def right_over_def split: if_splits)
qed

lemma writer_turns:
  assumes "writer_rounds (timed_Write wr) rd w r n k err w' r'" "rr_lpc x = LLoop n" "sc_writer (rr_left x) = ret w" "rr_right x = r"
  shows "(relay_turn cr bl en rnd rd wr late srv)\<^sup>*\<^sup>* x
    (left_over late srv err (x\<lparr>rr_left := (rr_left x)\<lparr>sc_Conn := w_Writer w', sc_w := Some w'\<rparr>, rr_right := r'\<rparr>))"
  using assms
proof (induction arbitrary: x)
  case (writer_last w r n k err w' r')
  then have "step_left cr bl en rnd rd wr late srv x = ret (left_over late srv err (x\<lparr>rr_left := (rr_left x)\<lparr>sc_Conn := w_Writer w', sc_w := Some w'\<rparr>, rr_right := r'\<rparr>))"
    by (simp add: step_left_def Let_def)
  then show ?case using writer_last(2) by (intro r_into_rtranclp turn_left) auto
next
  case (writer_more w r n j w1 r1 k err w' r')
  let ?x = "x\<lparr>rr_left := (rr_left x)\<lparr>sc_Conn := w_Writer w1, sc_w := Some w1\<rparr>, rr_right := r1, rr_lpc := LLoop j\<rparr>"
  have "relay_turn cr bl en rnd rd wr late srv x ?x"
    using writer_more.prems writer_more.hyps(1) by (intro turn_left) (auto simp: step_left_def Let_def)
  moreover from writer_more.IH [of ?x]
  have "(relay_turn cr bl en rnd rd wr late srv)\<^sup>*\<^sup>* ?x
      (left_over late srv err (x\<lparr>rr_left := (rr_left x)\<lparr>sc_Conn := w_Writer w', sc_w := Some w'\<rparr>, rr_right := r'\<rparr>))"
    by (simp add: left_over_def)
  ultimately show ?case by (rule converse_rtranclp_into_rtranclp)
qed

lemma copy_right_turns:
  assumes "copy_right cr bl en (timed_Read rd) wr (Shadowed s) g r = ret (n, err, l', g', r')"
    and "rr_left x = s" "rr_world x = g" "rr_right x = r" "rr_rpc x = RStart"
  shows "\<exists>s'. l' = Shadowed s' \<and> (relay_turn cr bl en rnd rd wr late srv)\<^sup>*\<^sup>* x (right_over late srv err (x\<lparr>rr_left := s', rr_world := g', rr_right := r'\<rparr>))"
proof -
  from assms(1) obtain s' where l': "l' = Shadowed s'" and w: "streamConn_WriteTo cr bl en (timed_Read rd) wr s g r = ret (n, err, s', g', r')"
    by (auto simp: copy_right_def gobind_eq_ret)
  from w obtain e s1 g1 where i: "streamConn_needReader cr bl en (timed_Read rd) s g = ret (e, s1, g1)"
    and w1: "(case e of Some e \<Rightarrow> ret (0, Some e, s1, g1, r) | None \<Rightarrow> gobind (sc_reader s1) (\<lambda>z. gobind (reader_WriteTo (timed_Read rd) wr z r) (\<lambda>(n, err, z, w).
      ret (n, err, s1\<lparr>sc_Conn := r_Reader z, sc_r := Some z\<rparr>, g1, w)))) = ret (n, err, s', g', r')"
    by (auto simp: streamConn_WriteTo_def gobind_eq_ret)
  let ?T = "relay_turn cr bl en rnd rd wr late srv"
  have "?T\<^sup>*\<^sup>* x (right_over late srv err (x\<lparr>rr_left := s', rr_world := g', rr_right := r'\<rparr>))"
  proof (cases e)
    case (Some e')
    with w1 have "err = Some e'" "s' = s1" "g' = g1" "r' = r" by simp_all
    moreover have "x\<lparr>rr_left := s1, rr_world := g1, rr_right := r\<rparr> = x\<lparr>rr_left := s1, rr_world := g1\<rparr>" using assms(4) by simp
    ultimately show ?thesis
      using Some i assms(2-5) by (intro r_into_rtranclp turn_right) (auto simp: step_right_def)
  next
    case None
    let ?x = "x\<lparr>rr_left := s1, rr_world := g1, rr_rpc := RLeftover 0\<rparr>"
    have t: "?T x ?x" using None i assms(2-5) by (intro turn_right) (auto simp: step_right_def)
    from None w1 obtain z z' where z: "sc_reader s1 = ret z" "reader_WriteTo (timed_Read rd) wr z r = ret (n, err, z', r')"
      and s': "s' = s1\<lparr>sc_Conn := r_Reader z', sc_r := Some z'\<rparr>" "g' = g1" by (auto simp: gobind_eq_ret)
    from z(2) obtain n1 e1 z1 r1 where lo: "reader_WriteTo_leftover wr z r 0 = ret (n1, e1, z1, r1)"
      and lp: "(case e1 of Some e \<Rightarrow> ret (n1, Some e, z1, r1) | None \<Rightarrow> reader_WriteTo_loop (timed_Read rd) wr z1 r1 n1) = ret (n, err, z', r')"
      by (auto simp: reader_WriteTo_def gobind_eq_ret)
    from leftover_turns [OF leftover_loop_run [OF lo], of ?x cr bl en rnd rd late srv] z(1) assms(4) obtain y where
      y: "?T\<^sup>*\<^sup>* ?x y" "if e1 = None then but_reader ?x y \<and> rr_rpc y = RLoop n1 \<and> sc_reader (rr_left y) = ret z1 \<and> rr_right y = r1
        else y = right_over late srv e1 (?x\<lparr>rr_left := (rr_left ?x)\<lparr>sc_Conn := r_Reader z1, sc_r := Some z1\<rparr>, rr_right := r1\<rparr>)"
      by auto
    have xy: "?T\<^sup>*\<^sup>* x y" using t y(1) by (rule converse_rtranclp_into_rtranclp)
    show ?thesis
    proof (cases e1)
      case (Some e')
      with lp y(2) s' have "y = right_over late srv err (x\<lparr>rr_left := s', rr_world := g', rr_right := r'\<rparr>)" by (auto simp: right_over_def)
      with xy show ?thesis by simp
    next
      case None
      with y(2) have b: "but_reader ?x y" "rr_rpc y = RLoop n1" "sc_reader (rr_left y) = ret z1" "rr_right y = r1" by simp_all
      from None lp have "reader_WriteTo_loop (timed_Read rd) wr z1 r1 n1 = ret (n, err, z', r')" by simp
      from reader_turns [OF reader_loop_run [OF this] b(2-4), of cr bl en rnd late srv]
      have "?T\<^sup>*\<^sup>* y (right_over late srv err (y\<lparr>rr_left := (rr_left y)\<lparr>sc_Conn := r_Reader z', sc_r := Some z'\<rparr>, rr_right := r'\<rparr>))" .
      moreover have "right_over late srv err (y\<lparr>rr_left := (rr_left y)\<lparr>sc_Conn := r_Reader z', sc_r := Some z'\<rparr>, rr_right := r'\<rparr>) =
          right_over late srv err (x\<lparr>rr_left := s', rr_world := g', rr_right := r'\<rparr>)"
        using b(1) s' by (cases x; cases y) (simp add: but_reader_def right_over_def)
      ultimately show ?thesis using xy by simp
    qed
  qed
  with l' show ?thesis by blast
qed

lemma copy_left_turns:
  assumes "copy_left cr bl en rnd (timed_Write wr) rd (Shadowed s) g r = ret (n, err, l', g', r')"
    and "rr_left x = s" "rr_world x = g" "rr_right x = r" "rr_lpc x = LStart"
  shows "\<exists>s'. l' = Shadowed s' \<and> (relay_turn cr bl en rnd rd wr late srv)\<^sup>*\<^sup>* x (left_over late srv err (x\<lparr>rr_left := s', rr_world := g', rr_right := r'\<rparr>))"
proof -
  from assms(1) obtain s' where l': "l' = Shadowed s'" and w: "streamConn_ReadFrom cr bl en rnd (timed_Write wr) rd s g r = ret (n, err, s', g', r')"
    by (auto simp: copy_left_def gobind_eq_ret)
  from w obtain e s1 g1 where i: "streamConn_needWriter cr bl en rnd (timed_Write wr) s g = ret (e, s1, g1)"
    and w1: "(case e of Some e \<Rightarrow> ret (0, Some e, s1, g1, r) | None \<Rightarrow> gobind (sc_writer s1) (\<lambda>z. gobind (writer_ReadFrom (timed_Write wr) rd z r) (\<lambda>(n, err, z, w).
      ret (n, err, s1\<lparr>sc_Conn := w_Writer z, sc_w := Some z\<rparr>, g1, w)))) = ret (n, err, s', g', r')"
    by (auto simp: streamConn_ReadFrom_def gobind_eq_ret)
  let ?T = "relay_turn cr bl en rnd rd wr late srv"
  have "?T\<^sup>*\<^sup>* x (left_over late srv err (x\<lparr>rr_left := s', rr_world := g', rr_right := r'\<rparr>))"
  proof (cases e)
    case (Some e')
    with w1 have "err = Some e'" "s' = s1" "g' = g1" "r' = r" by simp_all
    moreover have "x\<lparr>rr_left := s1, rr_world := g1, rr_right := r\<rparr> = x\<lparr>rr_left := s1, rr_world := g1\<rparr>" using assms(4) by simp
    ultimately show ?thesis
      using Some i assms(2-5) by (intro r_into_rtranclp turn_left) (auto simp: step_left_def)
  next
    case None
    let ?x = "x\<lparr>rr_left := s1, rr_world := g1, rr_lpc := LLoop 0\<rparr>"
    have t: "?T x ?x" using None i assms(2-5) by (intro turn_left) (auto simp: step_left_def)
    from None w1 obtain z z' where z: "sc_writer s1 = ret z" "writer_ReadFrom_loop (timed_Write wr) rd z r 0 = ret (n, err, z', r')"
      and s': "s' = s1\<lparr>sc_Conn := w_Writer z', sc_w := Some z'\<rparr>" "g' = g1" by (auto simp: gobind_eq_ret writer_ReadFrom_def)
    from writer_turns [OF writer_loop_run [OF z(2)], of ?x cr bl en rnd late srv] z(1) assms(4) s'
    have "?T\<^sup>*\<^sup>* ?x (left_over late srv err (x\<lparr>rr_left := s', rr_world := g', rr_right := r'\<rparr>))" by (simp add: left_over_def)
    with t show ?thesis by (rule converse_rtranclp_into_rtranclp)
  qed
  with l' show ?thesis by blast
qed

text \<open>Whatever the peers do: what the relay of the handlers returns is the end of one of its schedules.\<close>

lemma relay_is_a_schedule:
  assumes "relay cr bl en rnd rd wr late go_first srv (Shadowed s) g r = ret (err, l', g', r')"
  shows "\<exists>x e1 e. (relay_turn cr bl en rnd rd wr late srv)\<^sup>*\<^sup>* (relay_begin s g r) x \<and> rr_rpc x = REnd e1 \<and> rr_lpc x = LEnd e \<and>
    err = relay_err e1 e \<and> l' = Shadowed (rr_left x) \<and> g' = rr_world x \<and> r' = rr_right x"
proof (cases go_first)
  case True
  with assms obtain n1 e1 l1 g1 r1 n2 e l2 r2 where
    c: "copy_right cr bl en (timed_Read rd) wr (Shadowed s) g r = ret (n1, e1, l1, g1, r1)"
      "copy_left cr bl en rnd (timed_Write wr) rd l1 g1 (unblock late srv r1) = ret (n2, e, l2, g', r')"
    and l2: "l' = (if 0 < sint (srv_ReadTimeout srv) then shadow_update (\<lambda>w. set_net (late (srv_ReadTimeout srv) (net_conn w)) w) l2 else l2)" "err = relay_err e1 e"
    by (auto simp: relay_def Let_def gobind_eq_ret unblock_def)
  from copy_right_turns [OF c(1), of "relay_begin s g r" rnd late srv] obtain s1 where s1: "l1 = Shadowed s1"
    "(relay_turn cr bl en rnd rd wr late srv)\<^sup>*\<^sup>* (relay_begin s g r) (right_over late srv e1 (relay_begin s1 g1 r1))"
    by (auto simp: relay_begin_def)
  from copy_left_turns [OF c(2) [unfolded s1(1)], of "right_over late srv e1 (relay_begin s1 g1 r1)" late srv] obtain s2 where s2: "l2 = Shadowed s2"
    "(relay_turn cr bl en rnd rd wr late srv)\<^sup>*\<^sup>* (right_over late srv e1 (relay_begin s1 g1 r1))
      (left_over late srv e ((right_over late srv e1 (relay_begin s1 g1 r1))\<lparr>rr_left := s2, rr_world := g', rr_right := r'\<rparr>))"
    by (auto simp: relay_begin_def right_over_def)
  have "l' = Shadowed (unblock_sess late srv s2)" using l2(1) s2(1) by (simp add: shadow_update_def unblock_sess_def unblock_def)
  with rtranclp_trans [OF s1(2) s2(2)] l2(2) show ?thesis
    by (intro exI conjI) (assumption | simp add: left_over_def right_over_def)+
next
  case False
  with assms obtain n1 e l1 g1 r1 n2 e1 r2 where
    c: "copy_left cr bl en rnd (timed_Write wr) rd (Shadowed s) g r = ret (n1, e, l1, g1, r1)"
      "copy_right cr bl en (timed_Read rd) wr (if 0 < sint (srv_ReadTimeout srv) then shadow_update (\<lambda>w. set_net (late (srv_ReadTimeout srv) (net_conn w)) w) l1 else l1) g1 r1 =
        ret (n2, e1, l', g', r2)"
    and r2: "r' = unblock late srv r2" "err = relay_err e1 e"
    by (auto simp: relay_def Let_def gobind_eq_ret unblock_def)
  from copy_left_turns [OF c(1), of "relay_begin s g r" late srv] obtain s1 where s1: "l1 = Shadowed s1"
    "(relay_turn cr bl en rnd rd wr late srv)\<^sup>*\<^sup>* (relay_begin s g r) (left_over late srv e (relay_begin s1 g1 r1))"
    by (auto simp: relay_begin_def)
  have "copy_right cr bl en (timed_Read rd) wr (Shadowed (unblock_sess late srv s1)) g1 r1 = ret (n2, e1, l', g', r2)"
    using c(2) s1(1) by (simp add: shadow_update_def unblock_sess_def unblock_def split: if_splits)
  from copy_right_turns [OF this, of "left_over late srv e (relay_begin s1 g1 r1)" rnd late srv] obtain s2 where s2: "l' = Shadowed s2"
    "(relay_turn cr bl en rnd rd wr late srv)\<^sup>*\<^sup>* (left_over late srv e (relay_begin s1 g1 r1))
      (right_over late srv e1 ((left_over late srv e (relay_begin s1 g1 r1))\<lparr>rr_left := s2, rr_world := g', rr_right := r2\<rparr>))"
    by (auto simp: relay_begin_def left_over_def)
  from rtranclp_trans [OF s1(2) s2(2)] s2(1) r2 show ?thesis
    by (intro exI conjI) (assumption | simp add: left_over_def right_over_def)+
qed

subsection \<open>Every schedule\<close>

text \<open>The relay is over without an error: the plain side got \<open>reply\<close> and the session carries \<open>m\<close>.\<close>

definition relayed :: "crypto \<Rightarrow> metaCipher \<Rightarrow> bytes \<Rightarrow> bytes \<Rightarrow> bytes \<Rightarrow> bytes \<Rightarrow> bytes \<Rightarrow> ('f, bytes, conn) relay_run \<Rightarrow> bool" where
  "relayed cr mc out reply salt base m x \<longleftrightarrow>
     (\<exists>e1 e bs. rr_rpc x = REnd e1 \<and> rr_lpc x = LEnd e \<and> relay_err e1 e = None \<and> c_out (rr_right x) = out @ reply \<and>
        tc_accepted c_out (sc_Conn (rr_left x)) = base @ bs \<and> carries cr mc salt m bs)"

lemma relay_schedules_end:
  assumes "crypto_ok cr" "cipher_made cr (sc_Cipher s)" "in_time late" "live_conn (sc_Conn s)" "c_room r = None"
    and "c_fin r \<in> {EOF, ErrDeadlineExceeded}" "c_fin (net_conn (sc_Conn s)) \<in> {EOF, ErrDeadlineExceeded}"
    and "arrives cr bl en reply s g" "departs cr bl en salt base m s g" "sc_r s = None \<longrightarrow> sc_w s \<noteq> None" "length salt = metaCipher_SaltSize (sc_Cipher s)"
  shows "ends_in (relay_turn cr bl en buffer_Read conn_Read conn_Write late srv) (relay_begin s g r)
    (\<lambda>x. relayed cr (sc_Cipher s) (c_out r) reply salt base (m @ conn_content r) x \<and> live_conn (sc_Conn (rr_left x)))"
proof (rule ends_inI [OF wf_relay_order, where I = "relay_inv cr (sc_Cipher s) bl en (c_out r) reply salt base (m @ conn_content r)"])
  show "relay_inv cr (sc_Cipher s) bl en (c_out r) reply salt base (m @ conn_content r) (relay_begin s g r)" by (rule relay_begin_inv [OF assms(4-10)])
next
  fix y z
  assume "relay_inv cr (sc_Cipher s) bl en (c_out r) reply salt base (m @ conn_content r) y" "relay_turn cr bl en buffer_Read conn_Read conn_Write late srv y z"
  then show "relay_inv cr (sc_Cipher s) bl en (c_out r) reply salt base (m @ conn_content r) z \<and> (z, y) \<in> relay_order"
    using turn_ok [OF assms(1-3)] by blast
next
  fix x
  assume i: "relay_inv cr (sc_Cipher s) bl en (c_out r) reply salt base (m @ conn_content r) x"
  from relay_can_turn [OF assms(1-3) i, where srv = srv] show "(\<exists>y. relay_turn cr bl en buffer_Read conn_Read conn_Write late srv x y) \<or>
      relayed cr (sc_Cipher s) (c_out r) reply salt base (m @ conn_content r) x \<and> live_conn (sc_Conn (rr_left x))"
  proof (elim disjE exE conjE)
    fix e1 e assume pc: "rr_rpc x = REnd e1" "rr_lpc x = LEnd e"
    have o: "wrote cr salt base (m @ conn_content r) (rr_left x)" "sc_Cipher (rr_left x) = sc_Cipher s" "c_out (rr_right x) = c_out r @ reply"
      "e1 \<in> {None, Some ErrDeadlineExceeded}" "e \<in> {None, Some ErrDeadlineExceeded}" "live_conn (sc_Conn (rr_left x))"
      using i pc by (simp_all add: relay_inv_def right_inv_def left_inv_def conns_inv_def)
    from sess_out_carries [OF o(1)] assms(11) o(2) obtain bs where
      "tc_accepted c_out (sc_Conn (rr_left x)) = base @ bs" "carries cr (sc_Cipher s) salt (m @ conn_content r) bs" by auto
    moreover have "relay_err e1 e = None" using o(4,5) by (auto simp: relay_err_def)
    ultimately show ?thesis using pc o(3,6) by (auto simp: relayed_def)
  qed blast
qed

text \<open>The relays of the two handlers between honest peers.\<close>

lemma local_schedules:
  assumes "crypto_ok cr" "cipher_made cr mc" "sf_ok bl en (wd_salts g)" "metaCipher_SaltSize mc \<le> length (wd_rand g)"
    and "c_room client = None" "conn_content client = [v, n] @ methods @ [v', CmdConnect, rsv] @ a @ payload"
    and "length methods = unat n" "addr_wf a" "dial (cf_RemoteServer (cf_Server (srv_Config srv))) = Inr up" "c_room up = None"
    and "carries cr mc salt' reply (conn_content up)" "AddSalt bl en (wd_salts g) (take (metaCipher_SaltSize mc) (wd_rand g)) = ret sf"
    and "CheckSalt bl en sf salt' = ret (False, sf')" "in_time late"
    and "c_fin client \<in> {EOF, ErrDeadlineExceeded}" "c_fin up \<in> {EOF, ErrDeadlineExceeded}"
  shows "\<exists>c s g'. local_meet cr bl en buffer_Read conn_Read conn_Write fires udp addr dial (aeadCipher mc) srv client g = ret (Relays c (Shadowed s), g') \<and>
    ends_in (relay_turn cr bl en buffer_Read conn_Read conn_Write late srv) (relay_begin s g' c)
      (\<lambda>x. relayed cr mc (c_out client @ [5, 0] @ [5, 0, 0, 1, 0, 0, 0, 0, 0, 0]) reply (take (metaCipher_SaltSize mc) (wd_rand g)) (c_out up) (a @ payload) x \<and>
        live_conn (sc_Conn (rr_left x)))"
proof -
  let ?salt = "take (metaCipher_SaltSize mc) (wd_rand g)"
  from local_relays [where dial = dial and srv = srv and up = up and v = v and n = n and methods = methods and a = a and payload = payload,
      OF assms(1-10,12), where fires = fires and udp = udp and addr = addr] obtain c s g' where
    m: "local_meet cr bl en buffer_Read conn_Read conn_Write fires udp addr dial (aeadCipher mc) srv client g = ret (Relays c (Shadowed s), g')"
    and c: "c_room c = None" "conn_content c = payload" "c_fin c = c_fin client" "c_out c = c_out client @ [5, 0] @ [5, 0, 0, 1, 0, 0, 0, 0, 0, 0]"
    and s: "wd_salts g' = sf" "live_conn (sc_Conn s)" "conn_content (net_conn (sc_Conn s)) = conn_content up" "c_fin (net_conn (sc_Conn s)) = c_fin up"
      "wrote cr ?salt (c_out up) a s" "sc_r s = None" "sc_Cipher s = mc"
    by (elim exE conjE) (rule that)
  have given: "cipher_made cr (sc_Cipher s)" "c_fin c \<in> {EOF, ErrDeadlineExceeded}" "c_fin (net_conn (sc_Conn s)) \<in> {EOF, ErrDeadlineExceeded}"
    "arrives cr bl en reply s g'" "departs cr bl en ?salt (c_out up) a s g'" "sc_r s = None \<longrightarrow> sc_w s \<noteq> None" "length ?salt = metaCipher_SaltSize (sc_Cipher s)"
    using assms(2,4,11,13,15,16) c(3) s wrote_w [OF s(5)] by (auto simp: arrives_def departs_def)
  from relay_schedules_end [OF assms(1) given(1) assms(14) s(2) c(1) given(2-7), where srv = srv] m c s(7) show ?thesis by auto
qed

lemma server_schedules:
  assumes "crypto_ok cr" "cipher_made cr mc" "carries cr mc salt (a @ payload) (conn_content d)" "addr_wf a"
    and "sf_ok bl en (wd_salts g)" "CheckSalt bl en (wd_salts g) salt = ret (False, sf)" "metaCipher_SaltSize mc \<le> length (wd_rand g)"
    and "Addr_String a = ret host" "dial host = Inr t" "c_room d = None" "c_room t = None" "in_time late"
    and "c_fin d \<in> {EOF, ErrDeadlineExceeded}" "c_fin t \<in> {EOF, ErrDeadlineExceeded}"
  shows "\<exists>s g'. server_meet cr bl en conn_Read fires dial (aeadCipher mc) srv d g = ret (Relays (Shadowed s) t, count_request srv, g') \<and>
    ends_in (relay_turn cr bl en buffer_Read conn_Read conn_Write late (count_request srv)) (relay_begin s g' t)
      (\<lambda>x. relayed cr mc (c_out t) payload (take (metaCipher_SaltSize mc) (wd_rand g)) (c_out d) (conn_content t) x \<and> live_conn (sc_Conn (rr_left x)))"
proof -
  let ?g = "g\<lparr>wd_salts := sf\<rparr>" and ?salt = "take (metaCipher_SaltSize mc) (wd_rand g)"
  from server_relays [where dial = dial and t = t, OF assms(1-4,6,8-10), of fires srv] obtain s where
    m: "server_meet cr bl en conn_Read fires dial (aeadCipher mc) srv d g = ret (Relays (Shadowed s) t, count_request srv, ?g)"
    and s: "live_conn (sc_Conn s)" "reads_m payload s" "tc_accepted c_out (sc_Conn s) = c_out d" "c_fin (net_conn (sc_Conn s)) = c_fin d" "sc_w s = None" "sc_Cipher s = mc"
    by blast
  have "sf_ok bl en (wd_salts ?g)" using CheckSalt_eq [OF assms(5), of salt] assms(6) by auto
  then have given: "cipher_made cr (sc_Cipher s)" "c_fin (net_conn (sc_Conn s)) \<in> {EOF, ErrDeadlineExceeded}" "arrives cr bl en payload s ?g"
    "departs cr bl en ?salt (c_out d) [] s ?g" "sc_r s = None \<longrightarrow> sc_w s \<noteq> None" "length ?salt = metaCipher_SaltSize (sc_Cipher s)"
    using assms(2,7,13) s reads_r [OF s(2)] by (simp_all add: arrives_def departs_def)
  from relay_schedules_end [OF assms(1) given(1) assms(12) s(1) assms(11,14) given(2-6), where srv = "count_request srv"] m s(6) show ?thesis by auto
qed

subsection \<open>Properties\<close>

text \<open>
  C5: The relay under every schedule.  Of the session on its left, one direction at least is open; \<open>reply\<close> is what it carries to this
  side, and \<open>m\<close> has been sent through it already.  Then no schedule of the two copying goroutines goes on for ever, none gets stuck before both are done, and
  when they are, the relay has no error to report: the connection on the right has received exactly \<open>reply\<close>, and the session carries
  \<open>m\<close> and then exactly what came from the right, whenever the cork's timer fired and whenever the copies set their deadlines.
\<close>

theorem relay_every_schedule:
  assumes "crypto_ok cr" "cipher_made cr (sc_Cipher s)" "in_time late" "live_conn (sc_Conn s)" "c_room r = None"
    and "c_fin r \<in> {EOF, ErrDeadlineExceeded}" "c_fin (net_conn (sc_Conn s)) \<in> {EOF, ErrDeadlineExceeded}"
    and "arrives cr bl en reply s g" "departs cr bl en salt base m s g" "sc_r s = None \<longrightarrow> sc_w s \<noteq> None" "length salt = metaCipher_SaltSize (sc_Cipher s)"
  shows "(\<nexists>f. f 0 = relay_begin s g r \<and> (\<forall>i. relay_turn cr bl en buffer_Read conn_Read conn_Write late srv (f i) (f (Suc i)))) \<and>
    (\<forall>x. (relay_turn cr bl en buffer_Read conn_Read conn_Write late srv)\<^sup>*\<^sup>* (relay_begin s g r) x \<longrightarrow>
      (\<exists>y. relay_turn cr bl en buffer_Read conn_Read conn_Write late srv x y) \<or>
      (\<exists>e1 e bs. rr_rpc x = REnd e1 \<and> rr_lpc x = LEnd e \<and> relay_err e1 e = None \<and> c_out (rr_right x) = c_out r @ reply \<and>
        tc_accepted c_out (sc_Conn (rr_left x)) = base @ bs \<and> carries cr (sc_Cipher s) salt (m @ conn_content r) bs))"
  using relay_schedules_end [OF assms, where srv = srv] unfolding ends_in_def relayed_def by blast

theorem relay_every_schedule_witness:
  "\<exists>s g. (\<nexists>f. f 0 = relay_begin s g (sample_conn [[71], [69, 84]]) \<and>
      (\<forall>i. relay_turn sample_crypto sample_bloom sample_env buffer_Read conn_Read conn_Write (\<lambda>_ c. c) (NewServer zero_Conf [] [] :: unit Server) (f i) (f (Suc i)))) \<and>
    (\<exists>y. relay_turn sample_crypto sample_bloom sample_env buffer_Read conn_Read conn_Write (\<lambda>_ c. c) (NewServer zero_Conf [] [] :: unit Server)
      (relay_begin s g (sample_conn [[71], [69, 84]])) y)"
proof -
  let ?g = "sample_world\<lparr>wd_salts := sample_filter\<rparr>" and ?r = "sample_conn [[71], [69, 84]]" and ?salt = "take (metaCipher_SaltSize sample_cipher) (wd_rand sample_world)"
  from sample_carries obtain up_in where up: "carries sample_crypto sample_cipher (replicate 16 9) [72, 73] (conn_content (sample_conn [up_in]))"
    by (auto simp: sample_conn_def conn_content_def)
  have salt: "?salt = replicate 16 42" by (simp add: sample_salt_size sample_world_def)
  have pre: "sf_ok sample_bloom sample_env (wd_salts ?g)" "metaCipher_SaltSize sample_cipher \<le> length (wd_rand ?g)" "c_room (sample_conn [up_in]) = None"
    by (simp_all add: sample_filter_ok sample_salt_size sample_world_def sample_conn_def)
  from local_addr [OF sample_crypto_ok sample_cipher_made pre, where fires = "[]" and a = "[1, 127, 0, 0, 1, 0, 80]"] obtain s and g' :: "(bytes list, bytes) world" where
    s: "AddSalt sample_bloom sample_env sample_filter ?salt = ret (wd_salts g')" "live_conn (sc_Conn s)" "only_written (sample_conn [up_in]) (net_conn (sc_Conn s))"
      "wrote sample_crypto ?salt (c_out (sample_conn [up_in])) [1, 127, 0, 0, 1, 0, 80] s" "sc_r s = None" "sc_Cipher s = sample_cipher"
    by auto
  have wd: "wd_salts g' = sample_filter2" using s(1) sample_filter_run(1) salt by simp
  have net: "conn_content (net_conn (sc_Conn s)) = conn_content (sample_conn [up_in])" "c_fin (net_conn (sc_Conn s)) \<in> {EOF, ErrDeadlineExceeded}"
    using s(3) by (simp_all add: only_written_def conn_content_def sample_conn_def)
  have a: "arrives sample_crypto sample_bloom sample_env [72, 73] s g'"
    using up s(5,6) net(1) wd sample_filter_run(2) by (auto simp: arrives_def)
  have d: "departs sample_crypto sample_bloom sample_env ?salt (c_out (sample_conn [up_in])) [1, 127, 0, 0, 1, 0, 80] s g'"
    using s(4) by (simp add: departs_def)
  have given: "cipher_made sample_crypto (sc_Cipher s)" "in_time (\<lambda>_ c. c)" "c_room ?r = None" "c_fin ?r \<in> {EOF, ErrDeadlineExceeded}"
    "sc_r s = None \<longrightarrow> sc_w s \<noteq> None" "length ?salt = metaCipher_SaltSize (sc_Cipher s)"
    using s(6) sample_cipher_made wrote_w [OF s(4)] by (simp_all add: in_time_def sample_conn_def sample_salt_size sample_world_def)
  note t = relay_every_schedule [OF sample_crypto_ok given(1,2) s(2) given(3,4) net(2) a d given(5,6), where srv = "NewServer zero_Conf [] [] :: unit Server"]
  from t [THEN conjunct2, THEN spec, THEN mp, OF rtranclp.rtrancl_refl]
  have "\<exists>y. relay_turn sample_crypto sample_bloom sample_env buffer_Read conn_Read conn_Write (\<lambda>_ c. c) (NewServer zero_Conf [] [] :: unit Server) (relay_begin s g' ?r) y"
    by (simp add: relay_begin_def)
  with t [THEN conjunct1] show ?thesis by blast
qed

end
