(* ===== verification/Util_Rand.thy ===== *)
theory Util_Rand
  imports Go_Prelude
begin

text \<open>
  \<^verbatim>\<open>m_util/utils.go\<close>: random strings.  The generator of \<^verbatim>\<open>math/rand\<close> is a parameter \<open>Int63\<close> on a state of its own.  A draw
  gives ten indices of six bits; an index without a letter is skipped, so the loop ends only if the generator keeps giving
  indices that have one.
\<close>

definition letterBytes :: string where
  "letterBytes = ''0123456789abcdefghijklmnopqrstuvwxyzABCDEFGHIJKLMNOPQRSTUVWXYZ''"

definition letterIdxBits :: nat where "letterIdxBits = 6"
definition letterIdxMask :: int where "letterIdxMask = push_bit letterIdxBits 1 - 1"
definition letterIdxMax :: nat where "letterIdxMax = 63 div letterIdxBits"

partial_function (option) RandString_loop :: "('g \<Rightarrow> int \<times> 'g) \<Rightarrow> string \<Rightarrow> int \<Rightarrow> int \<Rightarrow> nat \<Rightarrow> 'g \<Rightarrow> (string \<times> 'g) go" where
  "RandString_loop Int63 b i cache remain g =
     (if 0 \<le> i then
        let (cache, remain, g) = (if remain = 0 then (case Int63 g of (c, g) \<Rightarrow> (c, letterIdxMax, g)) else (cache, remain, g));
            idx = cache AND letterIdxMask in
        gobind (if idx < ilen letterBytes
                then gobind (go_index letterBytes idx) (\<lambda>ch. gobind (go_store b i ch) (\<lambda>b. ret (b, i - 1)))
                else ret (b, i)) (\<lambda>(b, i).
        RandString_loop Int63 b i (drop_bit letterIdxBits cache) (remain - 1) g)
      else ret (b, g))"

definition RandStringBytesMaskImprSrc :: "('g \<Rightarrow> int \<times> 'g) \<Rightarrow> int \<Rightarrow> 'g \<Rightarrow> (string \<times> 'g) go" where
  "RandStringBytesMaskImprSrc Int63 n src =
     (if n < 0 then throw NegativeMake
      else case Int63 src of (cache, src) \<Rightarrow> RandString_loop Int63 (replicate (nat n) (CHR 0x00)) (n - 1) cache letterIdxMax src)"

subsection \<open>The loop ends with a generator that keeps giving letters\<close>

abbreviation index_of_draw :: "int \<Rightarrow> nat \<Rightarrow> int" where
  "index_of_draw cache j \<equiv> drop_bit (6 * j) cache AND letterIdxMask"

definition draw :: "('g \<Rightarrow> int \<times> 'g) \<Rightarrow> 'g \<Rightarrow> nat \<Rightarrow> int" where
  "draw Int63 g k = fst (Int63 (((snd \<circ> Int63) ^^ k) g))"

text \<open>What the loop relies on: a draw is not negative, and among the draws to come is one with an index that has a letter.\<close>

definition keeps_giving :: "('g \<Rightarrow> int \<times> 'g) \<Rightarrow> bool" where
  "keeps_giving Int63 \<longleftrightarrow> (\<forall>g. 0 \<le> fst (Int63 g) \<and> (\<exists>k j. j < 10 \<and> index_of_draw (draw Int63 g k) j < 62))"

lemma mask_range: "0 \<le> (x :: int) AND letterIdxMask"
  by (simp add: letterIdxMask_def letterIdxBits_def)

lemma length_letters: "length letterBytes = 62"
  by (simp add: letterBytes_def)

lemma loop_hit:
  assumes "0 \<le> i" "i < ilen b" "0 < remain" "cache AND letterIdxMask < 62"
  shows "RandString_loop Int63 b i cache remain g =
    RandString_loop Int63 (b[nat i := letterBytes ! nat (cache AND letterIdxMask)]) (i - 1) (drop_bit 6 cache) (remain - 1) g"
  using assms mask_range [of cache]
  by (subst RandString_loop.simps) (simp add: go_index_def go_store_def length_letters letterIdxBits_def)

lemma loop_skip:
  assumes "0 \<le> i" "0 < remain" "\<not> cache AND letterIdxMask < 62"
  shows "RandString_loop Int63 b i cache remain g = RandString_loop Int63 b i (drop_bit 6 cache) (remain - 1) g"
  using assms by (subst RandString_loop.simps) (simp add: length_letters letterIdxBits_def)

lemma loop_draw:
  assumes "0 \<le> i"
  shows "RandString_loop Int63 b i cache 0 g = RandString_loop Int63 b i (fst (Int63 g)) 10 (snd (Int63 g))"
  using assms by (subst RandString_loop.simps, subst RandString_loop.simps) (simp add: letterIdxMax_def letterIdxBits_def split: prod.split)

text \<open>The loop finds the next letter.\<close>

lemma loop_next_in_draw:
  assumes "j < remain" "index_of_draw cache j < 62" "0 \<le> i" "i < ilen b"
  shows "\<exists>ch cache' remain'. ch \<in> set letterBytes \<and> RandString_loop Int63 b i cache remain g =
    RandString_loop Int63 (b[nat i := ch]) (i - 1) cache' remain' g"
  using assms(1,2)
proof (induction j arbitrary: cache remain)
  case 0
  have "letterBytes ! nat (cache AND letterIdxMask) \<in> set letterBytes" using 0 mask_range [of cache] by (simp add: length_letters)
  with 0 loop_hit [OF assms(3,4)] show ?case by (metis drop_bit_0 id_apply mult_0_right)
next
  case (Suc j)
  show ?case
  proof (cases "cache AND letterIdxMask < 62")
    case True
    have "letterBytes ! nat (cache AND letterIdxMask) \<in> set letterBytes" using True mask_range [of cache] by (simp add: length_letters)
    with True Suc.prems loop_hit [OF assms(3,4), of remain cache] show ?thesis by (metis gr_zeroI not_less_zero)
  next
    case False
    have "index_of_draw (drop_bit 6 cache) j < 62" using Suc.prems(2) by (simp add: add.commute)
    with Suc.IH [of "remain - 1" "drop_bit 6 cache"] Suc.prems(1) show ?thesis
      unfolding loop_skip [OF assms(3) less_trans [OF zero_less_Suc Suc.prems(1)] False] by simp
  qed
qed

lemma loop_exhausts:
  assumes "0 \<le> i" "\<forall>j<remain. \<not> index_of_draw cache j < 62"
  shows "RandString_loop Int63 b i cache remain g = RandString_loop Int63 b i (fst (Int63 g)) 10 (snd (Int63 g))"
  using assms(2)
proof (induction remain arbitrary: cache)
  case 0
  then show ?case by (simp add: loop_draw [OF assms(1)])
next
  case (Suc r)
  have "\<not> index_of_draw (drop_bit 6 cache) j < 62" if "j < r" for j
    using Suc.prems [rule_format, of "Suc j"] that by (simp add: add.commute)
  moreover have no: "\<not> cache AND letterIdxMask < 62" using Suc.prems [rule_format, of 0] by simp
  ultimately show ?case using Suc.IH [of "drop_bit 6 cache"] unfolding loop_skip [OF assms(1) zero_less_Suc no] by simp
qed

lemma draw_Suc: "draw Int63 g (Suc k) = draw Int63 (snd (Int63 g)) k"
  by (simp add: draw_def funpow_swap1)

lemma loop_next:
  assumes "0 \<le> i" "i < ilen b" "j < 10" "index_of_draw (draw Int63 g k) j < 62"
  shows "\<exists>ch cache' remain' g'. ch \<in> set letterBytes \<and> RandString_loop Int63 b i cache remain g =
    RandString_loop Int63 (b[nat i := ch]) (i - 1) cache' remain' g'"
  using assms(4)
proof (induction k arbitrary: cache remain g)
  case 0
  show ?case
  proof (cases "\<exists>j<remain. index_of_draw cache j < 62")
    case True
    with loop_next_in_draw [OF _ _ assms(1,2)] show ?thesis by metis
  next
    case False
    then have "RandString_loop Int63 b i cache remain g = RandString_loop Int63 b i (fst (Int63 g)) 10 (snd (Int63 g))"
      by (intro loop_exhausts [OF assms(1)]) blast
    moreover have "index_of_draw (fst (Int63 g)) j < 62" using 0 by (simp add: draw_def)
    ultimately show ?thesis using loop_next_in_draw [OF assms(3) _ assms(1,2)] by metis
  qed
next
  case (Suc k)
  show ?case
  proof (cases "\<exists>j<remain. index_of_draw cache j < 62")
    case True
    with loop_next_in_draw [OF _ _ assms(1,2)] show ?thesis by metis
  next
    case False
    then have "RandString_loop Int63 b i cache remain g = RandString_loop Int63 b i (fst (Int63 g)) 10 (snd (Int63 g))"
      by (intro loop_exhausts [OF assms(1)]) blast
    with Suc.IH [of "snd (Int63 g)" "fst (Int63 g)" 10] Suc.prems show ?thesis by (simp add: draw_Suc)
  qed
qed

lemma loop_fills:
  assumes "keeps_giving Int63" "m \<le> length b" "set (drop m b) \<subseteq> set letterBytes"
  shows "\<exists>s g'. RandString_loop Int63 b (int m - 1) cache remain g = ret (s, g') \<and> length s = length b \<and> set s \<subseteq> set letterBytes"
  using assms(2,3)
proof (induction m arbitrary: b cache remain g)
  case 0
  then show ?case by (simp add: RandString_loop.simps)
next
  case (Suc m)
  from assms(1) obtain k j where kj: "j < 10" "index_of_draw (draw Int63 g k) j < 62" unfolding keeps_giving_def by blast
  from loop_next [of "int m" b j Int63 g k cache remain] kj Suc.prems(1) obtain ch c r g1 where
    ch: "ch \<in> set letterBytes" and l: "RandString_loop Int63 b (int m) cache remain g = RandString_loop Int63 (b[m := ch]) (int m - 1) c r g1"
    by auto
  have "drop m (b[m := ch]) = ch # drop (Suc m) b" using Suc.prems(1) by (simp add: drop_update_swap flip: Cons_nth_drop_Suc)
  with Suc.IH [of "b[m := ch]" c r g1] Suc.prems ch l show ?case by simp
qed

text \<open>
  For every length, a string of that many letters and digits comes out, provided that the generator keeps giving, now and again, an
  index that has a letter.  A negative length panics.
\<close>

lemma RandString_ok:
  assumes "keeps_giving Int63"
  shows "\<exists>s g'. RandStringBytesMaskImprSrc Int63 (int n) src = ret (s, g') \<and> length s = n \<and> set s \<subseteq> set letterBytes"
  using loop_fills [OF assms, of n "replicate n CHR 0x00"] by (simp add: RandStringBytesMaskImprSrc_def split: prod.split)

lemma RandString_negative: "n < 0 \<Longrightarrow> RandStringBytesMaskImprSrc Int63 n src = throw NegativeMake"
  by (simp add: RandStringBytesMaskImprSrc_def)

text \<open>The requirement can be met.\<close>

lemma keeps_giving_zero: "keeps_giving (\<lambda>g :: nat. (0, Suc g))"
  by (auto simp: keeps_giving_def draw_def intro: exI [of _ 0])

end
