(* ===== verification/Spec2Isabelle.thy ===== *)
theory Spec2Isabelle
  imports Shadow_Conn Shadow_Packet Core_Cipher Socks_Handshake Bufio Socks_Handler Server_Main Server_Interleave Util_Rand
begin

text \<open>
  \<^bold>\<open>miniproxygo\<close> is a SOCKS5 proxy in two halves.  The local half speaks SOCKS5 with a client, and carries what the client sends over
  an encrypted connection to the remote half, which connects to the target the client named.  This development models the
  program and proves what its parts promise; this theory composes them.

  \<^bold>\<open>How the program's parts interact.\<close>  \<^verbatim>\<open>proxy.go\<close> loads the settings (\<^verbatim>\<open>m_config\<close>) and calls \<^verbatim>\<open>m_server.Start\<close>, which picks a cipher
  (\<^verbatim>\<open>m_core\<close>) and serves one of the two sides.  The local side accepts connections, runs \<^verbatim>\<open>m_socks.HandShake\<close> on each, dials the remote side
  through a corked and encrypted connection (\<^verbatim>\<open>m_shadow\<close>), sends the address and relays.  The remote side accepts, decrypts, reads the
  address, dials it and relays.  Salts that were sent are remembered in a ring of Bloom filters (\<^verbatim>\<open>m_internal\<close>), so that a session
  that comes back to its sender is refused.  \<^verbatim>\<open>m_bufio\<close> (a copy of Go's \<^verbatim>\<open>bufio\<close> with counters) and \<^verbatim>\<open>m_socks/handler.go\<close> (an older
  SOCKS handler) are libraries of the repository that its main program does not call.

  \<^bold>\<open>The model.\<close>  Go code is translated into functions with explicit state.  A run is a value of type \<open>'a go\<close> (theory \<open>Go_Prelude\<close>):
  a normal return, a panic, or no return at all.  Slices are lists whose operations check their bounds; bytes, counters and durations
  are words of their width; lengths and offsets are integers.  Loops that have no structural argument are partial functions in the option
  monad, so no fuel is needed: that a loop returns is proved as an equation \<open>f x = ret y\<close>.  The mutable objects of the code
  (\<^verbatim>\<open>net.Conn\<close>, the salt store, the random source) are threaded as state.

  \<^item> \<open>Go_Prelude\<close>, \<open>Go_IO\<close>, \<open>Net_Text\<close>, \<open>Go_Utf8\<close>: the parts of Go and its standard library the code uses: slices, \<^verbatim>\<open>io.ReadFull\<close>, \<^verbatim>\<open>bytes.Buffer\<close>,
    a TCP connection with arbitrary segmentation and a peer that may stop taking bytes, \<^verbatim>\<open>strconv\<close>, \<^verbatim>\<open>net.ParseIP\<close> and friends, UTF-8.
    The contracts \<open>stream_reader\<close> (a finite byte stream) and \<open>byte_sink\<close> are locales; the connection, the buffer and every wrapper
    of the program that keeps them is an interpretation or a sublocale.
  \<^item> \<open>Shadow_Cipher\<close>, \<open>Shadow_Stream\<close>, \<open>Shadow_Pump\<close>, \<open>Shadow_Conn\<close>: \<^verbatim>\<open>m_shadow/cipher.go\<close> and \<^verbatim>\<open>stream.go\<close>: subkeys, the counting nonce, the
    record format with a reference encoder (\<open>records\<close>) and decoder (\<open>decode\<close>), \<open>writer\<close> and \<open>reader\<close> against them, and the connection that
    exchanges salts on first use.  \<open>Live_Sink\<close>, \<open>Session_Flow\<close>: connections whose peer keeps reading, and what a whole session carries
    (\<open>carries\<close>) in each direction.  \<open>Copy_Rounds\<close>: the copying loops, one round at a time.
  \<^item> \<open>Shadow_Packet\<close>: \<^verbatim>\<open>m_shadow/packet.go\<close>.  \<open>Salt_Filter\<close>: \<^verbatim>\<open>m_internal\<close>.  \<open>Core_Cipher\<close>: \<^verbatim>\<open>m_core\<close>.
  \<^item> \<open>Socks_Addr\<close>, \<open>Socks_Handshake\<close>: \<^verbatim>\<open>m_socks/socks5.go\<close>, the address codec and the negotiation.
  \<^item> \<open>Socks_Handler\<close>: \<^verbatim>\<open>m_socks/handler.go\<close>, with the two goroutines of its relay as an interleaving step relation.
  \<^item> \<open>Bufio_Reader\<close>, \<open>Bufio_Lines\<close>, \<open>Bufio_Writer\<close>, \<open>Bufio\<close>: every operation of \<^verbatim>\<open>m_bufio/bufio.go\<close>; a buffered reader over a byte stream is a byte
    stream again, and a buffered writer over a sink a sink.
  \<^item> \<open>Server_Config\<close>, \<open>Server_Cork\<close>, \<open>Server\<close>: \<^verbatim>\<open>m_config\<close> and \<^verbatim>\<open>m_server\<close>: settings, set-up and shutdown; the corked connection
    with its timer, as a step of its own and inside the writes (\<open>timedConn\<close>); the accept loops as machines driven by what \<^verbatim>\<open>Accept\<close>
    returns; the handlers of the two sides as whole goroutines, with the loop of \<^verbatim>\<open>io.Copy\<close> and the relay.
  \<^item> \<open>Total_Reader\<close>, \<open>Server_Relay\<close>, \<open>Server_Probe\<close>, \<open>Server_Client\<close>: the handlers under any input.  \<open>Server_Tunnel\<close>: the handlers between
    honest peers.  \<open>Server_Interleave\<close>: the two goroutines of the relay as an interleaving step relation.
  \<^item> \<open>Server_Main\<close>: \<^verbatim>\<open>proxy.go\<close>, \<^verbatim>\<open>Start\<close>, \<^verbatim>\<open>m_util/exit.go\<close> and \<^verbatim>\<open>m_debug\<close>: the whole program from its command line to the goroutines it starts, which
    are functions of the state they share and of what is decided while they run.  \<open>Util_Rand\<close>: \<^verbatim>\<open>m_util/utils.go\<close>.

  \<^bold>\<open>What is shown.\<close>  Of the stream: what \<open>writer\<close> puts on the wire is the record encoding of what it read, \<open>reader\<close> gives back what the
  decoder finds, a record of which any part was tampered with ends the stream behind the intact ones, a cut stream gives its complete records, nonces do not repeat, a salt of one's own is
  refused.  Of the addresses and the handshake: parsing, printing, reading and splitting agree, and an address is only returned for
  a complete CONNECT request.  Of the salt store: how long a salt is remembered, and that the ring holds exactly the most recent additions.  Of the
  buffers: every byte arrives once and in order, and reading by delimiter, line and rune returns on every stream.  Of the
  server: accepting with bounded back-off, the corked connection keeps order under every firing of its timer, both handlers return on
  every input, their relays included, the remote side is silent under probing, the local side serves CONNECT requests only, and the
  relay goroutines of the server, between honest peers, and of the older handler deliver and end under every interleaving (\<open>ends_in\<close>:
  every run ends, none gets stuck, and all end well).  Of the program: what \<^verbatim>\<open>main\<close> serves on which settings, with which algorithm
  and key, and that neither it nor any goroutine it starts panics when the settings of the salt store can be used.  Of the whole (below): a request and a payload that enter the handler of the local side come out of the handler
  of the remote side, and the target's answer goes back the same way, whatever the network does to segments, whenever timers fire, and
  under every schedule of the goroutines of the two relays.
  Lemmas on concrete runs show where the code does not do what it says.

  \<^bold>\<open>What is assumed.\<close>  The cryptographic packages are the fields of a record \<open>crypto\<close> and the Bloom filter package those of a record \<open>bloom\<close>;
  \<open>crypto_ok\<close> and \<open>bloom_ok\<close> state their documented laws (sizes, opening inverts sealing; no false negatives, nothing in an empty filter),
  and both have a model; what a failing \<^verbatim>\<open>Open\<close> leaves in its destination is a field of its own with no law.
  The handlers need a salt store that can be built: \<open>sf_ok\<close>, which for a new process is \<open>salt_settings\<close>, excludes the panic of \<^verbatim>\<open>saltfilter.go\<close> on a
  \<^verbatim>\<open>SHADOWSOCKS_SF_\<close> variable that is not a number or leaves no slot (\<open>bad_settings_panic\<close>); such a variable is a finite number when it is one.
  \<^verbatim>\<open>net.Dial\<close>, \<^verbatim>\<open>net.Listen\<close>, the configuration file parser, the log and the random sources are parameters.

  \<^bold>\<open>What is not modelled.\<close>  Log output and its formatting; the passing of time beyond the recorded sleeps, the firings of the timer of a
  corked connection and what a read deadline does to a connection (an arbitrary function of the timeout; the theorem on the tunnel
  assumes that it cuts nothing off); in the handlers as one function, a finer interleaving of the two \<^verbatim>\<open>io.Copy\<close> calls of \<^verbatim>\<open>Server.relay\<close> than
  one after the other in either order (\<open>Server_Interleave\<close> has them round by round, with these runs as two of the schedules, and the
  theorem on the tunnel under every schedule puts it behind the first half of the handlers); goroutines of different connections, which share
  only the salt store, the random source and a counter, other than one after the other in any order; the closing of connections when a handler ends;
  flags that the \<^verbatim>\<open>flag\<close> package cannot parse, which end the program before \<^verbatim>\<open>main\<close> looks at them; constants and the UDP packet structures that no
  function of the program uses.
\<close>

section \<open>From the client to the target\<close>

lemma WriteTo_session:
  assumes "sc_r c \<noteq> None" "session_good conn_content c_fin (\<lambda>_. True) (c, g)" "c_room w = None"
  shows "\<exists>err c' w'. streamConn_WriteTo cr bl en conn_Read conn_Write c g w =
      ret (ilen (sr_content conn_content c_fin (session_reader c)), err, c', g, w') \<and>
    c_out w' = c_out w @ sr_content conn_content c_fin (session_reader c)"
proof -
  from assms(1) obtain r where r: "sc_r c = Some r" by blast
  have "sr_wf (session_reader c)" using assms(2) by (simp add: session_good_def sr_good_def)
  from tcp_live.WriteTo_all [where r = "session_reader c" and w = w, OF TrueI this _ live_never_fails(2)] assms(3)
  obtain err r' w' where "reader_WriteTo conn_Read conn_Write (session_reader c) w =
      ret (ilen (sr_content conn_content c_fin (session_reader c)), err, r', w')"
    "c_out w' = c_out w @ sr_content conn_content c_fin (session_reader c)"
    by blast
  with r show ?thesis
    by (simp add: streamConn_WriteTo_def streamConn_needReader_def sc_reader_def session_reader_def)
qed
text \<open>
  The receiving end: an address and then the payload, out of a connection that carries a fresh salt and
  records.
\<close>

lemma receive_addr_and_payload:
  assumes "crypto_ok cr" "cipher_made cr ciph" "length salt = metaCipher_SaltSize ciph"
    and "metaCipher_Encrypter cr ciph salt = ret (Inr a)" "aead_ok a" "payloads_ok ps"
    and "conn_content d = salt @ records a (zero_nonce a) ps" "concat ps = tgt @ payload" "addr_wf tgt"
    and "CheckSalt bl en (wd_salts g) salt = ret (False, sf)" "c_room w = None"
  shows "\<exists>c g' err c' w'. ReadAddr (streamConn_Read cr bl en conn_Read) (NewConn d ciph, g) = ret ((Some tgt, None), (c, g')) \<and>
    streamConn_WriteTo cr bl en conn_Read conn_Write c g' w = ret (ilen payload, err, c', g', w') \<and>
    c_out w' = c_out w @ payload"
proof -
  from receiver_session [OF assms(1-7,10)] obtain c where
    init: "streamConn_initReader cr bl en conn_Read (NewConn d ciph) g = ret (None, c, g\<lparr>wd_salts := sf\<rparr>)"
    and good: "session_good conn_content c_fin (\<lambda>_. True) (c, g\<lparr>wd_salts := sf\<rparr>)"
    and content: "sr_content conn_content c_fin (session_reader c) = tgt @ payload"
    using assms(8) by metis
  let ?g = "g\<lparr>wd_salts := sf\<rparr>"
  have "sc_r c \<noteq> None" using good by (simp add: session_good_def)
  with init have "streamConn_Read cr bl en conn_Read (NewConn d ciph, g) q = streamConn_Read cr bl en conn_Read (c, ?g) q" for q
    by (intro Read_after_init) (simp_all add: NewConn_def)
  then have first: "ReadAddr (streamConn_Read cr bl en conn_Read) (NewConn d ciph, g) = ReadAddr (streamConn_Read cr bl en conn_Read) (c, ?g)"
    by (rule ReadAddr_first)
  from stream_reader.ReadAddr_ok [OF tcp_session.session.stream_reader_axioms, where s = "(c, ?g)" and a = tgt and cr1 = cr and bl1 = bl and en1 = en, OF good] content
    addr_wf_append [OF assms(9), of payload]
  obtain c2 g2 where read: "ReadAddr (streamConn_Read cr bl en conn_Read) (c, ?g) = ret ((Some tgt, None), (c2, g2))"
    and good2: "session_good conn_content c_fin (\<lambda>_. True) (c2, g2)"
    and content2: "tgt @ payload = tgt @ sr_content conn_content c_fin (session_reader c2)"
    by auto
  have "sc_r c2 \<noteq> None" using good2 by (simp add: session_good_def)
  from WriteTo_session [OF this good2 assms(11)] content2 first read show ?thesis by auto
qed

text \<open>
  The parts of the tunnel on their own, without corks, timers and deadlines, and however the client's stream ends.  A client sends a
  CONNECT request for \<open>a\<close> and then \<open>payload\<close>.  The local side shakes hands, sends \<open>a\<close> through an encrypted connection and copies the
  client's bytes.  Whatever segments the network makes of the bytes it sent, a server that has not seen the salt reads exactly \<open>a\<close>
  and then delivers exactly \<open>payload\<close> to the target.
\<close>

theorem tunnel_delivers:
  assumes "crypto_ok cr" "cipher_made cr ciph" "sf_ok bl en (wd_salts g)" "metaCipher_SaltSize ciph \<le> length (wd_rand g)"
    and "c_room client = None" "conn_content client = [v, n] @ methods @ [v', CmdConnect, rsv] @ a @ payload"
    and "length methods = unat n" "addr_wf a" "c_room up = None" "c_out up = []" "c_room target = None"
    and "CheckSalt bl' en' (wd_salts g') (take (metaCipher_SaltSize ciph) (wd_rand g)) = ret (False, sf')"
  shows "\<exists>client' up1 g1 up2 client''.
    HandShake conn_Read conn_Write udp local client = ret ((Some a, None), client') \<and>
    streamConn_Write cr bl en buffer_Read conn_Write (NewConn up ciph, g) a = ret (ilen a, None, (up1, g1)) \<and>
    streamConn_ReadFrom cr bl en buffer_Read conn_Write conn_Read up1 g1 client' =
      ret (ilen payload, (if c_fin client' = EOF then None else Some (c_fin client')), up2, g1, client'') \<and>
    (\<forall>d. conn_content d = c_out (sc_Conn up2) \<longrightarrow>
      (\<exists>c g3 err c' target'. ReadAddr (streamConn_Read cr bl' en' conn_Read) (NewConn d ciph, g') = ret ((Some a, None), (c, g3)) \<and>
        streamConn_WriteTo cr bl' en' conn_Read conn_Write c g3 target = ret (ilen payload, err, c', g3, target') \<and>
        c_out target' = c_out target @ payload))"
proof -
  let ?salt = "take (metaCipher_SaltSize ciph) (wd_rand g)"
  have live: "\<exists>d'. conn_Write d b = ret (ilen b, None, d')" if "c_room d = None" for d b
    using that by (simp add: conn_Write_def)
  from live_duplex.HandShake_request [where c = client and udp = udp and local = local, OF TrueI assms(5) live assms(6-8)]
  obtain client' where h: "HandShake conn_Read conn_Write udp local client = ret ((Some a, None), client')" "conn_content client' = payload"
    by auto
  from sender_wire [OF assms(1-4,9), of a client'] obtain aead ps up1 g1 up2 client'' where
    e: "metaCipher_Encrypter cr ciph ?salt = ret (Inr aead)" "aead_ok aead"
    and w: "streamConn_Write cr bl en buffer_Read conn_Write (NewConn up ciph, g) a = ret (ilen a, None, (up1, g1))"
      "streamConn_ReadFrom cr bl en buffer_Read conn_Write conn_Read up1 g1 client' =
        ret (ilen (conn_content client'), (if c_fin client' = EOF then None else Some (c_fin client')), up2, g1, client'')"
    and ps: "payloads_ok ps" "concat ps = a @ conn_content client'"
    and out: "c_out (sc_Conn up2) = c_out up @ ?salt @ records aead (zero_nonce aead) ps"
    by blast
  have "\<exists>c g3 err c' target'. ReadAddr (streamConn_Read cr bl' en' conn_Read) (NewConn d ciph, g') = ret ((Some a, None), (c, g3)) \<and>
      streamConn_WriteTo cr bl' en' conn_Read conn_Write c g3 target = ret (ilen payload, err, c', g3, target') \<and>
      c_out target' = c_out target @ payload" if "conn_content d = c_out (sc_Conn up2)" for d
  proof (rule receive_addr_and_payload [OF assms(1,2) _ e ps(1) _ _ assms(8,12,11)])
    show "length ?salt = metaCipher_SaltSize ciph" using assms(4) by simp
    show "conn_content d = ?salt @ records aead (zero_nonce aead) ps" using that out assms(10) by simp
    show "concat ps = a @ payload" using ps(2) h(2) by simp
  qed
  with h w show ?thesis by (intro exI [of _ client'] exI [of _ up1] exI [of _ g1] exI [of _ up2] exI [of _ client'']) simp
qed

theorem tunnel_delivers_witness:
  "\<exists>client' up1 g1 up2 client''.
    HandShake conn_Read conn_Write False '''' (sample_conn [[5, 1, 0], [5, 1, 0, 1, 127, 0, 0, 1, 0, 80, 71, 69, 84]]) =
      ret ((Some [1, 127, 0, 0, 1, 0, 80], None), client') \<and>
    streamConn_Write sample_crypto sample_bloom sample_env buffer_Read conn_Write (NewConn (sample_conn []) sample_cipher, sample_world)
      [1, 127, 0, 0, 1, 0, 80] = ret (7, None, (up1, g1)) \<and>
    streamConn_ReadFrom sample_crypto sample_bloom sample_env buffer_Read conn_Write conn_Read up1 g1 client' =
      ret (3, (if c_fin client' = EOF then None else Some (c_fin client')), up2, g1, client'') \<and>
    (\<exists>c g3 err c' target'. ReadAddr (streamConn_Read sample_crypto sample_bloom sample_env conn_Read)
        (NewConn (sample_conn [c_out (sc_Conn up2)]) sample_cipher, sample_world) = ret ((Some [1, 127, 0, 0, 1, 0, 80], None), (c, g3)) \<and>
      streamConn_WriteTo sample_crypto sample_bloom sample_env conn_Read conn_Write c g3 (sample_conn []) = ret (3, err, c', g3, target') \<and>
      c_out target' = [71, 69, 84])"
proof -
  let ?client = "sample_conn [[5, 1, 0], [5, 1, 0, 1, 127, 0, 0, 1, 0, 80, 71, 69, 84]]"
  obtain sf where fresh: "CheckSalt sample_bloom sample_env (wd_salts sample_world)
      (take (metaCipher_SaltSize sample_cipher) (wd_rand sample_world)) = ret (False, sf)"
    using fresh_store_knows_nothing unfolding sample_world_def by auto
  have given: "sf_ok sample_bloom sample_env (wd_salts sample_world)" "metaCipher_SaltSize sample_cipher \<le> length (wd_rand sample_world)"
    "c_room ?client = None" "conn_content ?client = [5, 1] @ [0] @ [5, CmdConnect, 0] @ [1, 127, 0, 0, 1, 0, 80] @ [71, 69, 84]"
    "length [0 :: byte] = unat (1 :: byte)" "c_room (sample_conn []) = None" "c_out (sample_conn []) = []"
    by (simp_all add: sample_conn_def conn_content_def sample_salt_size sample_world_def sample_sf_ok CmdConnect_def)
  from tunnel_delivers [OF sample_crypto_ok sample_cipher_made given(1-5) sample_addr_wf given(6,7,6) fresh, of False "''''"]
  obtain client' up1 g1 up2 client'' where
    t: "HandShake conn_Read conn_Write False '''' ?client = ret ((Some [1, 127, 0, 0, 1, 0, 80], None), client')"
    "streamConn_Write sample_crypto sample_bloom sample_env buffer_Read conn_Write (NewConn (sample_conn []) sample_cipher, sample_world)
      [1, 127, 0, 0, 1, 0, 80] = ret (7, None, (up1, g1))"
    "streamConn_ReadFrom sample_crypto sample_bloom sample_env buffer_Read conn_Write conn_Read up1 g1 client' =
      ret (3, (if c_fin client' = EOF then None else Some (c_fin client')), up2, g1, client'')"
    and d: "\<forall>d. conn_content d = c_out (sc_Conn up2) \<longrightarrow>
      (\<exists>c g3 err c' target'. ReadAddr (streamConn_Read sample_crypto sample_bloom sample_env conn_Read) (NewConn d sample_cipher, sample_world) =
          ret ((Some [1, 127, 0, 0, 1, 0, 80], None), (c, g3)) \<and>
        streamConn_WriteTo sample_crypto sample_bloom sample_env conn_Read conn_Write c g3 (sample_conn []) = ret (3, err, c', g3, target') \<and>
        c_out target' = [71, 69, 84])"
    using given(7) by auto
  have "conn_content (sample_conn [c_out (sc_Conn up2)]) = c_out (sc_Conn up2)" by (simp add: sample_conn_def conn_content_def)
  note r = d [THEN spec, THEN mp, OF this]
  show ?thesis
    by (rule exI [of _ client'], rule exI [of _ up1], rule exI [of _ g1], rule exI [of _ up2], rule exI [of _ client''],
        intro conjI t r)
qed

text \<open>Concrete peers for the tunnel.\<close>

definition sample_state :: "(bytes list, bytes) world" where "sample_state = sample_world\<lparr>wd_salts := sample_filter\<rparr>"
definition sample_client :: conn where "sample_client = sample_conn [[5, 1, 0], [5, 1, 0, 1, 127, 0, 0, 1, 0, 80, 71, 69, 84]]"
definition sample_host :: conn where "sample_host = sample_conn [[72], [73]]"

lemma sample_peers:
  "sf_ok sample_bloom sample_env (wd_salts sample_state)" "metaCipher_SaltSize sample_cipher \<le> length (wd_rand sample_state)"
  "c_room sample_client = None" "conn_content sample_client = [5, 1] @ [0] @ [5, CmdConnect, 0] @ [1, 127, 0, 0, 1, 0, 80] @ [71, 69, 84]"
  "length [0 :: byte] = unat (1 :: byte)" "c_fin sample_client \<in> {EOF, ErrDeadlineExceeded}"
  "c_room sample_host = None" "c_fin sample_host \<in> {EOF, ErrDeadlineExceeded}" "in_time (\<lambda>_ c. c)"
  by (simp_all add: sample_state_def sample_client_def sample_host_def sample_conn_def conn_content_def sample_filter_ok CmdConnect_def in_time_def
      sample_salt_size sample_world_def)

lemma sample_salts:
  "AddSalt sample_bloom sample_env (wd_salts sample_state) (take (metaCipher_SaltSize sample_cipher) (wd_rand sample_state)) = ret sample_filter2"
  "CheckSalt sample_bloom sample_env sample_filter2 (replicate 16 9) = ret (False, sample_filter2)"
  "CheckSalt sample_bloom sample_env (wd_salts sample_state) (take (metaCipher_SaltSize sample_cipher) (wd_rand sample_state)) = ret (False, sample_filter)"
proof -
  have "take (metaCipher_SaltSize sample_cipher) (wd_rand sample_state) = replicate 16 42" by (simp add: sample_state_def sample_salt_size sample_world_def)
  then show
    "AddSalt sample_bloom sample_env (wd_salts sample_state) (take (metaCipher_SaltSize sample_cipher) (wd_rand sample_state)) = ret sample_filter2"
    "CheckSalt sample_bloom sample_env sample_filter2 (replicate 16 9) = ret (False, sample_filter2)"
    "CheckSalt sample_bloom sample_env (wd_salts sample_state) (take (metaCipher_SaltSize sample_cipher) (wd_rand sample_state)) = ret (False, sample_filter)"
    using sample_filter_run by (simp_all add: sample_state_def)
qed

lemma sample_answer: "\<exists>up_in. carries sample_crypto sample_cipher (replicate 16 9) [72, 73] (conn_content (sample_conn [up_in]))"
  using sample_carries by (auto simp: sample_conn_def conn_content_def)

lemma sample_conn_one:
  "conn_content (sample_conn [bs]) = bs \<and> c_room (sample_conn [bs]) = None \<and> c_fin (sample_conn [bs]) \<in> {EOF, ErrDeadlineExceeded}" "c_out (sample_conn x) = []"
  "c_out sample_client = []" "c_out sample_host = []"
  by (simp_all add: sample_client_def sample_host_def sample_conn_def conn_content_def)

text \<open>
  C1: The tunnel under every schedule.  A client sends a CONNECT request for \<open>a\<close> and then \<open>payload\<close>, and what comes from the remote side is
  a session that carries \<open>reply\<close>.  Then the local side comes to its relay, and every interleaving of the two goroutines of this relay, one salt
  exchange or one round of a copying loop at a time, comes to an end: without an error, the client got the replies of the handshake and then exactly \<open>reply\<close>,
  and the remote side was sent a session.  On every connection over which that session arrives, cut into segments in any way, the remote side
  connects to the host that \<open>a\<close> names and comes to its relay; and every interleaving of this one ends, with exactly \<open>payload\<close>
  given to the target and a session sent back that carries exactly what the target sent.
\<close>

theorem tunnel_every_schedule:
  assumes "crypto_ok cr" "cipher_made cr mc" "sf_ok bl en (wd_salts g)" "metaCipher_SaltSize mc \<le> length (wd_rand g)"
    and "c_room client = None" "conn_content client = [v, n] @ methods @ [v', CmdConnect, rsv] @ a @ payload"
    and "length methods = unat n" "addr_wf a" "dial (cf_RemoteServer (cf_Server (srv_Config srv))) = Inr up" "c_room up = None"
    and "carries cr mc salt' reply (conn_content up)" "AddSalt bl en (wd_salts g) (take (metaCipher_SaltSize mc) (wd_rand g)) = ret sf"
    and "CheckSalt bl en sf salt' = ret (False, sf')" "in_time late"
    and "c_fin client \<in> {EOF, ErrDeadlineExceeded}" "c_fin up \<in> {EOF, ErrDeadlineExceeded}"
    and "sf_ok blR enR (wd_salts gR)" "metaCipher_SaltSize mc \<le> length (wd_rand gR)"
    and "CheckSalt blR enR (wd_salts gR) (take (metaCipher_SaltSize mc) (wd_rand g)) = ret (False, sfR)"
    and "Addr_String a = ret host" "dialR host = Inr target" "c_room target = None" "in_time lateR" "c_fin target \<in> {EOF, ErrDeadlineExceeded}"
  shows "\<exists>c s g'. local_meet cr bl en buffer_Read conn_Read conn_Write fires udp addr dial (aeadCipher mc) srv client g = ret (Relays c (Shadowed s), g') \<and>
    ends_in (relay_turn cr bl en buffer_Read conn_Read conn_Write late srv) (relay_begin s g' c) (\<lambda>x. \<exists>e1 e bs.
      rr_rpc x = REnd e1 \<and> rr_lpc x = LEnd e \<and> relay_err e1 e = None \<and>
      c_out (rr_right x) = c_out client @ [5, 0] @ [5, 0, 0, 1, 0, 0, 0, 0, 0, 0] @ reply \<and>
      tc_accepted c_out (sc_Conn (rr_left x)) = c_out up @ bs \<and>
      (\<not> ck_corked (tc_conn (sc_Conn (rr_left x))) \<longrightarrow> c_out (net_conn (sc_Conn (rr_left x))) = c_out up @ bs) \<and>
      (\<forall>d. conn_content d = bs \<and> c_room d = None \<and> c_fin d \<in> {EOF, ErrDeadlineExceeded} \<longrightarrow>
        (\<exists>sR gR'. server_meet cr blR enR conn_Read firesR dialR (aeadCipher mc) srvR d gR = ret (Relays (Shadowed sR) target, count_request srvR, gR') \<and>
          ends_in (relay_turn cr blR enR buffer_Read conn_Read conn_Write lateR (count_request srvR)) (relay_begin sR gR' target) (\<lambda>y. \<exists>e1 e bsR.
            rr_rpc y = REnd e1 \<and> rr_lpc y = LEnd e \<and> relay_err e1 e = None \<and> c_out (rr_right y) = c_out target @ payload \<and>
            tc_accepted c_out (sc_Conn (rr_left y)) = c_out d @ bsR \<and>
            (\<not> ck_corked (tc_conn (sc_Conn (rr_left y))) \<longrightarrow> c_out (net_conn (sc_Conn (rr_left y))) = c_out d @ bsR) \<and>
            carries cr mc (take (metaCipher_SaltSize mc) (wd_rand gR)) (conn_content target) bsR))))"
proof -
  let ?salt = "take (metaCipher_SaltSize mc) (wd_rand g)" and ?saltR = "take (metaCipher_SaltSize mc) (wd_rand gR)"
  from local_schedules [where dial = dial and srv = srv and up = up and v = v and n = n and methods = methods and a = a and payload = payload,
      OF assms(1-16), where fires = fires and udp = udp and addr = addr] obtain c s g' where
    m: "local_meet cr bl en buffer_Read conn_Read conn_Write fires udp addr dial (aeadCipher mc) srv client g = ret (Relays c (Shadowed s), g')"
    and e: "ends_in (relay_turn cr bl en buffer_Read conn_Read conn_Write late srv) (relay_begin s g' c)
      (\<lambda>x. relayed cr mc (c_out client @ [5, 0] @ [5, 0, 0, 1, 0, 0, 0, 0, 0, 0]) reply ?salt (c_out up) (a @ payload) x \<and> live_conn (sc_Conn (rr_left x)))"
    by (elim exE conjE) (rule that)
  have remote: "\<exists>sR gR'. server_meet cr blR enR conn_Read firesR dialR (aeadCipher mc) srvR d gR = ret (Relays (Shadowed sR) target, count_request srvR, gR') \<and>
      ends_in (relay_turn cr blR enR buffer_Read conn_Read conn_Write lateR (count_request srvR)) (relay_begin sR gR' target)
        (\<lambda>y. relayed cr mc (c_out target) payload ?saltR (c_out d) (conn_content target) y \<and> live_conn (sc_Conn (rr_left y)))"
    if "carries cr mc ?salt (a @ payload) (conn_content d)" "c_room d = None" "c_fin d \<in> {EOF, ErrDeadlineExceeded}" for d
    by (rule server_schedules [where dial = dialR and host = host and t = target,
        OF assms(1,2) that(1) assms(8,17,19,18,20,21) that(2) assms(22,23) that(3) assms(24)])
  show ?thesis
    by (intro exI [of _ c] exI [of _ s] exI [of _ g'] conjI m, rule ends_in_mono [OF e], unfold relayed_def)
      (use remote live_uncorked in \<open>fastforce intro: ends_in_mono simp: relayed_def\<close>)
qed

theorem tunnel_every_schedule_witness:
  "\<exists>up_in c s g'. local_meet sample_crypto sample_bloom sample_env buffer_Read conn_Read conn_Write [False, True] False '''' (\<lambda>_. Inr (sample_conn [up_in]))
        (aeadCipher sample_cipher) (NewServer zero_Conf [] [] :: unit Server)
        sample_client sample_state = ret (Relays c (Shadowed s), g') \<and>
    ends_in (relay_turn sample_crypto sample_bloom sample_env buffer_Read conn_Read conn_Write (\<lambda>_ c. c) (NewServer zero_Conf [] [] :: unit Server)) (relay_begin s g' c) (\<lambda>x.
      c_out (rr_right x) = [5, 0, 5, 0, 0, 1, 0, 0, 0, 0, 0, 0, 72, 73] \<and>
      (\<exists>sR gR'. server_meet sample_crypto sample_bloom sample_env conn_Read [True] (\<lambda>_. Inr sample_host) (aeadCipher sample_cipher)
          (NewServer zero_Conf [] [] :: unit Server) (sample_conn [tc_accepted c_out (sc_Conn (rr_left x))]) sample_state =
          ret (Relays (Shadowed sR) sample_host, count_request (NewServer zero_Conf [] []), gR') \<and>
        ends_in (relay_turn sample_crypto sample_bloom sample_env buffer_Read conn_Read conn_Write (\<lambda>_ c. c) (count_request (NewServer zero_Conf [] [] :: unit Server)))
          (relay_begin sR gR' sample_host) (\<lambda>y. c_out (rr_right y) = [71, 69, 84])))"
proof -
  let ?srv = "NewServer zero_Conf [] [] :: unit Server"
  from sample_answer obtain up_in where up: "carries sample_crypto sample_cipher (replicate 16 9) [72, 73] (conn_content (sample_conn [up_in]))" by blast
  from Addr_String_total [OF sample_addr_wf] obtain host where host: "Addr_String [1, 127, 0, 0, 1, 0, 80] = ret host" by blast
  have aux: "c_out (rr_right x) = [5, 0, 5, 0, 0, 1, 0, 0, 0, 0, 0, 0, 72, 73] \<and>
      (\<exists>sR gR'. server_meet sample_crypto sample_bloom sample_env conn_Read [True] (\<lambda>_. Inr sample_host) (aeadCipher sample_cipher) ?srv
          (sample_conn [tc_accepted c_out (sc_Conn (rr_left x))]) sample_state = ret (Relays (Shadowed sR) sample_host, count_request ?srv, gR') \<and>
        ends_in (relay_turn sample_crypto sample_bloom sample_env buffer_Read conn_Read conn_Write (\<lambda>_ c. c) (count_request ?srv))
          (relay_begin sR gR' sample_host) (\<lambda>y. c_out (rr_right y) = [71, 69, 84]))"
    if o: "c_out (rr_right x) = c_out sample_client @ [5, 0] @ [5, 0, 0, 1, 0, 0, 0, 0, 0, 0] @ [72, 73]" "tc_accepted c_out (sc_Conn (rr_left x)) = c_out (sample_conn [up_in]) @ bs"
    and d: "\<forall>d. conn_content d = bs \<and> c_room d = None \<and> c_fin d \<in> {EOF, ErrDeadlineExceeded} \<longrightarrow>
        (\<exists>sR gR'. server_meet sample_crypto sample_bloom sample_env conn_Read [True] (\<lambda>_. Inr sample_host) (aeadCipher sample_cipher) ?srv d sample_state = ret (Relays (Shadowed sR) sample_host, count_request ?srv, gR') \<and>
          ends_in (relay_turn sample_crypto sample_bloom sample_env buffer_Read conn_Read conn_Write (\<lambda>_ c. c) (count_request ?srv)) (relay_begin sR gR' sample_host) (\<lambda>y. \<exists>e1 e bsR.
            rr_rpc y = REnd e1 \<and> rr_lpc y = LEnd e \<and> relay_err e1 e = None \<and> c_out (rr_right y) = c_out sample_host @ [71, 69, 84] \<and>
            tc_accepted c_out (sc_Conn (rr_left y)) = c_out d @ bsR \<and>
            (\<not> ck_corked (tc_conn (sc_Conn (rr_left y))) \<longrightarrow> c_out (net_conn (sc_Conn (rr_left y))) = c_out d @ bsR) \<and>
            carries sample_crypto sample_cipher (take (metaCipher_SaltSize sample_cipher) (wd_rand sample_state)) (conn_content sample_host) bsR))"
    for x :: "(bytes list, bytes, conn) relay_run" and bs
    using d [THEN spec, THEN mp, OF sample_conn_one(1)] o sample_conn_one(2-4) by (fastforce elim: ends_in_mono)
  from tunnel_every_schedule [where dial = "\<lambda>_. Inr (sample_conn [up_in])" and srv = ?srv and dialR = "\<lambda>_. Inr sample_host" and host = host and target = sample_host
      and late = "\<lambda>_ c. c" and up = "sample_conn [up_in]" and lateR = "\<lambda>_ c. c" and v = 5 and n = 1 and methods = "[0]" and v' = 5 and rsv = 0
      and a = "[1, 127, 0, 0, 1, 0, 80]" and payload = "[71, 69, 84]",
      OF sample_crypto_ok sample_cipher_made sample_peers(1-5) sample_addr_wf refl conjunct1 [OF conjunct2 [OF sample_conn_one(1)]] up sample_salts(1,2) sample_peers(9,6)
        conjunct2 [OF conjunct2 [OF sample_conn_one(1)]] sample_peers(1,2) sample_salts(3) host refl sample_peers(7,9,8), where fires = "[False, True]" and udp = False and addr = "''''" and firesR = "[True]" and srvR = ?srv]
  show ?thesis by (elim exE conjE) (rule exI [of _ up_in], intro exI conjI, assumption, erule ends_in_mono, elim exE conjE, rule aux)
qed

text \<open>
  C2: The tunnel, there and back.  A client sends a CONNECT request for \<open>a\<close> and then \<open>payload\<close>; what comes from the remote side
  is a session that carries \<open>reply\<close>, under a salt this process does not know.  Then the whole handler of the local side returns without an
  error: the client got the replies of the handshake and then exactly \<open>reply\<close>, and the remote side was sent a session that carries \<open>a\<close> and
  \<open>payload\<close>.  And on every connection over which that session arrives, cut into segments in any way, the whole handler of a remote side
  that does not know its salt connects to the host that \<open>a\<close> names, gives it exactly \<open>payload\<close>, and answers with a session that carries
  exactly what this target sends.  All this holds whenever the timers of the corked connections fire, in both orders of the copies of
  the relays, and for all deadlines that cut nothing off.  The bytes a side sends are those its corked connection accepted; they are on the
  wire as soon as the connection is uncorked.
\<close>

theorem tunnel_round_trip:
  assumes "crypto_ok cr" "cipher_made cr mc" "sf_ok bl en (wd_salts g)" "metaCipher_SaltSize mc \<le> length (wd_rand g)"
    and "c_room client = None" "conn_content client = [v, n] @ methods @ [v', CmdConnect, rsv] @ a @ payload"
    and "length methods = unat n" "addr_wf a" "dial (cf_RemoteServer (cf_Server (srv_Config srv))) = Inr up" "c_room up = None"
    and "carries cr mc salt' reply (conn_content up)" "AddSalt bl en (wd_salts g) (take (metaCipher_SaltSize mc) (wd_rand g)) = ret sf"
    and "CheckSalt bl en sf salt' = ret (False, sf')" "in_time late"
    and "c_fin client \<in> {EOF, ErrDeadlineExceeded}" "c_fin up \<in> {EOF, ErrDeadlineExceeded}"
    and "sf_ok blR enR (wd_salts gR)" "metaCipher_SaltSize mc \<le> length (wd_rand gR)"
    and "CheckSalt blR enR (wd_salts gR) (take (metaCipher_SaltSize mc) (wd_rand g)) = ret (False, sfR)"
    and "Addr_String a = ret host" "dialR host = Inr target" "c_room target = None" "in_time lateR" "c_fin target \<in> {EOF, ErrDeadlineExceeded}"
  shows "\<exists>client' up' g' bs.
    local_handler cr bl en buffer_Read conn_Read conn_Write late go_first fires udp addr dial (aeadCipher mc) srv client g =
      ret (Relayed None client' (Shadowed up'), g') \<and>
    c_out client' = c_out client @ [5, 0] @ [5, 0, 0, 1, 0, 0, 0, 0, 0, 0] @ reply \<and>
    tc_accepted c_out (sc_Conn up') = c_out up @ bs \<and> (\<not> ck_corked (tc_conn (sc_Conn up')) \<longrightarrow> c_out (net_conn (sc_Conn up')) = c_out up @ bs) \<and>
    (\<forall>d. conn_content d = bs \<and> c_room d = None \<and> c_fin d \<in> {EOF, ErrDeadlineExceeded} \<longrightarrow>
      (\<exists>d' target' gR' bsR. server_handler cr blR enR buffer_Read conn_Read conn_Write lateR go_firstR firesR dialR (aeadCipher mc) srvR d gR =
          ret (Relayed None (Shadowed d') target', count_request srvR, gR') \<and>
        c_out target' = c_out target @ payload \<and>
        tc_accepted c_out (sc_Conn d') = c_out d @ bsR \<and> (\<not> ck_corked (tc_conn (sc_Conn d')) \<longrightarrow> c_out (net_conn (sc_Conn d')) = c_out d @ bsR) \<and>
        carries cr mc (take (metaCipher_SaltSize mc) (wd_rand gR)) (conn_content target) bsR))"
proof -
  from local_session [where dial = dial and srv = srv and up = up and v = v and n = n and methods = methods and a = a and payload = payload, OF assms(1-16), where go_first = go_first and fires = fires and udp = udp and addr = addr] obtain client' up' g' bs where
    l: "local_handler cr bl en buffer_Read conn_Read conn_Write late go_first fires udp addr dial (aeadCipher mc) srv client g =
      ret (Relayed None client' (Shadowed up'), g')" "c_out client' = c_out client @ [5, 0] @ [5, 0, 0, 1, 0, 0, 0, 0, 0, 0] @ reply"
      "live_conn (sc_Conn up')" "tc_accepted c_out (sc_Conn up') = c_out up @ bs" "carries cr mc (take (metaCipher_SaltSize mc) (wd_rand g)) (a @ payload) bs"
    by (elim exE conjE) (rule that)
  have r: "\<exists>d' target' gR' bsR. server_handler cr blR enR buffer_Read conn_Read conn_Write lateR go_firstR firesR dialR (aeadCipher mc) srvR d gR =
          ret (Relayed None (Shadowed d') target', count_request srvR, gR') \<and>
        c_out target' = c_out target @ payload \<and>
        tc_accepted c_out (sc_Conn d') = c_out d @ bsR \<and> (\<not> ck_corked (tc_conn (sc_Conn d')) \<longrightarrow> c_out (net_conn (sc_Conn d')) = c_out d @ bsR) \<and>
        carries cr mc (take (metaCipher_SaltSize mc) (wd_rand gR)) (conn_content target) bsR"
    if d: "conn_content d = bs" "c_room d = None" "c_fin d \<in> {EOF, ErrDeadlineExceeded}" for d
    using server_session [where dial = dialR and host = host and t = target, OF assms(1,2) l(5) [folded d(1)] assms(8,17,19,18,20,21) d(2) assms(22,23) d(3) assms(24),
        where go_first = go_firstR and fires = firesR and srv = srvR] live_uncorked by metis
  show ?thesis
    by (rule exI [of _ client'], rule exI [of _ up'], rule exI [of _ g'], rule exI [of _ bs]) (use l(1,2,4) live_uncorked [OF l(3)] r in simp)
qed

theorem tunnel_round_trip_witness:
  "\<exists>up_in client' up' g' bs.
    local_handler sample_crypto sample_bloom sample_env buffer_Read conn_Read conn_Write (\<lambda>_ c. c) True [False, True] False '''' (\<lambda>_. Inr (sample_conn [up_in]))
        (aeadCipher sample_cipher) (NewServer zero_Conf [] [] :: unit Server)
        sample_client sample_state =
      ret (Relayed None client' (Shadowed up'), g') \<and>
    c_out client' = [5, 0, 5, 0, 0, 1, 0, 0, 0, 0, 0, 0, 72, 73] \<and> tc_accepted c_out (sc_Conn up') = bs \<and>
    (\<exists>d' target' gR'. server_handler sample_crypto sample_bloom sample_env buffer_Read conn_Read conn_Write (\<lambda>_ c. c) False [True] (\<lambda>_. Inr sample_host)
        (aeadCipher sample_cipher) (NewServer zero_Conf [] [] :: unit Server) (sample_conn [bs]) sample_state =
      ret (Relayed None (Shadowed d') target', count_request (NewServer zero_Conf [] []), gR') \<and> c_out target' = [71, 69, 84])"
proof -
  let ?srv = "NewServer zero_Conf [] [] :: unit Server"
  from sample_answer obtain up_in where up: "carries sample_crypto sample_cipher (replicate 16 9) [72, 73] (conn_content (sample_conn [up_in]))" by blast
  from Addr_String_total [OF sample_addr_wf] obtain host where host: "Addr_String [1, 127, 0, 0, 1, 0, 80] = ret host" by blast
  from tunnel_round_trip [where dial = "\<lambda>_. Inr (sample_conn [up_in])" and srv = ?srv and dialR = "\<lambda>_. Inr sample_host" and host = host and target = sample_host
      and late = "\<lambda>_ c. c" and up = "sample_conn [up_in]" and lateR = "\<lambda>_ c. c" and v = 5 and n = 1 and methods = "[0]" and v' = 5 and rsv = 0
      and a = "[1, 127, 0, 0, 1, 0, 80]" and payload = "[71, 69, 84]",
      OF sample_crypto_ok sample_cipher_made sample_peers(1-5) sample_addr_wf refl conjunct1 [OF conjunct2 [OF sample_conn_one(1)]] up sample_salts(1,2) sample_peers(9,6)
        conjunct2 [OF conjunct2 [OF sample_conn_one(1)]] sample_peers(1,2) sample_salts(3) host refl sample_peers(7,9,8), where go_first = True and fires = "[False, True]" and udp = False and addr = "''''" and go_firstR = False and firesR = "[True]" and srvR = ?srv]
  obtain client' up' g' bs where
    l: "local_handler sample_crypto sample_bloom sample_env buffer_Read conn_Read conn_Write (\<lambda>_ c. c) True [False, True] False '''' (\<lambda>_. Inr (sample_conn [up_in]))
        (aeadCipher sample_cipher) ?srv sample_client sample_state = ret (Relayed None client' (Shadowed up'), g')"
      "c_out client' = c_out sample_client @ [5, 0] @ [5, 0, 0, 1, 0, 0, 0, 0, 0, 0] @ [72, 73]" "tc_accepted c_out (sc_Conn up') = c_out (sample_conn [up_in]) @ bs"
    and r: "\<forall>d. conn_content d = bs \<and> c_room d = None \<and> c_fin d \<in> {EOF, ErrDeadlineExceeded} \<longrightarrow>
      (\<exists>d' target' gR' bsR. server_handler sample_crypto sample_bloom sample_env buffer_Read conn_Read conn_Write (\<lambda>_ c. c) False [True] (\<lambda>_. Inr sample_host)
          (aeadCipher sample_cipher) ?srv d sample_state = ret (Relayed None (Shadowed d') target', count_request ?srv, gR') \<and>
        c_out target' = c_out sample_host @ [71, 69, 84] \<and>
        tc_accepted c_out (sc_Conn d') = c_out d @ bsR \<and> (\<not> ck_corked (tc_conn (sc_Conn d')) \<longrightarrow> c_out (net_conn (sc_Conn d')) = c_out d @ bsR) \<and>
        carries sample_crypto sample_cipher (take (metaCipher_SaltSize sample_cipher) (wd_rand sample_state)) (conn_content sample_host) bsR)"
    by (elim exE conjE) (rule that)
  with l sample_conn_one(2-4) r [THEN spec, THEN mp, OF sample_conn_one(1)] show ?thesis
    by (intro exI [of _ up_in] exI [of _ client'] exI [of _ up'] exI [of _ g'] exI [of _ bs]) auto
qed

end
